(* ===== verification/Prelude.thy ===== *)
theory Prelude
  imports Main "HOL-Library.Word"
begin

text \<open>
  Shared vocabulary of the development: the C integer types of \<^verbatim>\<open>types.h\<close> as machine
  words, kernel failure as a value, the page arithmetic of \<^verbatim>\<open>mmu.h\<close> and
  \<^verbatim>\<open>memlayout.h\<close>, and the generic facts on words and lists that the component
  theories use.
\<close>

unbundle bit_operations_syntax

named_theorems res_simps \<open>unfolding of sequential composition of fallible kernel code\<close>
named_theorems page_simps \<open>page rounding read on natural numbers\<close>

subsection \<open>C types\<close>

text \<open>
  A pointer is a \<^verbatim>\<open>uint\<close>. A C \<^verbatim>\<open>int\<close> is kept as a 32-bit word too and read with
  \<^term>\<open>sint\<close> or the signed comparisons where the source compares it as signed.
\<close>

type_synonym byte = "8 word"
type_synonym ushort = "16 word"
type_synonym uint = "32 word"
type_synonym cint = "32 word"

subsection \<open>Failure\<close>

text \<open>
  \<^verbatim>\<open>panic(msg)\<close> prints and never returns: it is the failure \<open>Panic msg\<close>. \<open>Stuck\<close> is
  what C gives no result for: a null or wild pointer dereference, or a wait that nothing
  ends.
\<close>

datatype failure = Panic string | Stuck string

type_synonym 'a res = "failure + 'a"

abbreviation panic :: "string \<Rightarrow> 'a res" where
  "panic msg \<equiv> Inl (Panic msg)"

abbreviation stuck :: "string \<Rightarrow> 'a res" where
  "stuck msg \<equiv> Inl (Stuck msg)"

text \<open>Run one fallible step, then the rest of the function on its result.\<close>

definition andThen :: "'a res \<Rightarrow> ('a \<Rightarrow> 'b res) \<Rightarrow> 'b res" where
  "andThen r f = (case r of Inl e \<Rightarrow> Inl e | Inr x \<Rightarrow> f x)"

lemma andThen_Inl [simp, res_simps]: "andThen (Inl e) f = Inl e"
  by (simp add: andThen_def)

lemma andThen_Inr [simp, res_simps]: "andThen (Inr x) f = f x"
  by (simp add: andThen_def)

lemma andThen_eq_Inr [res_simps]:
  "andThen r f = Inr y \<longleftrightarrow> (\<exists>x. r = Inr x \<and> f x = Inr y)"
  by (cases r) simp_all

lemma andThen_eq_Inl [res_simps]:
  "andThen r f = Inl e \<longleftrightarrow> r = Inl e \<or> (\<exists>x. r = Inr x \<and> f x = Inl e)"
  by (cases r) simp_all

lemma andThen_InrE [elim]:
  assumes "andThen r f = Inr y"
  obtains x where "r = Inr x" and "f x = Inr y"
  using assms by (auto simp: andThen_eq_Inr)

lemma andThen_cong [fundef_cong]:
  "r = r' \<Longrightarrow> (\<And>x. r' = Inr x \<Longrightarrow> f x = g x) \<Longrightarrow> andThen r f = andThen r' g"
  by (cases r') simp_all

lemma andThen_assoc: "andThen (andThen r f) g = andThen r (\<lambda>x. andThen (f x) g)"
  by (cases r) simp_all

subsection \<open>Memory layout\<close>

abbreviation (input) PGSIZE :: uint where "PGSIZE \<equiv> 4096"
abbreviation (input) KERNBASE :: uint where "KERNBASE \<equiv> 0x80000000"
abbreviation (input) EXTMEM :: uint where "EXTMEM \<equiv> 0x100000"
abbreviation (input) PHYSTOP :: uint where "PHYSTOP \<equiv> 0xE000000"
abbreviation (input) DEVSPACE :: uint where "DEVSPACE \<equiv> 0xFE000000"
abbreviation (input) KERNLINK :: uint where "KERNLINK \<equiv> KERNBASE + EXTMEM"

definition V2P :: "uint \<Rightarrow> uint" where
  "V2P a = a - KERNBASE"

definition P2V :: "uint \<Rightarrow> uint" where
  "P2V a = a + KERNBASE"

definition PGROUNDUP :: "uint \<Rightarrow> uint" where
  "PGROUNDUP sz = (sz + PGSIZE - 1) AND NOT (PGSIZE - 1)"

definition PGROUNDDOWN :: "uint \<Rightarrow> uint" where
  "PGROUNDDOWN a = a AND NOT (PGSIZE - 1)"

definition PDX :: "uint \<Rightarrow> uint" where
  "PDX va = drop_bit 22 va AND 0x3FF"

definition PTX :: "uint \<Rightarrow> uint" where
  "PTX va = drop_bit 12 va AND 0x3FF"

definition PGADDR :: "uint \<Rightarrow> uint \<Rightarrow> uint \<Rightarrow> uint" where
  "PGADDR d t off = push_bit 22 d OR push_bit 12 t OR off"

abbreviation (input) PTE_P :: uint where "PTE_P \<equiv> 0x001"
abbreviation (input) PTE_W :: uint where "PTE_W \<equiv> 0x002"
abbreviation (input) PTE_U :: uint where "PTE_U \<equiv> 0x004"

definition PTE_ADDR :: "uint \<Rightarrow> uint" where
  "PTE_ADDR pte = pte AND NOT 0xFFF"

definition PTE_FLAGS :: "uint \<Rightarrow> uint" where
  "PTE_FLAGS pte = pte AND 0xFFF"

lemma V2P_P2V [simp]: "V2P (P2V a) = a"
  by (simp add: V2P_def P2V_def)

lemma P2V_V2P [simp]: "P2V (V2P a) = a"
  by (simp add: V2P_def P2V_def)

lemma V2P_inject [simp]: "V2P a = V2P b \<longleftrightarrow> a = b"
  by (simp add: V2P_def)

lemma P2V_inject [simp]: "P2V a = P2V b \<longleftrightarrow> a = b"
  by (simp add: P2V_def)

subsection \<open>Aligned numbers\<close>

lemma aligned_add_less:
  fixes a k x :: nat
  assumes "a mod k = 0" "a < k * n" "x < k"
  shows "a + x < k * n"
proof -
  from assms(1) obtain q where q: "a = k * q" by (auto simp: mod_eq_0_iff_dvd)
  with assms(2) have "Suc q \<le> n" by simp
  then have "k * Suc q \<le> k * n" by (rule mult_le_mono2)
  with q assms(3) show ?thesis by simp
qed

lemma aligned_add_unique:
  fixes a b k x y :: nat
  assumes "a mod k = 0" "b mod k = 0" "x < k" "y < k" "a + x = b + y"
  shows "a = b \<and> x = y"
proof -
  have "(a + x) mod k = x" using assms(1,3) by (metis add_0 mod_add_left_eq mod_less)
  moreover have "(b + y) mod k = y" using assms(2,4) by (metis add_0 mod_add_left_eq mod_less)
  ultimately show ?thesis using assms(5) by simp
qed

subsection \<open>Rounding, on natural numbers\<close>

lemma unat_of_nat32: "k < 2 ^ 32 \<Longrightarrow> unat (of_nat k :: uint) = k"
  by (simp add: unsigned_of_nat take_bit_nat_eq_self)

lemma unat_minus_1 [simp]: "unat (- 1 :: uint) = 4294967295"
  by (simp add: unsigned_minus_1_eq_mask mask_eq_exp_minus_1)

lemma unat_lt32: "unat (x :: uint) < 4294967296"
  using unsigned_less [where ?'a = nat, of x] by simp

lemma sint32: "sint (w :: cint) = (if unat w < 2147483648 then int (unat w) else int (unat w) - 4294967296)"
proof -
  have e: "sint w = (int (unat w) + 2147483648) mod 4294967296 - 2147483648"
    by (simp add: sint_uint signed_take_bit_eq_take_bit_shift take_bit_eq_mod)
  have g: "(int n + 2147483648) mod 4294967296 - 2147483648 = (if n < 2147483648 then int n else int n - 4294967296)"
    if "n < 4294967296" for n
  proof (cases "n < 2147483648")
    case False
    then have "(int n + 2147483648) mod 4294967296 = (int n - 2147483648 + 4294967296) mod 4294967296"
      by (simp add: algebra_simps)
    also have "\<dots> = int n - 2147483648"
      using that False by (simp only: mod_add_self2) (simp add: mod_pos_pos_trivial)
    finally show ?thesis
      using False by simp
  qed (simp add: mod_pos_pos_trivial)
  show ?thesis
    unfolding e by (rule g [OF unat_lt32])
qed

lemma signed_pos: "\<not> w \<le>s (0 :: cint) \<longleftrightarrow> 0 < unat w \<and> unat w < 2147483648"
proof -
  have "(if n < 2147483648 then int n else int n - 4294967296) \<le> 0 \<longleftrightarrow> n = 0 \<or> 2147483648 \<le> n"
    if "n < 4294967296" for n
    using that by simp
  from this [OF unat_lt32] show ?thesis
    unfolding word_sle_eq sint32 [of w] signed_0 by auto
qed

lemma signed_neg: "w <s (0 :: cint) \<longleftrightarrow> 2147483648 \<le> unat w"
proof -
  have "(if n < 2147483648 then int n else int n - 4294967296) < 0 \<longleftrightarrow> 2147483648 \<le> n"
    if "n < 4294967296" for n
    using that by simp
  from this [OF unat_lt32] show ?thesis
    unfolding word_sless_alt sint32 [of w] signed_0 by blast
qed

lemma unat_numeral4 [simp]: "unat (4 :: uint) = 4"
  by simp

lemma and_not_mask_unat:
  fixes a :: uint
  shows "unat (a AND NOT (mask n)) = unat a - unat a mod 2 ^ n"
proof -
  have split: "a = (a AND NOT (mask n)) + take_bit n a"
  proof -
    have "(a AND NOT (mask n)) AND take_bit n a = 0"
      by (rule bit_word_eqI) (auto simp: bit_simps)
    then have "(a AND NOT (mask n)) + take_bit n a = (a AND NOT (mask n)) OR take_bit n a"
      by (rule disjunctive_add_eq_or)
    also have "\<dots> = a"
      by (rule bit_word_eqI) (auto simp: bit_simps)
    finally show ?thesis by simp
  qed
  have "(a AND NOT (mask n)) = a - take_bit n a"
    using split by (metis add_diff_cancel_right')
  moreover have low: "unat (take_bit n a) = unat a mod 2 ^ n"
    by (subst unsigned_take_bit_eq) (simp add: take_bit_eq_mod)
  moreover from low have "take_bit n a \<le> a"
    by (simp add: word_le_nat_alt)
  ultimately show ?thesis
    by (simp add: unat_sub)
qed

lemma page_mask: "(PGSIZE - 1 :: uint) = mask 12"
  by (simp add: mask_eq_exp_minus_1)

lemma unat_PGROUNDDOWN [page_simps]:
  "unat (PGROUNDDOWN a) = unat a - unat a mod 4096"
  unfolding PGROUNDDOWN_def page_mask by (simp add: and_not_mask_unat)

lemma unat_PGROUNDUP [page_simps]:
  assumes "unat a + 4095 < 2 ^ 32"
  shows "unat (PGROUNDUP a) = (unat a + 4095) div 4096 * 4096"
proof -
  have "unat (a + PGSIZE - 1) = unat a + 4095"
  proof -
    have "a + PGSIZE - 1 = a + 4095" by simp
    then show ?thesis using assms by (simp add: unat_plus_if')
  qed
  then show ?thesis
    unfolding PGROUNDUP_def page_mask
    by (simp add: and_not_mask_unat minus_mod_eq_div_mult)
qed

end
