(* ===== verification/Memory.thy ===== *)
theory Memory
  imports Prelude
begin

text \<open>
  Byte-addressed memory and the routines of \<^verbatim>\<open>string.c\<close> that work on it. A memory is a
  total function from 32-bit addresses to bytes; \<^verbatim>\<open>stosb\<close>/\<^verbatim>\<open>stosl\<close> are the string
  instructions of \<^verbatim>\<open>x86.h\<close>. The main results: \<^verbatim>\<open>memset\<close> fills exactly its range on
  both of its paths, and \<^verbatim>\<open>memmove\<close> copies correctly for overlapping ranges.
\<close>

type_synonym mem = "uint \<Rightarrow> byte"

subsection \<open>Words and byte ranges in memory\<close>

definition load32 :: "mem \<Rightarrow> uint \<Rightarrow> uint" where
  "load32 m a = ucast (m a) OR push_bit 8 (ucast (m (a + 1))) OR
     push_bit 16 (ucast (m (a + 2))) OR push_bit 24 (ucast (m (a + 3)))"

definition store32 :: "mem \<Rightarrow> uint \<Rightarrow> uint \<Rightarrow> mem" where
  "store32 m a v = m(a := ucast v, a + 1 := ucast (drop_bit 8 v),
     a + 2 := ucast (drop_bit 16 v), a + 3 := ucast (drop_bit 24 v))"

text \<open>The same encoding in a list of bytes, such as a disk block.\<close>

definition le32 :: "uint \<Rightarrow> byte list" where
  "le32 w = [ucast w, ucast (drop_bit 8 w), ucast (drop_bit 16 w), ucast (drop_bit 24 w)]"

definition get32 :: "byte list \<Rightarrow> nat \<Rightarrow> uint" where
  "get32 bs i = ucast (bs ! i) OR push_bit 8 (ucast (bs ! (i + 1))) OR push_bit 16 (ucast (bs ! (i + 2))) OR
     push_bit 24 (ucast (bs ! (i + 3)))"

definition splice :: "nat \<Rightarrow> 'a list \<Rightarrow> 'a list \<Rightarrow> 'a list" where
  "splice i new bs = take i bs @ new @ drop (i + length new) bs"

text \<open>The bytes at \<open>src\<close>, and memory with the bytes at \<open>dst\<close> replaced.\<close>

definition peek :: "mem \<Rightarrow> uint \<Rightarrow> nat \<Rightarrow> byte list" where
  "peek m src n = map (\<lambda>k. m (src + of_nat k)) [0..<n]"

definition poke :: "mem \<Rightarrow> uint \<Rightarrow> byte list \<Rightarrow> mem" where
  "poke m dst bs = (\<lambda>a. if unat (a - dst) < length bs then bs ! unat (a - dst) else m a)"

subsection \<open>string.c\<close>

fun stosb :: "nat \<Rightarrow> uint \<Rightarrow> byte \<Rightarrow> mem \<Rightarrow> mem" where
  "stosb 0 d c m = m"
| "stosb (Suc k) d c m = stosb k (d + 1) c (m(d := c))"

fun stosl :: "nat \<Rightarrow> uint \<Rightarrow> uint \<Rightarrow> mem \<Rightarrow> mem" where
  "stosl 0 d w m = m"
| "stosl (Suc k) d w m = stosl k (d + 4) w (store32 m d w)"

definition memset :: "uint \<Rightarrow> cint \<Rightarrow> uint \<Rightarrow> mem \<Rightarrow> mem" where
  "memset dst c n m =
     (if sint dst mod 4 = 0 \<and> n mod 4 = 0
      then let c = c AND 0xFF
           in stosl (unat (n div 4)) dst
                (push_bit 24 c OR push_bit 16 c OR push_bit 8 c OR c) m
      else stosb (unat n) dst (ucast c) m)"

fun memcmp_loop :: "nat \<Rightarrow> uint \<Rightarrow> uint \<Rightarrow> mem \<Rightarrow> int" where
  "memcmp_loop 0 s1 s2 m = 0"
| "memcmp_loop (Suc n) s1 s2 m =
     (if m s1 \<noteq> m s2 then uint (m s1) - uint (m s2)
      else memcmp_loop n (s1 + 1) (s2 + 1) m)"

definition memcmp :: "uint \<Rightarrow> uint \<Rightarrow> uint \<Rightarrow> mem \<Rightarrow> int" where
  "memcmp v1 v2 n m = memcmp_loop (unat n) v1 v2 m"

fun copy_down :: "nat \<Rightarrow> uint \<Rightarrow> uint \<Rightarrow> mem \<Rightarrow> mem" where
  "copy_down 0 d s m = m"
| "copy_down (Suc n) d s m = copy_down n (d - 1) (s - 1) (m(d - 1 := m (s - 1)))"

fun copy_up :: "nat \<Rightarrow> uint \<Rightarrow> uint \<Rightarrow> mem \<Rightarrow> mem" where
  "copy_up 0 d s m = m"
| "copy_up (Suc n) d s m = copy_up n (d + 1) (s + 1) (m(d := m s))"

definition memmove :: "uint \<Rightarrow> uint \<Rightarrow> uint \<Rightarrow> mem \<Rightarrow> mem" where
  "memmove dst src n m =
     (if src < dst \<and> src + n > dst
      then copy_down (unat n) (dst + n) (src + n) m
      else copy_up (unat n) dst src m)"

definition memcpy :: "uint \<Rightarrow> uint \<Rightarrow> uint \<Rightarrow> mem \<Rightarrow> mem" where
  "memcpy dst src n m = memmove dst src n m"

fun strncmp :: "nat \<Rightarrow> uint \<Rightarrow> uint \<Rightarrow> mem \<Rightarrow> int" where
  "strncmp 0 p q m = 0"
| "strncmp (Suc n) p q m =
     (if m p \<noteq> 0 \<and> m p = m q then strncmp n (p + 1) (q + 1) m
      else uint (m p) - uint (m q))"

fun strncpy :: "nat \<Rightarrow> uint \<Rightarrow> uint \<Rightarrow> mem \<Rightarrow> mem" where
  "strncpy 0 s t m = m"
| "strncpy (Suc n) s t m =
     (let m' = m(s := m t)
      in if m' s \<noteq> 0 then strncpy n (s + 1) (t + 1) m' else stosb n (s + 1) 0 m')"

fun safestrcpy_loop :: "nat \<Rightarrow> uint \<Rightarrow> uint \<Rightarrow> mem \<Rightarrow> mem" where
  "safestrcpy_loop 0 s t m = m(s := 0)"
| "safestrcpy_loop (Suc n) s t m =
     (let m' = m(s := m t)
      in if m' s \<noteq> 0 then safestrcpy_loop n (s + 1) (t + 1) m' else m'(s + 1 := 0))"

definition safestrcpy :: "uint \<Rightarrow> uint \<Rightarrow> cint \<Rightarrow> mem \<Rightarrow> mem" where
  "safestrcpy s t n m = (if sint n \<le> 0 then m else safestrcpy_loop (nat (sint n) - 1) s t m)"

partial_function (option) strlen_from :: "mem \<Rightarrow> uint \<Rightarrow> nat \<Rightarrow> nat option" where
  "strlen_from m s n = (if m (s + of_nat n) = 0 then Some n else strlen_from m s (Suc n))"

definition strlen :: "uint \<Rightarrow> mem \<Rightarrow> nat option" where
  "strlen s m = strlen_from m s 0"

subsection \<open>Byte ranges\<close>

lemma length_peek [simp]: "length (peek m a n) = n"
  by (simp add: peek_def)

lemma nth_peek [simp]: "k < n \<Longrightarrow> peek m a n ! k = m (a + of_nat k)"
  by (simp add: peek_def)

lemma peek_cong:
  "(\<And>k. k < n \<Longrightarrow> m (a + of_nat k) = m' (a + of_nat k)) \<Longrightarrow> peek m a n = peek m' a n"
  by (simp add: peek_def)

lemma peek_Suc: "peek m a (Suc n) = m a # peek m (a + 1) n"
proof (rule nth_equalityI)
  fix k assume "k < length (peek m a (Suc n))"
  then show "peek m a (Suc n) ! k = (m a # peek m (a + 1) n) ! k"
    by (cases k) (simp_all add: algebra_simps)
qed simp

lemma peek_snoc: "peek m a (Suc n) = peek m a n @ [m (a + of_nat n)]"
  by (simp add: peek_def)

lemma peek_0 [simp]: "peek m a 0 = []"
  by (simp add: peek_def)

lemma poke_Nil [simp]: "poke m a [] = m"
  by (simp add: poke_def)

lemma unat_pred:
  fixes x :: uint
  shows "unat (x - 1) = (if x = 0 then 2 ^ 32 - 1 else unat x - 1)"
  by (simp add: unat_minus_one)

lemma poke_Cons:
  assumes "length bs < 2 ^ 32"
  shows "poke m a (b # bs) = poke (m(a := b)) (a + 1) bs"
proof
  fix x
  have step: "x - (a + 1) = (x - a) - 1" by simp
  show "poke m a (b # bs) x = poke (m(a := b)) (a + 1) bs x"
  proof (cases "x = a")
    case True
    then show ?thesis using assms by (simp add: poke_def unat_pred)
  next
    case False
    then have "0 < unat (x - a)" by (simp add: unat_gt_0)
    then obtain j where "unat (x - a) = Suc j" by (cases "unat (x - a)") auto
    with False show ?thesis
      unfolding poke_def step by (simp add: unat_pred)
  qed
qed

lemma poke_append:
  assumes "length xs + length ys \<le> 2 ^ 32"
  shows "poke m a (xs @ ys) = poke (poke m a xs) (a + of_nat (length xs)) ys"
  using assms
proof (induction xs arbitrary: m a)
  case Nil
  then show ?case by simp
next
  case (Cons x xs)
  then show ?case
    by (simp add: poke_Cons algebra_simps)
qed

lemma poke_snoc:
  assumes "length bs < 2 ^ 32"
  shows "poke m a (bs @ [b]) = poke (m(a + of_nat (length bs) := b)) a bs"
proof
  fix x
  have inv: "x = a + of_nat (length bs) \<longleftrightarrow> unat (x - a) = length bs"
    using assms by (auto simp: unat_of_nat32 algebra_simps dest: arg_cong [where f = "of_nat :: nat \<Rightarrow> uint"])
  show "poke m a (bs @ [b]) x = poke (m(a + of_nat (length bs) := b)) a bs x"
    by (auto simp: poke_def nth_append inv)
qed

lemma poke_peek_same:
  assumes "n \<le> 2 ^ 32"
  shows "poke m a (peek m a n) = m"
  by (auto simp: poke_def)

lemma poke_outside: "length bs \<le> unat (x - a) \<Longrightarrow> poke m a bs x = m x"
  by (simp add: poke_def)

lemma peek_poke_same:
  assumes "length bs \<le> 2 ^ 32"
  shows "peek (poke m a bs) a (length bs) = bs"
  using assms by (auto intro!: nth_equalityI simp: poke_def unat_of_nat32)

subsection \<open>memset and memmove\<close>

lemma stosb_poke: "k \<le> 2 ^ 32 \<Longrightarrow> stosb k d c m = poke m d (replicate k c)"
  by (induction k arbitrary: d m) (simp_all add: poke_Cons)

lemma store32_poke:
  "store32 m a v = poke m a
     [ucast v, ucast (drop_bit 8 v), ucast (drop_bit 16 v), ucast (drop_bit 24 v)]"
  by (simp add: store32_def poke_Cons add.commute)

lemma pattern_bytes:
  fixes c :: uint
  defines "w \<equiv> push_bit 24 (c AND 0xFF) OR push_bit 16 (c AND 0xFF) OR push_bit 8 (c AND 0xFF) OR (c AND 0xFF)"
  shows "ucast w = (ucast c :: byte)" and "ucast (drop_bit 8 w) = (ucast c :: byte)"
    and "ucast (drop_bit 16 w) = (ucast c :: byte)" and "ucast (drop_bit 24 w) = (ucast c :: byte)"
proof -
  have ff: "(0xFF :: uint) = mask 8" by (simp add: mask_eq_exp_minus_1)
  show "ucast w = (ucast c :: byte)" and "ucast (drop_bit 8 w) = (ucast c :: byte)"
    and "ucast (drop_bit 16 w) = (ucast c :: byte)" and "ucast (drop_bit 24 w) = (ucast c :: byte)"
    unfolding w_def ff by (rule bit_word_eqI; auto simp: bit_simps)+
qed

lemma stosl_poke:
  assumes "4 * k \<le> 2 ^ 32"
    and "ucast w = b" "ucast (drop_bit 8 w) = b" "ucast (drop_bit 16 w) = b" "ucast (drop_bit 24 w) = b"
  shows "stosl k d w m = poke m d (replicate (4 * k) b)"
  using assms(1)
proof (induction k arbitrary: d m)
  case 0
  then show ?case by simp
next
  case (Suc k)
  have four: "replicate (4 * Suc k) b = [b, b, b, b] @ replicate (4 * k) b"
    by (simp add: numeral_eq_Suc)
  have "stosl (Suc k) d w m = poke (poke m d [b, b, b, b]) (d + 4) (replicate (4 * k) b)"
    using Suc assms(2-5) by (simp add: store32_poke)
  also have "\<dots> = poke m d (replicate (4 * Suc k) b)"
    unfolding four using Suc.prems by (subst poke_append) simp_all
  finally show ?case .
qed

lemma memset_poke: "memset d c n m = poke m d (replicate (unat n) (ucast c))"
proof (cases "sint d mod 4 = 0 \<and> n mod 4 = 0")
  case True
  have "unat n mod 4 = 0"
    using True unat_mod [of n 4] by simp
  then have "4 * unat (n div 4) = unat n"
    by (simp add: unat_div) presburger
  moreover have "unat n \<le> 2 ^ 32"
    using unat_lt32 [of n] by simp
  ultimately show ?thesis
    using True stosl_poke [OF _ pattern_bytes, of "unat (n div 4)" d c m]
    by (simp only: memset_def Let_def if_True simp_thms)
next
  case False
  have "unat n \<le> 2 ^ 32"
    using unat_lt32 [of n] by simp
  then show ?thesis
    unfolding memset_def if_not_P [OF False] by (simp add: stosb_poke)
qed

lemma copy_up_poke:
  assumes "n \<le> 2 ^ 32" and "d = s \<or> n \<le> unat (d - s)"
  shows "copy_up n d s m = poke m d (peek m s n)"
  using assms
proof (induction n arbitrary: d s m)
  case 0
  then show ?case by simp
next
  case (Suc n)
  have keep: "peek (m(d := m s)) (s + 1) n = peek m (s + 1) n"
  proof (rule peek_cong)
    fix k assume k: "k < n"
    have "d \<noteq> s + 1 + of_nat k" if "d \<noteq> s"
    proof
      assume "d = s + 1 + of_nat k"
      then have "unat (d - s) = unat (of_nat (Suc k) :: uint)" by simp
      also have "\<dots> = Suc k" using k Suc.prems(1) by (simp add: unat_of_nat32 del: of_nat_Suc)
      finally show False using k Suc.prems(2) that by simp
    qed
    then show "(m(d := m s)) (s + 1 + of_nat k) = m (s + 1 + of_nat k)"
      by (cases "d = s") auto
  qed
  have "copy_up (Suc n) d s m = poke (m(d := m s)) (d + 1) (peek (m(d := m s)) (s + 1) n)"
    using Suc by auto
  then show ?case
    using Suc.prems(1) by (simp add: keep peek_Suc poke_Cons)
qed

lemma copy_down_poke:
  assumes "n \<le> 2 ^ 32" and "d = s \<or> n \<le> unat (s - d)"
  shows "copy_down n (d + of_nat n) (s + of_nat n) m = poke m d (peek m s n)"
  using assms
proof (induction n arbitrary: m)
  case 0
  then show ?case by simp
next
  case (Suc n)
  let ?m = "m(d + of_nat n := m (s + of_nat n))"
  have keep: "peek ?m s n = peek m s n"
  proof (rule peek_cong)
    fix k assume k: "k < n"
    have "d + of_nat n \<noteq> s + of_nat k" if "d \<noteq> s"
    proof
      assume "d + of_nat n = s + of_nat k"
      then have "s - d = of_nat (n - k)"
        using k by (simp add: of_nat_diff algebra_simps)
      then have "unat (s - d) = n - k"
        using Suc.prems(1) by (simp add: unat_of_nat32)
      then show False using Suc.prems(2) that by simp
    qed
    then show "?m (s + of_nat k) = m (s + of_nat k)"
      by (cases "d = s") auto
  qed
  have "copy_down (Suc n) (d + of_nat (Suc n)) (s + of_nat (Suc n)) m
      = copy_down n (d + of_nat n) (s + of_nat n) ?m"
    by (simp add: algebra_simps)
  also have "\<dots> = poke ?m d (peek ?m s n)"
    using Suc by auto
  also have "\<dots> = poke m d (peek m s (Suc n))"
    using Suc.prems(1) by (simp add: keep peek_snoc poke_snoc)
  finally show ?case .
qed

lemma memmove_poke:
  assumes "unat src + unat n < 2 ^ 32" and "unat dst + unat n \<le> 2 ^ 32"
  shows "memmove dst src n m = poke m dst (peek m src (unat n))"
proof (cases "src < dst \<and> src + n > dst")
  case True
  then have "unat src < unat dst" and "unat dst < unat src + unat n"
    using assms(1) by (simp_all add: word_less_nat_alt unat_plus_if')
  then have "unat n \<le> unat (src - dst)"
    using assms by (simp add: unat_sub_if')
  then show ?thesis
    using True copy_down_poke [of "unat n" dst src m] unat_lt32 [of n]
    by (simp add: memmove_def)
next
  case False
  then have "dst = src \<or> unat dst < unat src \<or> unat src + unat n \<le> unat dst"
    using assms(1) by (auto simp: word_less_nat_alt unat_plus_if' not_less word_unat_eq_iff)
  then have "dst = src \<or> unat n \<le> unat (dst - src)"
    using assms by (auto simp: unat_sub_if')
  then show ?thesis
    unfolding memmove_def if_not_P [OF False]
    using copy_up_poke [of "unat n" dst src m] unat_lt32 [of n] by simp
qed

subsection \<open>Aligned words\<close>

lemma load32_cong:
  assumes "\<And>k. k < 4 \<Longrightarrow> m (a + of_nat k) = m' (a + of_nat k)"
  shows "load32 m a = load32 m' a"
  using assms [of 0] assms [of 1] assms [of 2] assms [of 3] by (simp add: load32_def)

lemma word_of_bytes:
  fixes v :: uint
  shows "ucast (ucast v :: byte) OR push_bit 8 (ucast (ucast (drop_bit 8 v) :: byte)) OR
     push_bit 16 (ucast (ucast (drop_bit 16 v) :: byte)) OR push_bit 24 (ucast (ucast (drop_bit 24 v) :: byte)) = v"
proof (rule bit_word_eqI)
  fix n assume "n < LENGTH(32)"
  then consider "n < 8" | "8 \<le> n" "n < 16" | "16 \<le> n" "n < 24" | "24 \<le> n" "n < 32"
    by fastforce
  then show "bit (ucast (ucast v :: byte) OR push_bit 8 (ucast (ucast (drop_bit 8 v) :: byte)) OR
      push_bit 16 (ucast (ucast (drop_bit 16 v) :: byte)) OR
      push_bit 24 (ucast (ucast (drop_bit 24 v) :: byte)) :: uint) n = bit v n"
    by cases (auto simp: bit_simps)
qed

lemma load32_store32_same [simp]: "load32 (store32 m a v) a = v"
proof -
  have "a + 1 \<noteq> a" "a + 2 \<noteq> a" "a + 3 \<noteq> a" "a + 1 \<noteq> a + 2" "a + 1 \<noteq> a + 3" "a + 2 \<noteq> a + 3"
    by simp_all
  then show ?thesis by (simp add: load32_def store32_def word_of_bytes)
qed

lemma unat_aligned_add:
  fixes a :: uint
  assumes "unat a mod 4 = 0" and "k < 4"
  shows "unat (a + of_nat k) = unat a + k"
proof -
  have "unat a + k < 4 * 1073741824"
    using assms unat_lt32 [of a] by (intro aligned_add_less) simp_all
  then show ?thesis using assms(2) by (simp add: unat_plus_if' unat_of_nat32)
qed

lemma store32_outside:
  assumes "4 \<le> unat (x - a)"
  shows "store32 m a v x = m x"
  using assms by (simp add: store32_poke poke_outside)

lemma load32_store32_other:
  assumes "unat a mod 4 = 0" and "unat b mod 4 = 0" and "a \<noteq> b"
  shows "load32 (store32 m a v) b = load32 m b"
proof (rule load32_cong)
  fix k :: nat assume k: "k < 4"
  have "b + of_nat k \<noteq> a + of_nat j" if j: "j < 4" for j
  proof
    assume "b + of_nat k = a + of_nat j"
    then have "unat b + k = unat a + j"
      using unat_aligned_add [OF assms(2) k] unat_aligned_add [OF assms(1) j] by simp
    then have "unat b = unat a"
      using aligned_add_unique [OF assms(2,1) k j] by simp
    then show False using assms(3) by (simp add: word_unat_eq_iff)
  qed
  from this [of 0] this [of 1] this [of 2] this [of 3]
  show "store32 m a v (b + of_nat k) = m (b + of_nat k)"
    by (simp add: store32_def)
qed

subsection \<open>Pages\<close>

text \<open>\<open>m'\<close> agrees with \<open>m\<close> on every address outside the page that starts at \<open>p\<close>.\<close>

definition agree_off :: "uint \<Rightarrow> mem \<Rightarrow> mem \<Rightarrow> bool" where
  "agree_off p m m' \<longleftrightarrow> (\<forall>a. 4096 \<le> unat (a - p) \<longrightarrow> m' a = m a)"

lemma agree_off_refl [simp]: "agree_off p m m"
  by (simp add: agree_off_def)

lemma agree_off_trans: "agree_off p m m' \<Longrightarrow> agree_off p m' m'' \<Longrightarrow> agree_off p m m''"
  by (simp add: agree_off_def)

lemma agree_off_poke: "length bs \<le> 4096 \<Longrightarrow> agree_off p m (poke m p bs)"
  by (simp add: agree_off_def poke_outside)

lemma agree_off_memset: "agree_off p m (memset p c PGSIZE m)"
  by (simp add: memset_poke agree_off_poke)

lemma page_offset:
  fixes a p :: uint
  assumes "unat p mod 4096 = 0" and "unat (a - p) < 4096"
  shows "unat a = unat p + unat (a - p)"
proof -
  have "unat p + unat (a - p) < 4096 * 1048576"
    using assms unat_lt32 [of p] by (intro aligned_add_less) simp_all
  then have "unat (p + (a - p)) = unat p + unat (a - p)"
    using unat_plus_if' [of p "a - p"] by simp
  then show ?thesis by simp
qed

lemma pages_disjoint:
  fixes a p q :: uint
  assumes "unat p mod 4096 = 0" "unat q mod 4096 = 0" "p \<noteq> q" "unat (a - p) < 4096"
  shows "4096 \<le> unat (a - q)"
proof (rule ccontr)
  assume "\<not> 4096 \<le> unat (a - q)"
  then have "unat (a - q) < 4096" by simp
  with assms have "unat p + unat (a - p) = unat q + unat (a - q)"
    using page_offset [of p a] page_offset [of q a] by simp
  then have "unat p = unat q"
    using aligned_add_unique [OF assms(1,2,4) \<open>unat (a - q) < 4096\<close>] by simp
  with assms(3) show False by (simp add: word_unat_eq_iff)
qed

lemma unat_page_add:
  fixes p off :: uint
  assumes "unat p mod 4096 = 0" and "unat off < 4096"
  shows "unat (p + off) = unat p + unat off"
  using page_offset [of p "p + off"] assms by simp

lemma load32_agree_off:
  assumes "agree_off q m m'" "unat p mod 4096 = 0" "unat q mod 4096 = 0" "p \<noteq> q"
    and "unat off < 4096" "unat off mod 4 = 0"
  shows "load32 m' (p + off) = load32 m (p + off)"
proof (rule load32_cong)
  fix k :: nat assume k: "k < 4"
  have "unat off + k < 4 * 1024" using assms(5,6) k by (intro aligned_add_less) simp_all
  then have "unat (p + off + of_nat k - p) < 4096"
    using k by (simp add: unat_plus_if' unat_of_nat32)
  then have "4096 \<le> unat (p + off + of_nat k - q)"
    by (rule pages_disjoint [OF assms(2,3,4)])
  then show "m' (p + off + of_nat k) = m (p + off + of_nat k)"
    using assms(1) by (simp add: agree_off_def)
qed

lemma store32_agree_off:
  assumes "unat off < 4096" "unat off mod 4 = 0"
  shows "agree_off p m (store32 m (p + off) v)"
  unfolding agree_off_def
proof (intro allI impI)
  fix a assume far: "4096 \<le> unat (a - p)"
  have "unat (a - (p + off)) = unat (a - p) - unat off"
    using far assms(1) unat_sub_if' [of "a - p" off] by (simp add: algebra_simps)
  moreover have "unat off + 3 < 4 * 1024" using assms by (intro aligned_add_less) simp_all
  ultimately show "store32 m (p + off) v a = m a"
    using far by (intro store32_outside) simp
qed

lemma load32_memset_zero:
  assumes "unat off < 4096" "unat off mod 4 = 0"
  shows "load32 (memset p 0 PGSIZE m) (p + off) = 0"
proof -
  have "memset p 0 PGSIZE m (p + off + of_nat k) = 0" if "k < 4" for k
  proof -
    have "unat off + k < 4 * 1024" using assms that by (intro aligned_add_less) simp_all
    then have "unat (p + off + of_nat k - p) < 4096"
      using that by (simp add: unat_plus_if' unat_of_nat32)
    then show ?thesis by (simp add: memset_poke poke_def)
  qed
  from this [of 0] this [of 1] this [of 2] this [of 3] show ?thesis
    by (simp add: load32_def)
qed

subsection \<open>Properties\<close>

text \<open>C8: \<^verbatim>\<open>memset(dst, c, n)\<close> writes the low byte of \<open>c\<close> to exactly the \<open>n\<close> bytes
  from \<open>dst\<close> (modulo the 32-bit address space) and nothing else, on the word-at-a-time path
  and on the byte path alike.\<close>

theorem memset_fills:
  "memset dst c n m = (\<lambda>a. if unat (a - dst) < unat n then ucast c else m a)"
  by (rule ext) (simp add: memset_poke poke_def)

text \<open>C9: \<^verbatim>\<open>memmove(dst, src, n)\<close> leaves the old contents of the source range in the
  destination range and changes no other byte, also when the ranges overlap in either
  direction, as long as neither range wraps around the end of the address space.\<close>

theorem memmove_copies:
  assumes "unat src + unat n < 2 ^ 32" and "unat dst + unat n \<le> 2 ^ 32"
  shows "memmove dst src n m =
    (\<lambda>a. if unat (a - dst) < unat n then m (src + (a - dst)) else m a)"
proof
  fix a
  show "memmove dst src n m a = (if unat (a - dst) < unat n then m (src + (a - dst)) else m a)"
    unfolding memmove_poke [OF assms] by (simp add: poke_def)
qed

theorem memmove_copies_witness:
  "memmove 2 0 4 (\<lambda>a. ucast a) = (\<lambda>a. if unat (a - 2 :: uint) < unat (4 :: uint) then ucast (0 + (a - 2)) else (ucast a :: byte))"
  by (rule memmove_copies [of 0 4 2 "\<lambda>a. ucast a"]) simp_all

subsection \<open>Little-endian integers in a block of bytes\<close>

lemma length_le32 [simp]: "length (le32 w) = 4"
  by (simp add: le32_def)

lemma length_splice [simp]: "i + length new \<le> length bs \<Longrightarrow> length (splice i new bs) = length bs"
  by (simp add: splice_def)

lemma nth_splice:
  "i + length new \<le> length bs \<Longrightarrow> j < length bs \<Longrightarrow>
     splice i new bs ! j = (if i \<le> j \<and> j < i + length new then new ! (j - i) else bs ! j)"
  by (auto simp: splice_def nth_append)

lemma get32_le32: "i + 4 \<le> length bs \<Longrightarrow> get32 (splice i (le32 w) bs) i = w"
  using word_of_bytes [of w] by (simp add: get32_def nth_splice) (simp add: le32_def numeral_eq_Suc)

lemma get32_other:
  "i + length new \<le> length bs \<Longrightarrow> j + 4 \<le> length bs \<Longrightarrow> j + 4 \<le> i \<or> i + length new \<le> j \<Longrightarrow>
     get32 (splice i new bs) j = get32 bs j"
  by (auto simp: get32_def nth_splice)

end
