(* ===== verification/Bio.thy ===== *)
theory Bio
  imports Memory
begin

text \<open>
  Sleep locks (\<^verbatim>\<open>sleeplock.c\<close>), the two disk drivers (\<^verbatim>\<open>ide.c\<close>, \<^verbatim>\<open>memide.c\<close>) and the buffer
  cache (\<^verbatim>\<open>bio.c\<close>).

  The bodies run as one thread with the spin locks taken: a point at which the code would sleep
  waiting for another thread is \<open>stuck\<close>; the wait for the disk itself is modelled by running
  the interrupt handler, which is what ends that wait. Buffers are numbered by their position in
  \<^verbatim>\<open>bcache.buf\<close>; number \<open>NBUF\<close> is \<^verbatim>\<open>bcache.head\<close>. The two bits of \<^verbatim>\<open>flags\<close> are the fields
  \<open>bvalid\<close> and \<open>bdirty\<close>, the queue linked by \<^verbatim>\<open>qnext\<close> is the list \<open>idequeue\<close>.
  \<open>disk\<close> gives the 512 bytes of each sector of the two drives, \<open>derr\<close> the sectors on which the
  drive reports an error, and \<open>dwrites\<close> records the sectors written, in the order in which the
  drive receives them.
\<close>

subsection \<open>Sleep locks\<close>

record sleeplock =
  locked :: bool
  lpid :: cint

definition initsleeplock :: sleeplock where
  "initsleeplock = \<lparr>locked = False, lpid = 0\<rparr>"

definition acquiresleep :: "cint \<Rightarrow> sleeplock \<Rightarrow> sleeplock res" where
  "acquiresleep mypid lk = (if locked lk then stuck ''acquiresleep: sleep'' else Inr (lk\<lparr>locked := True, lpid := mypid\<rparr>))"

definition releasesleep :: "sleeplock \<Rightarrow> sleeplock" where
  "releasesleep lk = lk\<lparr>locked := False, lpid := 0\<rparr>"

definition holdingsleep :: "cint \<Rightarrow> sleeplock \<Rightarrow> bool" where
  "holdingsleep mypid lk \<longleftrightarrow> locked lk \<and> lpid lk = mypid"

subsection \<open>Buffers and the disk drivers\<close>

abbreviation (input) BSIZE :: nat where "BSIZE \<equiv> 512"
abbreviation (input) NBUF :: nat where "NBUF \<equiv> 30"
abbreviation (input) ROOTDEV :: uint where "ROOTDEV \<equiv> 1"
abbreviation (input) FSSIZE :: uint where "FSSIZE \<equiv> 1000"

record buf =
  bvalid :: bool
  bdirty :: bool
  bdev :: uint
  blockno :: uint
  block :: sleeplock
  refcnt :: uint
  prev :: nat
  "next" :: nat
  data :: "byte list"

record bcache =
  mypid :: cint
  disk :: "uint \<Rightarrow> uint \<Rightarrow> byte list"
  derr :: "uint \<Rightarrow> uint \<Rightarrow> bool"
  dwrites :: "(uint \<times> uint \<times> byte list) list"
  havedisk1 :: bool
  idequeue :: "nat list"
  bufs :: "nat \<Rightarrow> buf"

definition buf_update :: "nat \<Rightarrow> (buf \<Rightarrow> buf) \<Rightarrow> 'a bcache_scheme \<Rightarrow> 'a bcache_scheme" where
  "buf_update b f s = s\<lparr>bufs := (bufs s)(b := f (bufs s b))\<rparr>"

text \<open>The drive and sector a request addresses: bit 4 of port 0x1f6 selects the drive, 28 bits the sector.\<close>

definition ide_drive :: "buf \<Rightarrow> uint" where
  "ide_drive b = bdev b AND 1"

definition ide_sector :: "buf \<Rightarrow> uint" where
  "ide_sector b = blockno b AND 0x0fffffff"

definition disk_write :: "uint \<Rightarrow> uint \<Rightarrow> byte list \<Rightarrow> 'a bcache_scheme \<Rightarrow> 'a bcache_scheme" where
  "disk_write d n bs s = s\<lparr>disk := (disk s)(d := (disk s d)(n := bs)), dwrites := dwrites s @ [(d, n, bs)]\<rparr>"

definition idestart :: "nat \<Rightarrow> 'a bcache_scheme \<Rightarrow> 'a bcache_scheme res" where
  "idestart b s =
     (let bf = bufs s b
      in if blockno bf \<ge> FSSIZE then panic ''incorrect blockno''
         else if bdirty bf then Inr (disk_write (ide_drive bf) (ide_sector bf) (data bf) s)
         else Inr s)"

definition ideintr :: "'a bcache_scheme \<Rightarrow> 'a bcache_scheme res" where
  "ideintr s =
     (case idequeue s of
        [] \<Rightarrow> Inr s
      | b # q \<Rightarrow>
         (let bf = bufs s b;
              bf1 = (if \<not> bdirty bf \<and> \<not> derr s (ide_drive bf) (ide_sector bf)
                     then bf\<lparr>data := disk s (ide_drive bf) (ide_sector bf)\<rparr> else bf);
              s1 = s\<lparr>idequeue := q, bufs := (bufs s)(b := bf1\<lparr>bvalid := True, bdirty := False\<rparr>)\<rparr>
          in case q of [] \<Rightarrow> Inr s1 | c # _ \<Rightarrow> idestart c s1))"

text \<open>The wait at the end of \<^verbatim>\<open>iderw\<close>: each time the thread sleeps, the drive finishes its request.\<close>

fun iderw_wait :: "nat \<Rightarrow> nat \<Rightarrow> 'a bcache_scheme \<Rightarrow> 'a bcache_scheme res" where
  "iderw_wait 0 b s = stuck ''iderw: sleep''"
| "iderw_wait (Suc fuel) b s =
     (if bvalid (bufs s b) \<and> \<not> bdirty (bufs s b) then Inr s
      else andThen (ideintr s) (iderw_wait fuel b))"

definition iderw :: "nat \<Rightarrow> 'a bcache_scheme \<Rightarrow> 'a bcache_scheme res" where
  "iderw b s =
     (if \<not> holdingsleep (mypid s) (block (bufs s b)) then panic ''iderw: buf not locked''
      else if bvalid (bufs s b) \<and> \<not> bdirty (bufs s b) then panic ''iderw: nothing to do''
      else if bdev (bufs s b) \<noteq> 0 \<and> \<not> havedisk1 s then panic ''iderw: ide disk 1 not present''
      else let s1 = s\<lparr>idequeue := idequeue s @ [b]\<rparr>
           in andThen (if hd (idequeue s1) = b then idestart b s1 else Inr s1)
                (\<lambda>s2. iderw_wait (Suc (length (idequeue s2))) b s2))"

text \<open>The memory disk keeps the file system image in the kernel: drive 1, \<open>disksize\<close> blocks.\<close>

definition mem_iderw :: "uint \<Rightarrow> nat \<Rightarrow> 'a bcache_scheme \<Rightarrow> 'a bcache_scheme res" where
  "mem_iderw disksize b s =
     (let bf = bufs s b
      in if \<not> holdingsleep (mypid s) (block bf) then panic ''iderw: buf not locked''
         else if bvalid bf \<and> \<not> bdirty bf then panic ''iderw: nothing to do''
         else if bdev bf \<noteq> 1 then panic ''iderw: request not for disk 1''
         else if blockno bf \<ge> disksize then panic ''iderw: block out of range''
         else if bdirty bf
         then Inr (buf_update b (\<lambda>bf. bf\<lparr>bdirty := False, bvalid := True\<rparr>) (disk_write 1 (blockno bf) (data bf) s))
         else Inr (buf_update b (\<lambda>bf. bf\<lparr>data := disk s 1 (blockno bf), bvalid := True\<rparr>) s))"

subsection \<open>The buffer cache\<close>

definition set_next :: "nat \<Rightarrow> nat \<Rightarrow> (nat \<Rightarrow> buf) \<Rightarrow> nat \<Rightarrow> buf" where
  "set_next a b t = t(a := (t a)\<lparr>next := b\<rparr>)"

definition set_prev :: "nat \<Rightarrow> nat \<Rightarrow> (nat \<Rightarrow> buf) \<Rightarrow> nat \<Rightarrow> buf" where
  "set_prev a b t = t(a := (t a)\<lparr>prev := b\<rparr>)"

text \<open>Linking a buffer in behind the head, as both \<^verbatim>\<open>binit\<close> and \<^verbatim>\<open>brelse\<close> do.\<close>

definition link_front :: "nat \<Rightarrow> (nat \<Rightarrow> buf) \<Rightarrow> nat \<Rightarrow> buf" where
  "link_front b t0 =
     (let t1 = set_next b (next (t0 NBUF)) t0;
          t2 = set_prev b NBUF t1;
          t3 = set_prev (next (t2 NBUF)) b t2
      in set_next NBUF b t3)"

fun binit_loop :: "nat \<Rightarrow> nat \<Rightarrow> (nat \<Rightarrow> buf) \<Rightarrow> nat \<Rightarrow> buf" where
  "binit_loop 0 b t = t"
| "binit_loop (Suc n) b t = binit_loop n (b + 1) (link_front b (t(b := (t b)\<lparr>block := initsleeplock\<rparr>)))"

definition binit :: "'a bcache_scheme \<Rightarrow> 'a bcache_scheme" where
  "binit s = s\<lparr>bufs := binit_loop NBUF 0 (set_next NBUF NBUF (set_prev NBUF NBUF (bufs s)))\<rparr>"

text \<open>The two loops of \<^verbatim>\<open>bget\<close>; they follow at most \<open>NBUF\<close> links before they meet the head.\<close>

fun bget_cached :: "nat \<Rightarrow> (nat \<Rightarrow> buf) \<Rightarrow> nat \<Rightarrow> uint \<Rightarrow> uint \<Rightarrow> nat option" where
  "bget_cached 0 t b dev bno = None"
| "bget_cached (Suc fuel) t b dev bno =
     (if b = NBUF then None
      else if bdev (t b) = dev \<and> blockno (t b) = bno then Some b
      else bget_cached fuel t (next (t b)) dev bno)"

fun bget_unused :: "nat \<Rightarrow> (nat \<Rightarrow> buf) \<Rightarrow> nat \<Rightarrow> nat option" where
  "bget_unused 0 t b = None"
| "bget_unused (Suc fuel) t b =
     (if b = NBUF then None
      else if refcnt (t b) = 0 \<and> \<not> bdirty (t b) then Some b
      else bget_unused fuel t (prev (t b)))"

definition block_acquire :: "nat \<Rightarrow> 'a bcache_scheme \<Rightarrow> (nat \<times> 'a bcache_scheme) res" where
  "block_acquire b s =
     andThen (acquiresleep (mypid s) (block (bufs s b)))
       (\<lambda>lk. Inr (b, buf_update b (\<lambda>bf. bf\<lparr>block := lk\<rparr>) s))"

definition bget :: "uint \<Rightarrow> uint \<Rightarrow> 'a bcache_scheme \<Rightarrow> (nat \<times> 'a bcache_scheme) res" where
  "bget dev bno s =
     (case bget_cached (NBUF + 1) (bufs s) (next (bufs s NBUF)) dev bno of
        Some b \<Rightarrow> block_acquire b (buf_update b (\<lambda>bf. bf\<lparr>refcnt := refcnt bf + 1\<rparr>) s)
      | None \<Rightarrow>
         (case bget_unused (NBUF + 1) (bufs s) (prev (bufs s NBUF)) of
            Some b \<Rightarrow> block_acquire b (buf_update b (\<lambda>bf. bf\<lparr>bdev := dev, blockno := bno, bvalid := False,
                        bdirty := False, refcnt := 1\<rparr>) s)
          | None \<Rightarrow> panic ''bget: no buffers''))"

definition bread :: "uint \<Rightarrow> uint \<Rightarrow> 'a bcache_scheme \<Rightarrow> (nat \<times> 'a bcache_scheme) res" where
  "bread dev bno s =
     andThen (bget dev bno s) (\<lambda>(b, s1).
       if \<not> bvalid (bufs s1 b) then andThen (iderw b s1) (\<lambda>s2. Inr (b, s2)) else Inr (b, s1))"

definition bwrite :: "nat \<Rightarrow> 'a bcache_scheme \<Rightarrow> 'a bcache_scheme res" where
  "bwrite b s =
     (if \<not> holdingsleep (mypid s) (block (bufs s b)) then panic ''bwrite''
      else iderw b (buf_update b (\<lambda>bf. bf\<lparr>bdirty := True\<rparr>) s))"

definition brelse :: "nat \<Rightarrow> 'a bcache_scheme \<Rightarrow> 'a bcache_scheme res" where
  "brelse b s =
     (if \<not> holdingsleep (mypid s) (block (bufs s b)) then panic ''brelse''
      else let s1 = buf_update b (\<lambda>bf. bf\<lparr>block := releasesleep (block bf), refcnt := refcnt bf - 1\<rparr>) s
           in if refcnt (bufs s1 b) = 0
              then let t = bufs s1;
                       t1 = set_prev (next (t b)) (prev (t b)) t;
                       t2 = set_next (prev (t1 b)) (next (t1 b)) t1
                   in Inr (s1\<lparr>bufs := link_front b t2\<rparr>)
              else Inr s1)"

end
