(* ===== verification/Bio_Spec.thy ===== *)
theory Bio_Spec
  imports Bio
begin

text \<open>
  What the buffer cache promises. \<open>ring\<close> abstracts the doubly linked list through
  \<^verbatim>\<open>prev\<close>/\<^verbatim>\<open>next\<close> to the list of buffers in most-recently-used order; \<open>view\<close> is the
  contents of the disk as the kernel sees it through the cache; \<open>quiet s H\<close> is the invariant of
  the cache while exactly the buffers \<open>H\<close> are held.
\<close>

subsection \<open>The ring of buffers\<close>

fun links :: "('a \<Rightarrow> 'a) \<Rightarrow> 'a list \<Rightarrow> bool" where
  "links f (a # b # xs) \<longleftrightarrow> f a = b \<and> links f (b # xs)"
| "links f _ \<longleftrightarrow> True"

lemma links_append: "links f (xs @ a # ys) \<longleftrightarrow> links f (xs @ [a]) \<and> links f (a # ys)"
  by (induction f xs rule: links.induct) auto

lemma links_cong: "(\<And>x. x \<in> set (butlast xs) \<Longrightarrow> f x = g x) \<Longrightarrow> links f xs = links g xs"
  by (induction f xs rule: links.induct) auto

lemma links_cong_snoc: "(\<And>x. x \<in> set xs \<Longrightarrow> f x = g x) \<Longrightarrow> links f (xs @ [z]) = links g (xs @ [z])"
  by (rule links_cong) simp

lemma links_splice:
  assumes "links f (as @ z # b # w # bs)" and "z \<notin> set as" and "z \<notin> set (butlast (w # bs))"
  shows "links (f(z := w)) (as @ z # w # bs)"
proof -
  have "links f (as @ [z])" "links f (w # bs)"
    using assms(1) links_append [of f as z "b # w # bs"] by simp_all
  moreover have "links (f(z := w)) (as @ [z]) = links f (as @ [z])"
    using assms(2) by (intro links_cong_snoc) auto
  moreover have "links (f(z := w)) (w # bs) = links f (w # bs)"
    using assms(3) by (intro links_cong) auto
  ultimately show ?thesis using links_append [of "f(z := w)" as z "w # bs"] by simp
qed

definition ring :: "(nat \<Rightarrow> buf) \<Rightarrow> nat list \<Rightarrow> bool" where
  "ring t xs \<longleftrightarrow> distinct xs \<and> NBUF \<notin> set xs \<and>
     links (\<lambda>i. next (t i)) (NBUF # xs @ [NBUF]) \<and> links (\<lambda>i. prev (t i)) (NBUF # rev xs @ [NBUF])"

lemma set_next_prev_fields [simp]:
  "next (set_next a b t i) = (if i = a then b else next (t i))" "prev (set_next a b t i) = prev (t i)"
  "prev (set_prev a b t i) = (if i = a then b else prev (t i))" "next (set_prev a b t i) = next (t i)"
  by (simp_all add: set_next_def set_prev_def)

lemma ring_cong:
  assumes "\<And>i. next (t i) = next (t' i)" "\<And>i. prev (t i) = prev (t' i)"
  shows "ring t xs = ring t' xs"
  using assms by (simp add: ring_def)

lemma ring_ends:
  assumes "ring t xs"
  shows "next (t NBUF) = hd (xs @ [NBUF])" and "prev (t NBUF) = last (NBUF # xs)"
proof -
  show "next (t NBUF) = hd (xs @ [NBUF])" using assms by (cases xs) (auto simp: ring_def)
  show "prev (t NBUF) = last (NBUF # xs)" using assms by (cases xs rule: rev_cases) (auto simp: ring_def)
qed

lemma ring_neighbours:
  assumes "ring t (as @ b # bs)"
  shows "next (t b) = hd (bs @ [NBUF])" and "prev (t b) = last (NBUF # as)"
proof -
  from assms have "links (\<lambda>i. next (t i)) ((NBUF # as) @ b # bs @ [NBUF])"
    "links (\<lambda>i. prev (t i)) ((NBUF # rev bs) @ b # rev as @ [NBUF])" by (simp_all add: ring_def)
  then have *: "links (\<lambda>i. next (t i)) (b # bs @ [NBUF])" "links (\<lambda>i. prev (t i)) (b # rev as @ [NBUF])"
    using links_append [of _ "NBUF # as" b "bs @ [NBUF]"] links_append [of _ "NBUF # rev bs" b "rev as @ [NBUF]"]
    by blast+
  show "next (t b) = hd (bs @ [NBUF])" using *(1) by (cases bs) auto
  show "prev (t b) = last (NBUF # as)" using *(2) by (cases as rule: rev_cases) auto
qed

lemma ring_link_front:
  assumes r: "ring t xs" and b: "b \<notin> set xs" "b \<noteq> NBUF"
  shows "ring (link_front b t) (b # xs)"
proof (cases xs)
  case Nil
  with r b show ?thesis
    by (auto simp: ring_def link_front_def Let_def)
next
  case (Cons x ys)
  let ?t = "link_front b t"
  have x: "next (t NBUF) = x" using ring_ends(1) [OF r] Cons by simp
  have ne: "x \<noteq> NBUF" "x \<noteq> b" "x \<notin> set ys" using r b Cons by (auto simp: ring_def)
  have n: "next (?t i) = (if i = NBUF then b else if i = b then x else next (t i))" for i
    using b ne by (simp add: link_front_def Let_def x)
  have p: "prev (?t i) = (if i = x then b else if i = b then NBUF else prev (t i))" for i
    using b ne by (simp add: link_front_def Let_def x)
  have "links (\<lambda>i. next (?t i)) (xs @ [NBUF]) = links (\<lambda>i. next (t i)) (xs @ [NBUF])"
    using r b by (intro links_cong_snoc) (auto simp: n ring_def)
  moreover have "links (\<lambda>i. prev (?t i)) ((NBUF # rev ys) @ [x]) = links (\<lambda>i. prev (t i)) ((NBUF # rev ys) @ [x])"
    using r b ne Cons by (intro links_cong_snoc) (auto simp: p ring_def)
  ultimately show ?thesis
    using r b Cons links_append [of "\<lambda>i. prev (?t i)" "NBUF # rev ys" x "[b, NBUF]"]
      links_append [of "\<lambda>i. prev (t i)" "NBUF # rev ys" x "[NBUF]"]
    by (simp add: ring_def n p)
qed

text \<open>Taking a buffer out, the first two assignments of \<^verbatim>\<open>brelse\<close>.\<close>

lemma ring_unlink:
  assumes r: "ring t (as @ b # bs)"
  shows "ring (set_next (prev (t b)) (next (t b)) (set_prev (next (t b)) (prev (t b)) t)) (as @ bs)"
    (is "ring ?t _")
proof -
  let ?n = "\<lambda>i. next (t i)" and ?p = "\<lambda>i. prev (t i)"
  note nb = ring_neighbours [OF r]
  have d: "distinct (as @ b # bs)" "NBUF \<notin> set as" "NBUF \<notin> set bs" "b \<noteq> NBUF" using r by (auto simp: ring_def)
  have fwd: "links ?n ((NBUF # as) @ b # bs @ [NBUF])" and bwd: "links ?p ((NBUF # rev bs) @ b # rev as @ [NBUF])"
    using r by (simp_all add: ring_def)
  obtain as' z where z: "NBUF # as = as' @ [z]" by (metis list.distinct(1) rev_exhaust)
  obtain bs' w where w: "bs @ [NBUF] = w # bs'" by (cases bs) auto
  have zw: "last (NBUF # as) = z" "hd (bs @ [NBUF]) = w" unfolding z w by simp_all
  have n: "(\<lambda>i. next (?t i)) = ?n(z := w)" and p: "(\<lambda>i. prev (?t i)) = ?p(w := z)"
    by (simp_all only: set_next_prev_fields nb zw fun_upd_def)
  have rz: "rev as @ [NBUF] = z # rev as'" using arg_cong [OF z, of rev] by simp
  have rw: "NBUF # rev bs = rev bs' @ [w]" using arg_cong [OF w, of rev] by simp
  have "links (?n(z := w)) (as' @ z # w # bs')"
  proof (rule links_splice)
    show "links ?n (as' @ z # b # w # bs')" using fwd unfolding z w by simp
    show "z \<notin> set as'" using z d by (cases as') auto
    show "z \<notin> set (butlast (w # bs'))" unfolding w [symmetric] zw(1) [symmetric] using d by (cases "as = []") (auto simp: disjoint_iff)
  qed
  moreover have "links (?p(w := z)) (rev bs' @ w # z # rev as')"
  proof (rule links_splice)
    show "links ?p (rev bs' @ w # b # z # rev as')" using bwd unfolding rz rw by simp
    show "w \<notin> set (rev bs')" using w d by (cases bs) auto
    show "w \<notin> set (butlast (z # rev as'))" unfolding rz [symmetric] zw(2) [symmetric] using d by (cases bs) auto
  qed
  moreover have "NBUF # (as @ bs) @ [NBUF] = as' @ z # w # bs'"
    using z w by (metis append_Cons append_assoc append_Nil)
  moreover have "NBUF # rev (as @ bs) @ [NBUF] = rev bs' @ w # z # rev as'"
    using rz rw by (metis append_Cons append_assoc append_Nil rev_append)
  ultimately show ?thesis using d by (simp only: ring_def n p) auto
qed

text \<open>The two loops of \<^verbatim>\<open>bget\<close> search the ring forwards and backwards; \<open>NBUF + 1\<close> steps suffice.\<close>

lemma bget_cached_links:
  assumes "links (\<lambda>i. next (t i)) (a # xs @ [NBUF])" and "NBUF \<notin> set xs" and "length xs < fuel"
  shows "bget_cached fuel t (next (t a)) dev bno = find (\<lambda>b. bdev (t b) = dev \<and> blockno (t b) = bno) xs"
  using assms
proof (induction xs arbitrary: a fuel)
  case Nil
  then show ?case by (cases fuel) auto
next
  case (Cons x xs)
  then show ?case by (cases fuel) auto
qed

lemma bget_unused_links:
  assumes "links (\<lambda>i. prev (t i)) (a # xs @ [NBUF])" and "NBUF \<notin> set xs" and "length xs < fuel"
  shows "bget_unused fuel t (prev (t a)) = find (\<lambda>b. refcnt (t b) = 0 \<and> \<not> bdirty (t b)) xs"
  using assms
proof (induction xs arbitrary: a fuel)
  case Nil
  then show ?case by (cases fuel) auto
next
  case (Cons x xs)
  then show ?case by (cases fuel) auto
qed

definition full_ring :: "(nat \<Rightarrow> buf) \<Rightarrow> bool" where
  "full_ring t \<longleftrightarrow> (\<exists>xs. ring t xs \<and> set xs = {..<NBUF})"

lemma find_cases:
  obtains "find P xs = None" and "\<forall>x \<in> set xs. \<not> P x" | x where "find P xs = Some x" and "x \<in> set xs" and "P x"
  by (cases "find P xs") (auto simp: find_None_iff find_Some_iff)

lemma full_ring_search:
  assumes "full_ring t"
  shows "(bget_cached (NBUF + 1) t (next (t NBUF)) dev bno = None \<and> \<not> (\<exists>b < NBUF. bdev (t b) = dev \<and> blockno (t b) = bno)) \<or>
      (\<exists>b < NBUF. bget_cached (NBUF + 1) t (next (t NBUF)) dev bno = Some b \<and> bdev (t b) = dev \<and> blockno (t b) = bno)"
    and "(bget_unused (NBUF + 1) t (prev (t NBUF)) = None \<and> \<not> (\<exists>b < NBUF. refcnt (t b) = 0 \<and> \<not> bdirty (t b))) \<or>
      (\<exists>b < NBUF. bget_unused (NBUF + 1) t (prev (t NBUF)) = Some b \<and> refcnt (t b) = 0 \<and> \<not> bdirty (t b))"
proof -
  from assms obtain xs where xs: "ring t xs" "set xs = {..<NBUF}" by (auto simp: full_ring_def)
  then have len: "length xs = NBUF" using distinct_card [of xs] by (simp add: ring_def)
  have fwd: "bget_cached (NBUF + 1) t (next (t NBUF)) dev bno = find (\<lambda>b. bdev (t b) = dev \<and> blockno (t b) = bno) xs"
    using xs(1) len by (intro bget_cached_links) (auto simp: ring_def)
  have bwd: "bget_unused (NBUF + 1) t (prev (t NBUF)) = find (\<lambda>b. refcnt (t b) = 0 \<and> \<not> bdirty (t b)) (rev xs)"
    using xs(1) len by (intro bget_unused_links) (auto simp: ring_def)
  show "(bget_cached (NBUF + 1) t (next (t NBUF)) dev bno = None \<and> \<not> (\<exists>b < NBUF. bdev (t b) = dev \<and> blockno (t b) = bno)) \<or>
      (\<exists>b < NBUF. bget_cached (NBUF + 1) t (next (t NBUF)) dev bno = Some b \<and> bdev (t b) = dev \<and> blockno (t b) = bno)"
    unfolding fwd by (rule find_cases [of "\<lambda>b. bdev (t b) = dev \<and> blockno (t b) = bno" xs]) (use xs(2) in auto)
  show "(bget_unused (NBUF + 1) t (prev (t NBUF)) = None \<and> \<not> (\<exists>b < NBUF. refcnt (t b) = 0 \<and> \<not> bdirty (t b))) \<or>
      (\<exists>b < NBUF. bget_unused (NBUF + 1) t (prev (t NBUF)) = Some b \<and> refcnt (t b) = 0 \<and> \<not> bdirty (t b))"
    unfolding bwd by (rule find_cases [of "\<lambda>b. refcnt (t b) = 0 \<and> \<not> bdirty (t b)" "rev xs"]) (use xs(2) in auto)
qed

subsection \<open>The drivers\<close>

lemma ide_sector_small [simp]: "blockno b < FSSIZE \<Longrightarrow> ide_sector b = blockno b"
proof -
  assume "blockno b < FSSIZE"
  then have "unat (blockno b) < 2 ^ 28" by (simp add: word_less_nat_alt)
  moreover have "(0x0fffffff :: uint) = mask 28" by (simp add: mask_eq_exp_minus_1)
  ultimately have "take_bit 28 (blockno b) = blockno b"
    by (simp add: take_bit_eq_mod word_arith_nat_mod word_unat_eq_iff unat_of_nat)
  with \<open>(0x0fffffff :: uint) = mask 28\<close> show ?thesis by (simp add: ide_sector_def take_bit_eq_mask)
qed

lemma no_update [simp]:
  "\<not> bdirty bf \<Longrightarrow> bf\<lparr>bdirty := False\<rparr> = bf" "bvalid bf \<Longrightarrow> bf\<lparr>bvalid := True\<rparr> = bf"
  "idequeue s = [] \<Longrightarrow> s\<lparr>idequeue := []\<rparr> = s" "s\<lparr>bufs := bufs s\<rparr> = s"
  by (cases bf; simp) (cases bf; simp; cases s; simp)+

text \<open>With no other request pending, \<^verbatim>\<open>iderw\<close> performs its request and returns.\<close>

lemma iderw_idle:
  assumes "idequeue s = []" and "holdingsleep (mypid s) (block (bufs s b))"
    and "\<not> (bvalid (bufs s b) \<and> \<not> bdirty (bufs s b))" and "bdev (bufs s b) = 0 \<or> havedisk1 s"
    and "blockno (bufs s b) < FSSIZE"
  shows "iderw b s = Inr (if bdirty (bufs s b)
     then buf_update b (\<lambda>bf. bf\<lparr>bvalid := True, bdirty := False\<rparr>)
            (disk_write (ide_drive (bufs s b)) (blockno (bufs s b)) (data (bufs s b)) s)
     else buf_update b (\<lambda>bf. bf\<lparr>data := (if derr s (ide_drive bf) (blockno bf) then data bf
            else disk s (ide_drive bf) (blockno bf)), bvalid := True\<rparr>) s)"
proof (cases "bdirty (bufs s b)")
  case True
  with assms show ?thesis
    by (simp add: iderw_def idestart_def ideintr_def Let_def buf_update_def disk_write_def linorder_not_less [symmetric])
next
  case False
  with assms show ?thesis
    by (simp add: iderw_def idestart_def ideintr_def Let_def buf_update_def linorder_not_less [symmetric])
qed

subsection \<open>The invariant\<close>

definition view :: "'a bcache_scheme \<Rightarrow> uint \<Rightarrow> uint \<Rightarrow> byte list" where
  "view s dev bno =
     (case find (\<lambda>i. bdev (bufs s i) = dev \<and> blockno (bufs s i) = bno \<and> bvalid (bufs s i)) [0..<NBUF] of
        Some i \<Rightarrow> data (bufs s i)
      | None \<Rightarrow> disk s (dev AND 1) bno)"

definition keys_distinct :: "(nat \<Rightarrow> buf) \<Rightarrow> bool" where
  "keys_distinct t \<longleftrightarrow> (\<forall>i < NBUF. \<forall>j < NBUF. bdev (t i) \<noteq> 0 \<and> bdev (t i) = bdev (t j) \<and> blockno (t i) = blockno (t j) \<longrightarrow> i = j)"

lemma keys_distinctD:
  "keys_distinct t \<Longrightarrow> i < NBUF \<Longrightarrow> bdev (t i) = ROOTDEV \<Longrightarrow> j < NBUF \<Longrightarrow> j \<noteq> i \<Longrightarrow>
     \<not> (bdev (t j) = bdev (t i) \<and> blockno (t j) = blockno (t i))"
  unfolding keys_distinct_def by (metis one_neq_zero)

definition bcache_ok :: "'a bcache_scheme \<Rightarrow> bool" where
  "bcache_ok s \<longleftrightarrow> full_ring (bufs s) \<and> idequeue s = [] \<and> havedisk1 s \<and> keys_distinct (bufs s) \<and>
     (\<forall>i < NBUF. (bdirty (bufs s i) \<longrightarrow> bvalid (bufs s i)) \<and> (bvalid (bufs s i) \<longrightarrow> bdev (bufs s i) = ROOTDEV) \<and>
        (bvalid (bufs s i) \<and> \<not> bdirty (bufs s i) \<and> refcnt (bufs s i) = 0 \<longrightarrow>
           data (bufs s i) = disk s (bdev (bufs s i) AND 1) (blockno (bufs s i))))"

definition held_by :: "cint \<Rightarrow> bool \<Rightarrow> buf \<Rightarrow> bool" where
  "held_by pid h bf \<longleftrightarrow>
     (if h then refcnt bf = 1 \<and> holdingsleep pid (block bf) \<and> bvalid bf else refcnt bf = 0 \<and> \<not> locked (block bf))"

definition quiet :: "'a bcache_scheme \<Rightarrow> nat set \<Rightarrow> bool" where
  "quiet s H \<longleftrightarrow> bcache_ok s \<and> H \<subseteq> {..<NBUF} \<and> (\<forall>i < NBUF. held_by (mypid s) (i \<in> H) (bufs s i))"

lemma view_hit:
  assumes "keys_distinct (bufs s)" "i < NBUF" "bvalid (bufs s i)" "bdev (bufs s i) \<noteq> 0"
  shows "view s (bdev (bufs s i)) (blockno (bufs s i)) = data (bufs s i)"
proof (rule find_cases [of "\<lambda>j. bdev (bufs s j) = bdev (bufs s i) \<and> blockno (bufs s j) = blockno (bufs s i) \<and>
          bvalid (bufs s j)" "[0..<NBUF]"], goal_cases)
  case 1
  then show ?case using assms by auto
next
  case (2 j)
  then have "j = i" using assms(1,2,4) unfolding keys_distinct_def by simp
  with 2 show ?case by (simp add: view_def)
qed

lemma view_miss:
  assumes "\<And>i. i < NBUF \<Longrightarrow> bvalid (bufs s i) \<Longrightarrow> \<not> (bdev (bufs s i) = dev \<and> blockno (bufs s i) = bno)"
  shows "view s dev bno = disk s (dev AND 1) bno"
proof (rule find_cases [of "\<lambda>j. bdev (bufs s j) = dev \<and> blockno (bufs s j) = bno \<and> bvalid (bufs s j)" "[0..<NBUF]"],
    goal_cases)
  case 1
  then show ?case by (simp add: view_def)
next
  case (2 j)
  then show ?case using assms by auto
qed

text \<open>Replacing one buffer by a valid one changes the view at most at that buffer's block.\<close>

lemma view_upd:
  fixes s :: "'a bcache_scheme" and bf :: buf and b :: nat
  defines "s' \<equiv> s\<lparr>bufs := (bufs s)(b := bf)\<rparr>"
  assumes ok: "keys_distinct (bufs s)" "keys_distinct (bufs s')" "\<forall>i < NBUF. bvalid (bufs s i) \<longrightarrow> bdev (bufs s i) \<noteq> 0"
    and b: "b < NBUF" "bvalid bf" "bdev bf \<noteq> 0"
    and old: "bvalid (bufs s b) \<longrightarrow> bdev (bufs s b) = bdev bf \<and> blockno (bufs s b) = blockno bf \<or>
        data (bufs s b) = disk s (bdev (bufs s b) AND 1) (blockno (bufs s b))"
  shows "view s' dev bno = (if dev = bdev bf \<and> bno = blockno bf then data bf else view s dev bno)"
proof (cases "dev = bdev bf \<and> bno = blockno bf")
  case True
  then show ?thesis using view_hit [OF ok(2) b(1)] b by (simp add: s'_def)
next
  case False
  show ?thesis
  proof (cases "\<exists>i < NBUF. i \<noteq> b \<and> bvalid (bufs s i) \<and> bdev (bufs s i) = dev \<and> blockno (bufs s i) = bno")
    case True
    then obtain i where i: "i < NBUF" "i \<noteq> b" "bvalid (bufs s i)" "bdev (bufs s i) = dev" "blockno (bufs s i) = bno" by blast
    then have "view s dev bno = data (bufs s i)" using view_hit [OF ok(1), of i] ok(3) by blast
    moreover have "view s' dev bno = data (bufs s i)"
      using view_hit [OF ok(2), of i] i ok(3) by (auto simp: s'_def)
    ultimately show ?thesis unfolding if_not_P [OF False] by simp
  next
    case other: False
    have "view s' dev bno = disk s' (dev AND 1) bno" using other False by (intro view_miss) (auto simp: s'_def)
    moreover have "view s dev bno = disk s (dev AND 1) bno"
    proof (cases "bvalid (bufs s b) \<and> bdev (bufs s b) = dev \<and> blockno (bufs s b) = bno")
      case True
      with False old view_hit [OF ok(1) b(1)] ok(3) b(1) show ?thesis by auto
    next
      case False
      with other show ?thesis by (intro view_miss) blast
    qed
    ultimately show ?thesis unfolding if_not_P [OF False] by (simp add: s'_def)
  qed
qed

lemma full_ring_upd:
  assumes "full_ring t" "next bf = next (t b)" "prev bf = prev (t b)"
  shows "full_ring (t(b := bf))"
  using assms ring_cong [of "t(b := bf)" t] by (simp add: full_ring_def)

text \<open>A buffer that becomes held, or is changed while it is held.\<close>

lemma quiet_hold:
  assumes q: "quiet s H" and b: "b < NBUF" and links: "next bf = next (bufs s b)" "prev bf = prev (bufs s b)"
    and bf: "held_by (mypid s) True bf" "bdev bf = ROOTDEV"
    and key: "\<And>j. j < NBUF \<Longrightarrow> j \<noteq> b \<Longrightarrow> \<not> (bdev (bufs s j) = bdev bf \<and> blockno (bufs s j) = blockno bf)"
  shows "quiet (s\<lparr>bufs := (bufs s)(b := bf)\<rparr>) (insert b H)"
proof -
  have ok: "bcache_ok s" and H: "H \<subseteq> {..<NBUF}" and held: "\<And>i. i < NBUF \<Longrightarrow> held_by (mypid s) (i \<in> H) (bufs s i)"
    using q by (auto simp: quiet_def)
  have bf': "bvalid bf" "refcnt bf = 1" using bf(1) by (auto simp: held_by_def)
  have "keys_distinct (bufs s)" using ok by (simp add: bcache_ok_def)
  then have "keys_distinct ((bufs s)(b := bf))"
    using key b unfolding keys_distinct_def by (metis fun_upd_apply)
  moreover have "full_ring ((bufs s)(b := bf))" using ok links by (intro full_ring_upd) (auto simp: bcache_ok_def)
  ultimately have "bcache_ok (s\<lparr>bufs := (bufs s)(b := bf)\<rparr>)"
    using ok bf bf' unfolding bcache_ok_def by simp
  then show ?thesis using H held bf b by (auto simp: quiet_def)
qed

text \<open>What holding buffer \<open>b\<close> on block \<open>(dev, bno)\<close> means for the rest of the cache.\<close>

definition holds :: "'a bcache_scheme \<Rightarrow> (nat \<Rightarrow> buf) \<Rightarrow> nat set \<Rightarrow> uint \<Rightarrow> uint \<Rightarrow> nat \<Rightarrow> bool" where
  "holds s t H dev bno b \<longleftrightarrow> b < NBUF \<and> b \<notin> H \<and> quiet (s\<lparr>bufs := t\<rparr>) (insert b H) \<and>
     bdev (t b) = dev \<and> blockno (t b) = bno \<and> data (t b) = view s dev bno \<and>
     view (s\<lparr>bufs := t\<rparr>) = view s \<and> (\<forall>i. i \<noteq> b \<longrightarrow> t i = bufs s i) \<and>
     (\<forall>i < NBUF. bdirty (t i) \<longleftrightarrow> bdirty (bufs s i)) \<and>
     (bdirty (t b) \<longrightarrow> bdev (bufs s b) = dev \<and> blockno (bufs s b) = bno) \<and>
     (\<not> bdirty (t b) \<longrightarrow> data (t b) = disk s (dev AND 1) bno)"

lemma holdsI:
  assumes q: "quiet s H" and b: "b < NBUF" "b \<notin> H" and links: "next bf = next (bufs s b)" "prev bf = prev (bufs s b)"
    and bf: "held_by (mypid s) True bf" "bdev bf = dev" "blockno bf = bno" "dev = ROOTDEV" "bdirty bf = bdirty (bufs s b)"
    and key: "\<And>j. j < NBUF \<Longrightarrow> j \<noteq> b \<Longrightarrow> \<not> (bdev (bufs s j) = dev \<and> blockno (bufs s j) = bno)"
    and dat: "data bf = view s dev bno"
    and same: "bdirty (bufs s b) \<Longrightarrow> bdev (bufs s b) = dev \<and> blockno (bufs s b) = bno"
  shows "holds s ((bufs s)(b := bf)) H dev bno b"
proof -
  let ?s = "s\<lparr>bufs := (bufs s)(b := bf)\<rparr>"
  have q': "quiet ?s (insert b H)" using quiet_hold [OF q b(1) links bf(1)] bf key by simp
  have ok: "bcache_ok s" "bcache_ok ?s" and held: "refcnt (bufs s b) = 0"
    using q q' b by (auto simp: quiet_def held_by_def)
  have clean: "bvalid (bufs s b) \<Longrightarrow> \<not> bdirty (bufs s b) \<Longrightarrow>
      data (bufs s b) = disk s (bdev (bufs s b) AND 1) (blockno (bufs s b))"
    using ok(1) held b by (simp add: bcache_ok_def)
  have valid: "bvalid bf" using bf(1) by (simp add: held_by_def)
  have "view ?s d n = (if d = bdev bf \<and> n = blockno bf then data bf else view s d n)" for d n
    using ok valid bf(2,4) b(1) clean same
    by (intro view_upd) (auto simp: bcache_ok_def bf)
  then have "view ?s = view s" using dat bf by (intro ext) auto
  moreover have "data bf = disk s (dev AND 1) bno" if "\<not> bdirty bf"
  proof (cases "bvalid (bufs s b) \<and> bdev (bufs s b) = dev \<and> blockno (bufs s b) = bno")
    case True
    with clean that bf(5) have "data (bufs s b) = disk s (dev AND 1) bno" by simp
    with True dat view_hit [of s b] ok(1) b bf(4) show ?thesis by (auto simp: bcache_ok_def)
  next
    case False
    with key dat show ?thesis using view_miss [of s dev bno] by metis
  qed
  ultimately show ?thesis using b q' bf dat same by (auto simp: holds_def)
qed

subsection \<open>The operations\<close>

lemma quietD:
  assumes "quiet s H"
  shows "full_ring (bufs s)" and "idequeue s = []" and "havedisk1 s" and "keys_distinct (bufs s)"
    and "i < NBUF \<Longrightarrow> i \<notin> H \<Longrightarrow> refcnt (bufs s i) = 0 \<and> \<not> locked (block (bufs s i))"
    and "i \<in> H \<Longrightarrow> refcnt (bufs s i) = 1 \<and> holdingsleep (mypid s) (block (bufs s i)) \<and> bvalid (bufs s i) \<and> i < NBUF"
    and "i < NBUF \<Longrightarrow> bdirty (bufs s i) \<Longrightarrow> bvalid (bufs s i)"
    and "i < NBUF \<Longrightarrow> bvalid (bufs s i) \<Longrightarrow> bdev (bufs s i) = ROOTDEV"
  using assms by (auto simp: quiet_def bcache_ok_def held_by_def)

definition take_lock :: "cint \<Rightarrow> buf \<Rightarrow> buf" where
  "take_lock pid bf = bf\<lparr>refcnt := 1, block := (block bf)\<lparr>locked := True, lpid := pid\<rparr>\<rparr>"

lemma bget_idle:
  assumes q: "quiet s H" and free: "\<forall>i \<in> H. \<not> (bdev (bufs s i) = dev \<and> blockno (bufs s i) = bno)"
    and room: "(\<exists>i < NBUF. bdev (bufs s i) = dev \<and> blockno (bufs s i) = bno) \<or> (\<exists>i < NBUF. i \<notin> H \<and> \<not> bdirty (bufs s i))"
  obtains b where "b < NBUF" "b \<notin> H" "bdev (bufs s b) = dev" "blockno (bufs s b) = bno"
      "bget dev bno s = Inr (b, buf_update b (take_lock (mypid s)) s)"
    | b where "b < NBUF" "b \<notin> H" "\<not> bdirty (bufs s b)" "\<not> (\<exists>i < NBUF. bdev (bufs s i) = dev \<and> blockno (bufs s i) = bno)"
      "bget dev bno s = Inr (b, buf_update b
         (\<lambda>bf. take_lock (mypid s) (bf\<lparr>bdev := dev, blockno := bno, bvalid := False, bdirty := False\<rparr>)) s)"
proof (cases "\<exists>i < NBUF. bdev (bufs s i) = dev \<and> blockno (bufs s i) = bno")
  case True
  with full_ring_search(1) [OF quietD(1) [OF q], of dev bno] obtain b where b: "b < NBUF"
    "bget_cached (NBUF + 1) (bufs s) (next (bufs s NBUF)) dev bno = Some b" "bdev (bufs s b) = dev" "blockno (bufs s b) = bno"
    by blast
  moreover have "b \<notin> H" using free b by blast
  moreover have "bget dev bno s = Inr (b, buf_update b (take_lock (mypid s)) s)"
    using b(2) quietD(5) [OF q b(1) \<open>b \<notin> H\<close>]
    by (simp add: bget_def block_acquire_def acquiresleep_def buf_update_def take_lock_def)
  ultimately show ?thesis using that(1) by blast
next
  case False
  have none: "bget_cached (NBUF + 1) (bufs s) (next (bufs s NBUF)) dev bno = None"
    using full_ring_search(1) [OF quietD(1) [OF q], of dev bno] False by blast
  have "\<exists>i < NBUF. refcnt (bufs s i) = 0 \<and> \<not> bdirty (bufs s i)" using room False quietD(5) [OF q] by blast
  with full_ring_search(2) [OF quietD(1) [OF q]] obtain b where b: "b < NBUF"
    "bget_unused (NBUF + 1) (bufs s) (prev (bufs s NBUF)) = Some b" "refcnt (bufs s b) = 0" "\<not> bdirty (bufs s b)"
    by blast
  have "b \<notin> H" using b(3) quietD(6) [OF q] by fastforce
  moreover have "bget dev bno s = Inr (b, buf_update b
         (\<lambda>bf. take_lock (mypid s) (bf\<lparr>bdev := dev, blockno := bno, bvalid := False, bdirty := False\<rparr>)) s)"
    using none b(2) quietD(5) [OF q b(1) \<open>b \<notin> H\<close>]
    by (simp add: bget_def block_acquire_def acquiresleep_def buf_update_def take_lock_def)
  ultimately show ?thesis using that(2) b False by blast
qed

theorem bread_reads:
  assumes q: "quiet s H" and blk: "dev = ROOTDEV" "bno < FSSIZE" "\<not> derr s (dev AND 1) bno"
    and free: "\<forall>i \<in> H. \<not> (bdev (bufs s i) = dev \<and> blockno (bufs s i) = bno)"
    and room: "(\<exists>i < NBUF. bdev (bufs s i) = dev \<and> blockno (bufs s i) = bno) \<or> (\<exists>i < NBUF. i \<notin> H \<and> \<not> bdirty (bufs s i))"
  shows "\<exists>b t. bread dev bno s = Inr (b, s\<lparr>bufs := t\<rparr>) \<and> holds s t H dev bno b"
proof -
  have fill: "bread dev bno s = Inr (b, s\<lparr>bufs := (bufs s)(b := bf\<lparr>data := disk s (dev AND 1) bno, bvalid := True\<rparr>)\<rparr>)"
    if "bget dev bno s = Inr (b, s\<lparr>bufs := (bufs s)(b := bf)\<rparr>)" "\<not> bvalid bf" "\<not> bdirty bf" "bdev bf = dev" "blockno bf = bno"
      "holdingsleep (mypid s) (block bf)" for b bf
    using that blk quietD(2,3) [OF q] iderw_idle [of "s\<lparr>bufs := (bufs s)(b := bf)\<rparr>" b]
    by (simp add: bread_def buf_update_def ide_drive_def)
  show ?thesis
  proof (rule bget_idle [OF q free room], goal_cases)
    case (1 b)
    let ?bf = "take_lock (mypid s) (bufs s b)"
    have key: "\<not> (bdev (bufs s j) = dev \<and> blockno (bufs s j) = bno)" if "j < NBUF" "j \<noteq> b" for j
      using keys_distinctD [OF quietD(4) [OF q] 1(1) _ that] 1 blk(1) by simp
    have lk: "holdingsleep (mypid s) (block ?bf)" by (simp add: take_lock_def holdingsleep_def)
    show ?case
    proof (cases "bvalid (bufs s b)")
      case True
      with 1 have "bread dev bno s = Inr (b, s\<lparr>bufs := (bufs s)(b := ?bf)\<rparr>)"
        by (simp add: bread_def buf_update_def take_lock_def)
      moreover have "holds s ((bufs s)(b := ?bf)) H dev bno b"
        using 1 True lk blk key view_hit [OF quietD(4) [OF q] 1(1)]
        by (intro holdsI [OF q]) (auto simp: take_lock_def held_by_def)
      ultimately show ?thesis by blast
    next
      case False
      have nd: "\<not> bdirty (bufs s b)" using False quietD(7) [OF q] 1 by blast
      have "view s dev bno = disk s (dev AND 1) bno" using key False by (intro view_miss) metis
      then have "holds s ((bufs s)(b := ?bf\<lparr>data := disk s (dev AND 1) bno, bvalid := True\<rparr>)) H dev bno b"
        using 1 lk blk key nd by (intro holdsI [OF q]) (auto simp: take_lock_def held_by_def)
      with fill [of b ?bf] 1 False nd lk show ?thesis by (auto simp: buf_update_def take_lock_def)
    qed
  next
    case (2 b)
    let ?bf = "take_lock (mypid s) ((bufs s b)\<lparr>bdev := dev, blockno := bno, bvalid := False, bdirty := False\<rparr>)"
    have lk: "holdingsleep (mypid s) (block ?bf)" by (simp add: take_lock_def holdingsleep_def)
    have "view s dev bno = disk s (dev AND 1) bno" using 2(4) by (intro view_miss) blast
    then have "holds s ((bufs s)(b := ?bf\<lparr>data := disk s (dev AND 1) bno, bvalid := True\<rparr>)) H dev bno b"
      using 2 lk blk by (intro holdsI [OF q]) (auto simp: take_lock_def held_by_def)
    with fill [of b ?bf] 2 lk show ?case by (auto simp: buf_update_def take_lock_def)
  qed
qed

text \<open>Everything but the links.\<close>

definition buf_core :: "buf \<Rightarrow> bool \<times> bool \<times> uint \<times> uint \<times> sleeplock \<times> uint \<times> byte list" where
  "buf_core bf = (bvalid bf, bdirty bf, bdev bf, blockno bf, block bf, refcnt bf, data bf)"

lemma buf_core_links [simp]:
  "buf_core (set_next a b t i) = buf_core (t i)" "buf_core (set_prev a b t i) = buf_core (t i)"
  "buf_core (link_front a t i) = buf_core (t i)"
  by (simp_all add: buf_core_def set_next_def set_prev_def link_front_def Let_def)

lemma keys_distinct_cong:
  "(\<And>i. bdev (t i) = bdev (u i)) \<Longrightarrow> (\<And>i. blockno (t i) = blockno (u i)) \<Longrightarrow> keys_distinct t = keys_distinct u"
  by (simp add: keys_distinct_def)

lemma same_core_quiet:
  assumes core: "\<And>i. buf_core (t i) = buf_core (bufs s i)" and ring: "full_ring t"
  shows "quiet s H \<Longrightarrow> quiet (s\<lparr>bufs := t\<rparr>) H"
proof -
  have f: "bvalid (t i) = bvalid (bufs s i)" "bdirty (t i) = bdirty (bufs s i)" "bdev (t i) = bdev (bufs s i)"
    "blockno (t i) = blockno (bufs s i)" "block (t i) = block (bufs s i)" "refcnt (t i) = refcnt (bufs s i)"
    "data (t i) = data (bufs s i)" for i
    using core [of i] by (simp_all add: buf_core_def)
  have "keys_distinct t = keys_distinct (bufs s)" using f by (intro keys_distinct_cong)
  then show "quiet s H \<Longrightarrow> quiet (s\<lparr>bufs := t\<rparr>) H"
    using ring by (simp add: quiet_def bcache_ok_def held_by_def f)
qed

lemma full_ring_move_front:
  assumes "full_ring t" "b < NBUF"
  shows "full_ring (link_front b (set_next (prev (t b)) (next (t b)) (set_prev (next (t b)) (prev (t b)) t)))"
proof -
  from assms(1) obtain xs where xs: "ring t xs" "set xs = {..<NBUF}" by (auto simp: full_ring_def)
  with assms(2) obtain as bs where ab: "xs = as @ b # bs" by (metis lessThan_iff split_list)
  have "ring (link_front b (set_next (prev (t b)) (next (t b)) (set_prev (next (t b)) (prev (t b)) t))) (b # as @ bs)"
    using xs(1) ab assms(2) by (intro ring_link_front ring_unlink) (auto simp: ring_def)
  moreover have "set (b # as @ bs) = {..<NBUF}" using xs(2) ab by auto
  ultimately show ?thesis unfolding full_ring_def by blast
qed

definition same_blocks :: "(nat \<Rightarrow> buf) \<Rightarrow> (nat \<Rightarrow> buf) \<Rightarrow> bool" where
  "same_blocks t u \<longleftrightarrow> (\<forall>i. bvalid (t i) = bvalid (u i) \<and> bdirty (t i) = bdirty (u i) \<and> bdev (t i) = bdev (u i) \<and>
     blockno (t i) = blockno (u i) \<and> data (t i) = data (u i))"

lemma view_same_blocks: "same_blocks t (bufs s) \<Longrightarrow> view (s\<lparr>bufs := t\<rparr>) = view s"
  by (intro ext) (simp add: view_def same_blocks_def split: option.split)

theorem brelse_releases:
  assumes q: "quiet s (insert b H)" and b: "b \<notin> H"
    and clean: "bdirty (bufs s b) \<or> data (bufs s b) = disk s (bdev (bufs s b) AND 1) (blockno (bufs s b))"
  shows "\<exists>t. brelse b s = Inr (s\<lparr>bufs := t\<rparr>) \<and> quiet (s\<lparr>bufs := t\<rparr>) H \<and> same_blocks t (bufs s)"
proof -
  let ?bf = "(bufs s b)\<lparr>block := releasesleep (block (bufs s b)), refcnt := 0\<rparr>"
  let ?t = "(bufs s)(b := ?bf)"
  let ?t' = "link_front b (set_next (prev (?t b)) (next (?t b)) (set_prev (next (?t b)) (prev (?t b)) ?t))"
  have h: "refcnt (bufs s b) = 1" "holdingsleep (mypid s) (block (bufs s b))" "b < NBUF" using quietD(6) [OF q] by auto
  have ring: "full_ring ?t" using quietD(1) [OF q] by (intro full_ring_upd) simp_all
  have ok: "bcache_ok s" using q by (simp add: quiet_def)
  have "keys_distinct ?t = keys_distinct (bufs s)" by (intro keys_distinct_cong) simp_all
  moreover have "(bdirty (?t i) \<longrightarrow> bvalid (?t i)) \<and> (bvalid (?t i) \<longrightarrow> bdev (?t i) = ROOTDEV) \<and>
      (bvalid (?t i) \<and> \<not> bdirty (?t i) \<and> refcnt (?t i) = 0 \<longrightarrow> data (?t i) = disk s (bdev (?t i) AND 1) (blockno (?t i)))"
    if "i < NBUF" for i
  proof (cases "i = b")
    case True
    with clean quietD(7,8) [OF q h(3)] show ?thesis by auto
  next
    case False
    with ok that show ?thesis by (simp add: bcache_ok_def)
  qed
  ultimately have "bcache_ok (s\<lparr>bufs := ?t\<rparr>)" using ok ring by (simp add: bcache_ok_def)
  then have "quiet (s\<lparr>bufs := ?t\<rparr>) H"
    using q b by (auto simp: quiet_def held_by_def releasesleep_def)
  moreover have ring': "full_ring ?t'" by (rule full_ring_move_front [OF ring h(3)])
  ultimately have "quiet (s\<lparr>bufs := ?t'\<rparr>) H" using same_core_quiet [of ?t' "s\<lparr>bufs := ?t\<rparr>" H] by simp
  moreover have "same_blocks ?t' (bufs s)"
  proof -
    have "buf_core (?t' i) = buf_core (?t i)" for i by simp
    then show ?thesis unfolding same_blocks_def buf_core_def prod.inject by simp
  qed
  moreover have "brelse b s = Inr (s\<lparr>bufs := ?t'\<rparr>)"
    using h by (simp add: brelse_def Let_def buf_update_def)
  ultimately show ?thesis by blast
qed

text \<open>Writing the data of a held buffer changes the view at its block and nothing else.\<close>

lemma modify_held:
  assumes q: "quiet s H" and b: "b \<in> H"
  shows "quiet (buf_update b (\<lambda>bf. bf\<lparr>data := bs\<rparr>) s) H"
    and "view (buf_update b (\<lambda>bf. bf\<lparr>data := bs\<rparr>) s) dev bno =
      (if dev = bdev (bufs s b) \<and> bno = blockno (bufs s b) then bs else view s dev bno)"
proof -
  let ?bf = "(bufs s b)\<lparr>data := bs\<rparr>" and ?s = "buf_update b (\<lambda>bf. bf\<lparr>data := bs\<rparr>) s"
  note h = quietD(6) [OF q b]
  have dev: "bdev (bufs s b) = ROOTDEV" using quietD(8) [OF q] h by blast
  have keys: "\<not> (bdev (bufs s j) = bdev (bufs s b) \<and> blockno (bufs s j) = blockno (bufs s b))" if "j < NBUF" "j \<noteq> b" for j
    using keys_distinctD [OF quietD(4) [OF q] _ dev that] h by simp
  have "quiet ?s (insert b H)"
    unfolding buf_update_def using keys dev h by (intro quiet_hold [OF q]) (auto simp: held_by_def)
  with b show q': "quiet ?s H" by (simp add: insert_absorb)
  show "view ?s dev bno = (if dev = bdev (bufs s b) \<and> bno = blockno (bufs s b) then bs else view s dev bno)"
    using view_upd [of s b ?bf dev bno] quietD(4) [OF q] quietD(4) [OF q'] quietD(8) [OF q] h dev
    by (simp add: buf_update_def)
qed

text \<open>Pinning a held buffer: the dirty bit keeps \<^verbatim>\<open>bget\<close> from recycling it.\<close>

lemma pin_held:
  assumes q: "quiet s H" and b: "b \<in> H"
  shows "quiet (buf_update b (\<lambda>bf. bf\<lparr>bdirty := True\<rparr>) s) H"
    and "view (buf_update b (\<lambda>bf. bf\<lparr>bdirty := True\<rparr>) s) = view s"
proof -
  let ?bf = "(bufs s b)\<lparr>bdirty := True\<rparr>" and ?s = "buf_update b (\<lambda>bf. bf\<lparr>bdirty := True\<rparr>) s"
  note h = quietD(6) [OF q b]
  have dev: "bdev (bufs s b) = ROOTDEV" using quietD(8) [OF q] h by blast
  have keys: "\<not> (bdev (bufs s j) = bdev (bufs s b) \<and> blockno (bufs s j) = blockno (bufs s b))" if "j < NBUF" "j \<noteq> b" for j
    using keys_distinctD [OF quietD(4) [OF q] _ dev that] h by simp
  have "quiet ?s (insert b H)"
    unfolding buf_update_def using keys dev h by (intro quiet_hold [OF q]) (auto simp: held_by_def)
  with b show q': "quiet ?s H" by (simp add: insert_absorb)
  show "view ?s = view s"
    using view_upd [of s b ?bf] view_hit [OF quietD(4) [OF q], of b] quietD(4) [OF q] quietD(4) [OF q'] quietD(8) [OF q] h dev
    by (intro ext) (simp add: buf_update_def)
qed

text \<open>\<^verbatim>\<open>bwrite\<close> makes the disk agree with a held buffer; the view stays the same.\<close>

lemma bwrite_held:
  fixes s :: "'a bcache_scheme" and b :: nat
  defines "s' \<equiv> (disk_write 1 (blockno (bufs s b)) (data (bufs s b)) s)
      \<lparr>bufs := (bufs s)(b := (bufs s b)\<lparr>bdirty := False\<rparr>)\<rparr>"
  assumes q: "quiet s H" and b: "b \<in> H" and small: "blockno (bufs s b) < FSSIZE"
  shows "bwrite b s = Inr s'" and "quiet s' H" and "view s' ROOTDEV = view s ROOTDEV"
proof -
  note h = quietD(6) [OF q b]
  have dev: "bdev (bufs s b) = ROOTDEV" using quietD(8) [OF q] h by blast
  note keys = keys_distinctD [OF quietD(4) [OF q] _ dev]
  let ?s = "buf_update b (\<lambda>bf. bf\<lparr>bdirty := True\<rparr>) s"
  have "iderw b ?s = Inr s'"
    using iderw_idle [of ?s b] h dev small quietD(2,3) [OF q]
    by (simp add: buf_update_def ide_drive_def disk_write_def s'_def)
  then show "bwrite b s = Inr s'" using h by (simp add: bwrite_def)
  have ok: "bcache_ok s" using q by (simp add: quiet_def)
  have each: "(bdirty (bufs s' i) \<longrightarrow> bvalid (bufs s' i)) \<and> (bvalid (bufs s' i) \<longrightarrow> bdev (bufs s' i) = ROOTDEV) \<and>
      (bvalid (bufs s' i) \<and> \<not> bdirty (bufs s' i) \<and> refcnt (bufs s' i) = 0 \<longrightarrow>
         data (bufs s' i) = disk s' (bdev (bufs s' i) AND 1) (blockno (bufs s' i)))" if i: "i < NBUF" for i
  proof (cases "i = b")
    case True
    with h dev show ?thesis by (simp add: s'_def disk_write_def)
  next
    case False
    with ok i keys [of i] h dev show ?thesis
      by (auto simp: s'_def disk_write_def bcache_ok_def)
  qed
  have "keys_distinct (bufs s') = keys_distinct (bufs s)" by (intro keys_distinct_cong) (simp_all add: s'_def)
  moreover have "full_ring (bufs s')" using quietD(1) [OF q] by (simp add: s'_def full_ring_upd)
  ultimately have "bcache_ok s'" using each ok by (simp add: bcache_ok_def) (simp add: s'_def disk_write_def)
  then show q': "quiet s' H"
    using q h b unfolding quiet_def by (simp add: s'_def disk_write_def held_by_def)
  have "view s' ROOTDEV n = view s ROOTDEV n" for n
  proof (cases "\<exists>i < NBUF. bvalid (bufs s i) \<and> bdev (bufs s i) = ROOTDEV \<and> blockno (bufs s i) = n")
    case True
    then obtain i where i: "i < NBUF" "bvalid (bufs s i)" "bdev (bufs s i) = ROOTDEV" "blockno (bufs s i) = n" by blast
    have core: "bvalid (bufs s' i) = bvalid (bufs s i)" "bdev (bufs s' i) = bdev (bufs s i)"
      "blockno (bufs s' i) = blockno (bufs s i)" "data (bufs s' i) = data (bufs s i)"
      by (simp_all add: s'_def)
    have "bdev (bufs s i) \<noteq> 0" using i quietD(8) [OF q] by simp
    with view_hit [OF quietD(4) [OF q], of i] view_hit [OF quietD(4) [OF q'], of i] i core show ?thesis by simp
  next
    case False
    have "\<not> (bdev (bufs s b) = ROOTDEV \<and> blockno (bufs s b) = n)" using False h by blast
    with dev have "disk s' 1 n = disk s 1 n" by (auto simp: s'_def disk_write_def)
    moreover have "view s' ROOTDEV n = disk s' (ROOTDEV AND 1) n"
      using False by (intro view_miss) (auto simp: s'_def split: if_splits)
    moreover have "view s ROOTDEV n = disk s (ROOTDEV AND 1) n" using False by (intro view_miss) blast
    ultimately show ?thesis by simp
  qed
  then show "view s' ROOTDEV = view s ROOTDEV" by (intro ext)
qed

lemma binit_loop_ring:
  assumes "ring t xs" "set xs = {..<b}" "b + n = NBUF"
  shows "full_ring (binit_loop n b t)"
  using assms
proof (induction n arbitrary: b t xs)
  case 0
  then show ?case by (auto simp: full_ring_def)
next
  case (Suc n)
  have "ring (t(b := (t b)\<lparr>block := initsleeplock\<rparr>)) xs"
    using Suc.prems(1) ring_cong [of "t(b := (t b)\<lparr>block := initsleeplock\<rparr>)" t] by simp
  then have "ring (link_front b (t(b := (t b)\<lparr>block := initsleeplock\<rparr>))) (b # xs)"
    using Suc.prems by (intro ring_link_front) auto
  from Suc.IH [OF this] Suc.prems(2,3) show ?case by (simp add: lessThan_Suc)
qed

lemma binit_loop_core:
  "bvalid (binit_loop n b t i) = bvalid (t i) \<and> bdirty (binit_loop n b t i) = bdirty (t i) \<and>
   bdev (binit_loop n b t i) = bdev (t i) \<and> refcnt (binit_loop n b t i) = refcnt (t i) \<and>
   (b \<le> i \<and> i < b + n \<or> \<not> locked (block (t i)) \<longrightarrow> \<not> locked (block (binit_loop n b t i)))"
proof (induction n arbitrary: b t)
  case 0
  then show ?case by auto
next
  case (Suc n)
  have "buf_core (link_front b (t(b := (t b)\<lparr>block := initsleeplock\<rparr>)) i) = buf_core ((t(b := (t b)\<lparr>block := initsleeplock\<rparr>)) i)"
    by simp
  with Suc.IH [of "b + 1" "link_front b (t(b := (t b)\<lparr>block := initsleeplock\<rparr>))"] show ?case
    by (auto simp: buf_core_def initsleeplock_def split: if_splits)
qed

lemma binit_quiet:
  assumes "idequeue s = []" "havedisk1 s"
    and "\<And>i. \<not> bvalid (bufs s i) \<and> \<not> bdirty (bufs s i) \<and> bdev (bufs s i) = 0 \<and> refcnt (bufs s i) = 0"
  shows "quiet (binit s) {}" and "view (binit s) dev bno = disk s (dev AND 1) bno"
proof -
  let ?t = "set_next NBUF NBUF (set_prev NBUF NBUF (bufs s))"
  have "ring ?t []" by (simp add: ring_def)
  then have "full_ring (bufs (binit s))" unfolding binit_def by (simp add: binit_loop_ring)
  moreover have core: "\<not> bvalid (bufs (binit s) i) \<and> \<not> bdirty (bufs (binit s) i) \<and> bdev (bufs (binit s) i) = 0 \<and>
      refcnt (bufs (binit s) i) = 0 \<and> (i < NBUF \<longrightarrow> \<not> locked (block (bufs (binit s) i)))" for i
  proof -
    have "buf_core (?t i) = buf_core (bufs s i)" by simp
    with assms(3) [of i] binit_loop_core [of NBUF 0 ?t i] show ?thesis by (simp add: binit_def buf_core_def)
  qed
  ultimately show "quiet (binit s) {}"
    using assms(1,2) by (simp add: quiet_def bcache_ok_def keys_distinct_def held_by_def) (simp add: binit_def)
  show "view (binit s) dev bno = disk s (dev AND 1) bno"
    using core view_miss [of "binit s" dev bno] by (simp add: binit_def)
qed

end
