(* ===== verification/Log.thy ===== *)
theory Log
  imports Bio_Spec
begin

text \<open>
  The write-ahead log (\<^verbatim>\<open>log.c\<close>). The record extends the buffer cache by the fields of
  \<^verbatim>\<open>struct log\<close>; \<^verbatim>\<open>log.lh\<close> is \<open>lh_n\<close> and \<open>lh_block\<close>. C ints that count are \<open>int\<close>.
  Waiting in \<^verbatim>\<open>begin_op\<close> for another thread's commit is \<open>stuck\<close>.
\<close>

abbreviation (input) MAXOPBLOCKS :: int where "MAXOPBLOCKS \<equiv> 10"
abbreviation (input) LOGSIZE :: int where "LOGSIZE \<equiv> 30"

record logst = bcache +
  lstart :: uint
  lsize :: int
  outstanding :: int
  committing :: bool
  ldev :: uint
  lh_n :: int
  lh_block :: "uint list"

subsection \<open>The operations\<close>

text \<open>The on-disk header: \<^verbatim>\<open>n\<close> at byte 0, \<^verbatim>\<open>block[i]\<close> at byte \<open>4 + 4 * i\<close>.\<close>

fun read_blocks :: "nat \<Rightarrow> nat \<Rightarrow> byte list \<Rightarrow> uint list \<Rightarrow> uint list" where
  "read_blocks 0 i bs bl = bl"
| "read_blocks (Suc k) i bs bl = read_blocks k (i + 1) bs (bl[i := get32 bs (4 + 4 * i)])"

fun write_blocks :: "nat \<Rightarrow> nat \<Rightarrow> uint list \<Rightarrow> byte list \<Rightarrow> byte list" where
  "write_blocks 0 i bl bs = bs"
| "write_blocks (Suc k) i bl bs = write_blocks k (i + 1) bl (splice (4 + 4 * i) (le32 (bl ! i)) bs)"

fun install_loop :: "nat \<Rightarrow> nat \<Rightarrow> 'a logst_scheme \<Rightarrow> 'a logst_scheme res" where
  "install_loop 0 tail s = Inr s"
| "install_loop (Suc k) tail s =
     andThen (bread (ldev s) (lstart s + of_nat tail + 1) s) (\<lambda>(lbuf, s1).
     andThen (bread (ldev s1) (lh_block s1 ! tail) s1) (\<lambda>(dbuf, s2).
     andThen (bwrite dbuf (buf_update dbuf (\<lambda>bf. bf\<lparr>data := data (bufs s2 lbuf)\<rparr>) s2)) (\<lambda>s3.
     andThen (brelse lbuf s3) (\<lambda>s4.
     andThen (brelse dbuf s4) (install_loop k (tail + 1))))))"

definition install_trans :: "'a logst_scheme \<Rightarrow> 'a logst_scheme res" where
  "install_trans s = install_loop (nat (lh_n s)) 0 s"

text \<open>A header count above \<open>LOGSIZE\<close> would overrun \<^verbatim>\<open>log.lh.block\<close>.\<close>

definition read_head :: "'a logst_scheme \<Rightarrow> 'a logst_scheme res" where
  "read_head s =
     andThen (bread (ldev s) (lstart s) s) (\<lambda>(b, s1).
       let bs = data (bufs s1 b); n = sint (get32 bs 0)
       in if n > LOGSIZE then stuck ''read_head: log.lh.block overrun''
          else brelse b (s1\<lparr>lh_n := n, lh_block := read_blocks (nat n) 0 bs (lh_block s1)\<rparr>))"

definition write_head :: "'a logst_scheme \<Rightarrow> 'a logst_scheme res" where
  "write_head s =
     andThen (bread (ldev s) (lstart s) s) (\<lambda>(b, s1).
       let s2 = buf_update b (\<lambda>bf. bf\<lparr>data := write_blocks (nat (lh_n s1)) 0 (lh_block s1)
                  (splice 0 (le32 (of_int (lh_n s1))) (data bf))\<rparr>) s1
       in andThen (bwrite b s2) (brelse b))"

definition recover_from_log :: "'a logst_scheme \<Rightarrow> 'a logst_scheme res" where
  "recover_from_log s =
     andThen (read_head s) (\<lambda>s1. andThen (install_trans s1) (\<lambda>s2. write_head (s2\<lparr>lh_n := 0\<rparr>)))"

definition begin_op :: "'a logst_scheme \<Rightarrow> 'a logst_scheme res" where
  "begin_op s =
     (if committing s then stuck ''begin_op: sleep''
      else if lh_n s + (outstanding s + 1) * MAXOPBLOCKS > LOGSIZE then stuck ''begin_op: sleep''
      else Inr (s\<lparr>outstanding := outstanding s + 1\<rparr>))"

fun write_log_loop :: "nat \<Rightarrow> nat \<Rightarrow> 'a logst_scheme \<Rightarrow> 'a logst_scheme res" where
  "write_log_loop 0 tail s = Inr s"
| "write_log_loop (Suc k) tail s =
     andThen (bread (ldev s) (lstart s + of_nat tail + 1) s) (\<lambda>(to, s1).
     andThen (bread (ldev s1) (lh_block s1 ! tail) s1) (\<lambda>(from, s2).
     andThen (bwrite to (buf_update to (\<lambda>bf. bf\<lparr>data := data (bufs s2 from)\<rparr>) s2)) (\<lambda>s3.
     andThen (brelse from s3) (\<lambda>s4.
     andThen (brelse to s4) (write_log_loop k (tail + 1))))))"

definition write_log :: "'a logst_scheme \<Rightarrow> 'a logst_scheme res" where
  "write_log s = write_log_loop (nat (lh_n s)) 0 s"

definition commit :: "'a logst_scheme \<Rightarrow> 'a logst_scheme res" where
  "commit s =
     (if lh_n s > 0
      then andThen (write_log s) (\<lambda>s1. andThen (write_head s1) (\<lambda>s2.
           andThen (install_trans s2) (\<lambda>s3. write_head (s3\<lparr>lh_n := 0\<rparr>))))
      else Inr s)"

definition end_op :: "'a logst_scheme \<Rightarrow> 'a logst_scheme res" where
  "end_op s =
     (let s1 = s\<lparr>outstanding := outstanding s - 1\<rparr>
      in if committing s1 then panic ''log.committing''
         else if outstanding s1 = 0
         then andThen (commit (s1\<lparr>committing := True\<rparr>)) (\<lambda>s2. Inr (s2\<lparr>committing := False\<rparr>))
         else Inr s1)"

fun log_find :: "nat \<Rightarrow> nat \<Rightarrow> uint list \<Rightarrow> uint \<Rightarrow> nat" where
  "log_find 0 i bl b = i"
| "log_find (Suc k) i bl b = (if bl ! i = b then i else log_find k (i + 1) bl b)"

definition log_write :: "nat \<Rightarrow> 'a logst_scheme \<Rightarrow> 'a logst_scheme res" where
  "log_write b s =
     (if lh_n s \<ge> LOGSIZE \<or> lh_n s \<ge> lsize s - 1 then panic ''too big a transaction''
      else if outstanding s < 1 then panic ''log_write outside of trans''
      else let bno = blockno (bufs s b); i = log_find (nat (lh_n s)) 0 (lh_block s) bno;
               s1 = s\<lparr>lh_block := (lh_block s)[i := bno], lh_n := (if int i = lh_n s then lh_n s + 1 else lh_n s)\<rparr>
           in Inr (buf_update b (\<lambda>bf. bf\<lparr>bdirty := True\<rparr>) s1))"

end
