(* ===== verification/Log_Spec.thy ===== *)
theory Log_Spec
  imports Log
begin

text \<open>
  What the log guarantees. First the effect of the cache operations on the four things the log
  depends on - the view, the disk, the blocks pinned in the cache and the sequence of disk writes -
  then the effect of each loop of \<^verbatim>\<open>log.c\<close>, and finally that a crash between any two disk writes
  of a commit, followed by recovery, leaves either none or all of the transaction's blocks.
\<close>

subsection \<open>Reading, writing and releasing blocks\<close>

definition dirty_blocks :: "(nat \<Rightarrow> buf) \<Rightarrow> uint set" where
  "dirty_blocks t = {blockno (t i) | i. i < NBUF \<and> bdirty (t i)}"

definition bframe :: "'a bcache_scheme \<Rightarrow> 'a bcache_scheme \<Rightarrow> bool" where
  "bframe s s' \<longleftrightarrow> s' = s\<lparr>disk := disk s', dwrites := dwrites s', bufs := bufs s'\<rparr>"

lemma bframe_trans [trans]: "bframe s s1 \<Longrightarrow> bframe s1 s2 \<Longrightarrow> bframe s s2"
  unfolding bframe_def by (cases s; cases s1; cases s2) simp

lemma bframe_bufs: "bframe s (s\<lparr>bufs := t\<rparr>)"
  by (simp add: bframe_def)

lemma bframe_fields:
  "bframe s s' \<Longrightarrow> mypid s' = mypid s \<and> derr s' = derr s \<and> havedisk1 s' = havedisk1 s \<and> idequeue s' = idequeue s"
  unfolding bframe_def by (cases s; cases s') simp

definition noerr :: "'a bcache_scheme \<Rightarrow> bool" where
  "noerr s \<longleftrightarrow> (\<forall>n. \<not> derr s 1 n)"

lemma dirty_index:
  assumes "quiet s H"
  shows "card {i. i < NBUF \<and> bdirty (bufs s i)} = card (dirty_blocks (bufs s))"
proof -
  have "inj_on (\<lambda>i. blockno (bufs s i)) {i. i < NBUF \<and> bdirty (bufs s i)}"
  proof (rule inj_onI, clarsimp)
    fix i j assume *: "i < 30" "bdirty (bufs s i)" "j < 30" "bdirty (bufs s j)" "blockno (bufs s i) = blockno (bufs s j)"
    then have "bdev (bufs s i) = ROOTDEV" "bdev (bufs s j) = ROOTDEV" using quietD(7,8) [OF assms] by blast+
    with * keys_distinctD [OF quietD(4) [OF assms], of i j] show "i = j" by metis
  qed
  moreover have "dirty_blocks (bufs s) = (\<lambda>i. blockno (bufs s i)) ` {i. i < NBUF \<and> bdirty (bufs s i)}"
    by (auto simp: dirty_blocks_def)
  ultimately show ?thesis by (simp add: card_image)
qed

lemma room_free:
  assumes q: "quiet s H" and "card H + card (dirty_blocks (bufs s)) < NBUF"
  shows "\<exists>i < NBUF. i \<notin> H \<and> \<not> bdirty (bufs s i)"
proof (rule ccontr)
  assume "\<not> ?thesis"
  then have "{..<NBUF} \<subseteq> H \<union> {i. i < NBUF \<and> bdirty (bufs s i)}" by auto
  moreover have "finite H" using q finite_subset [of H "{..<NBUF}"] by (simp add: quiet_def)
  ultimately have "NBUF \<le> card (H \<union> {i. i < NBUF \<and> bdirty (bufs s i)})"
    using card_mono [of "H \<union> {i. i < NBUF \<and> bdirty (bufs s i)}" "{..<NBUF}"] by simp
  also have "\<dots> \<le> card H + card {i. i < NBUF \<and> bdirty (bufs s i)}" by (rule card_Un_le)
  finally show False using assms(2) dirty_index [OF q] by simp
qed

lemma bread_block:
  assumes q: "quiet s H" and blk: "bno < FSSIZE" "noerr s" and free: "\<forall>i \<in> H. blockno (bufs s i) \<noteq> bno"
    and room: "bno \<in> dirty_blocks (bufs s) \<or> card H + card (dirty_blocks (bufs s)) < NBUF"
  obtains b s' where "bread ROOTDEV bno s = Inr (b, s')" "bframe s s'" "disk s' = disk s" "dwrites s' = dwrites s"
    "b < NBUF" "b \<notin> H" "quiet s' (insert b H)" "blockno (bufs s' b) = bno" "data (bufs s' b) = view s ROOTDEV bno"
    "view s' = view s" "dirty_blocks (bufs s') = dirty_blocks (bufs s)"
    "\<forall>i \<in> H. bufs s' i = bufs s i" "bdirty (bufs s' b) \<or> data (bufs s' b) = disk s 1 bno"
proof -
  have room': "(\<exists>i < NBUF. bdev (bufs s i) = ROOTDEV \<and> blockno (bufs s i) = bno) \<or> (\<exists>i < NBUF. i \<notin> H \<and> \<not> bdirty (bufs s i))"
    using room
  proof
    assume "bno \<in> dirty_blocks (bufs s)"
    then obtain i where "i < NBUF" "bdirty (bufs s i)" "blockno (bufs s i) = bno" by (auto simp: dirty_blocks_def)
    then show ?thesis using quietD(7,8) [OF q] by blast
  qed (use room_free [OF q] in blast)
  have "\<forall>i \<in> H. \<not> (bdev (bufs s i) = ROOTDEV \<and> blockno (bufs s i) = bno)" using free by blast
  from bread_reads [OF q refl blk(1) _ this room'] blk(2) obtain b t where
    b: "bread ROOTDEV bno s = Inr (b, s\<lparr>bufs := t\<rparr>)" "holds s t H ROOTDEV bno b" by (auto simp: noerr_def)
  have "dirty_blocks t = dirty_blocks (bufs s)"
  proof -
    have "bdirty (t i) = bdirty (bufs s i) \<and> (bdirty (t i) \<longrightarrow> blockno (t i) = blockno (bufs s i))" if "i < NBUF" for i
      using b(2) that by (cases "i = b") (auto simp: holds_def)
    then show ?thesis unfolding dirty_blocks_def by (metis (mono_tags, lifting))
  qed
  moreover have "\<forall>i \<in> H. t i = bufs s i" using b(2) unfolding holds_def by metis
  ultimately show ?thesis
    using that [OF b(1) bframe_bufs] b(2) unfolding holds_def by auto
qed

lemma brelse_block:
  assumes q: "quiet s (insert b H)" and b: "b \<notin> H" and clean: "bdirty (bufs s b) \<or> data (bufs s b) = disk s 1 (blockno (bufs s b))"
  obtains s' where "brelse b s = Inr s'" "bframe s s'" "disk s' = disk s" "dwrites s' = dwrites s" "quiet s' H"
    "view s' = view s" "same_blocks (bufs s') (bufs s)" "dirty_blocks (bufs s') = dirty_blocks (bufs s)"
proof -
  have "bdev (bufs s b) = ROOTDEV" using quietD(6,8) [OF q] by blast
  with clean brelse_releases [OF q b] obtain t where t: "brelse b s = Inr (s\<lparr>bufs := t\<rparr>)" "quiet (s\<lparr>bufs := t\<rparr>) H"
    "same_blocks t (bufs s)" by auto
  moreover have "dirty_blocks t = dirty_blocks (bufs s)" using t(3) by (simp add: dirty_blocks_def same_blocks_def)
  ultimately show ?thesis using that [OF t(1) bframe_bufs] view_same_blocks [OF t(3)] by simp
qed

text \<open>Two blocks read one after the other.\<close>

lemma bread_two:
  assumes q: "quiet s {}" and blk: "A < FSSIZE" "B < FSSIZE" "A \<noteq> B" "noerr s"
    and room: "card (dirty_blocks (bufs s)) < NBUF" "B \<in> dirty_blocks (bufs s) \<or> card (dirty_blocks (bufs s)) + 1 < NBUF"
  obtains a b s1 s2 where "bread ROOTDEV A s = Inr (a, s1)" "bread ROOTDEV B s1 = Inr (b, s2)"
    "bframe s s1" "bframe s s2" "disk s2 = disk s" "dwrites s2 = dwrites s" "a \<noteq> b" "quiet s2 {a, b}"
    "blockno (bufs s2 a) = A" "blockno (bufs s2 b) = B" "data (bufs s2 a) = view s ROOTDEV A" "data (bufs s2 b) = view s ROOTDEV B"
    "view s2 = view s" "dirty_blocks (bufs s2) = dirty_blocks (bufs s)"
    "bdirty (bufs s2 a) \<or> data (bufs s2 a) = disk s 1 A" "bdirty (bufs s2 b) \<or> data (bufs s2 b) = disk s 1 B"
proof -
  obtain a s1 where a: "bread ROOTDEV A s = Inr (a, s1)" "bframe s s1" "disk s1 = disk s" "dwrites s1 = dwrites s"
    "a < NBUF" "quiet s1 {a}" "blockno (bufs s1 a) = A" "data (bufs s1 a) = view s ROOTDEV A" "view s1 = view s"
    "dirty_blocks (bufs s1) = dirty_blocks (bufs s)" "bdirty (bufs s1 a) \<or> data (bufs s1 a) = disk s 1 A"
    using bread_block [OF q blk(1,4)] room(1) by (metis card.empty add_0 empty_iff)
  have free: "\<forall>i \<in> {a}. blockno (bufs s1 i) \<noteq> B" using a blk by simp
  have err: "noerr s1" using blk(4) bframe_fields [OF a(2)] by (simp add: noerr_def)
  obtain b s2 where b: "bread ROOTDEV B s1 = Inr (b, s2)" "bframe s1 s2" "disk s2 = disk s1" "dwrites s2 = dwrites s1"
    "b < NBUF" "b \<notin> {a}" "quiet s2 (insert b {a})" "blockno (bufs s2 b) = B" "data (bufs s2 b) = view s1 ROOTDEV B" "view s2 = view s1"
    "dirty_blocks (bufs s2) = dirty_blocks (bufs s1)" "\<forall>i \<in> {a}. bufs s2 i = bufs s1 i"
    "bdirty (bufs s2 b) \<or> data (bufs s2 b) = disk s1 1 B"
    by (rule bread_block [OF a(6) blk(2) err free]) (use room a in auto)
  show ?thesis
    using that [OF a(1) b(1) a(2) bframe_trans [OF a(2) b(2)]] a b by (simp add: insert_commute)
qed

text \<open>Storing into one of two held buffers, writing it through, and releasing both.\<close>

lemma bwrite_two:
  assumes q: "quiet s {d, e}" and ne: "d \<noteq> e" and small: "blockno (bufs s d) < FSSIZE"
    and clean: "bdirty (bufs s e) \<or> data (bufs s e) = disk s 1 (blockno (bufs s e))"
    and xy: "(x, y) = (d, e) \<or> (x, y) = (e, d)"
  obtains s1 s2 s3 where "bwrite d (buf_update d (\<lambda>bf. bf\<lparr>data := bs\<rparr>) s) = Inr s1" "brelse x s1 = Inr s2" "brelse y s2 = Inr s3"
    "bframe s s3" "quiet s3 {}" "view s3 ROOTDEV = (view s ROOTDEV)(blockno (bufs s d) := bs)"
    "disk s3 1 = (disk s 1)(blockno (bufs s d) := bs)" "dwrites s3 = dwrites s @ [(1, blockno (bufs s d), bs)]"
    "dirty_blocks (bufs s3) = dirty_blocks (bufs s) - {blockno (bufs s d)}"
proof -
  let ?u = "buf_update d (\<lambda>bf. bf\<lparr>data := bs\<rparr>) s"
  let ?s1 = "(disk_write 1 (blockno (bufs ?u d)) (data (bufs ?u d)) ?u)\<lparr>bufs := (bufs ?u)(d := (bufs ?u d)\<lparr>bdirty := False\<rparr>)\<rparr>"
  have d: "bdev (bufs s d) = ROOTDEV" "d < NBUF" "bdev (bufs s e) = ROOTDEV" "e < NBUF" using quietD(6,8) [OF q] by blast+
  note m = modify_held [OF q, of d bs]
  have uq: "quiet ?u {d, e}" using m(1) by simp
  have w: "bwrite d ?u = Inr ?s1" "quiet ?s1 {d, e}" "view ?s1 ROOTDEV = view ?u ROOTDEV"
    using bwrite_held [OF uq, of d] small by (simp_all add: buf_update_def)
  have view1: "view ?s1 ROOTDEV = (view s ROOTDEV)(blockno (bufs s d) := bs)"
    unfolding w(3) using m(2) [of ROOTDEV] d(1) by (intro ext) simp
  have bn: "blockno (bufs s e) \<noteq> blockno (bufs s d)"
    using keys_distinctD [OF quietD(4) [OF q] d(2,1,4)] ne d by auto
  have dirty1: "dirty_blocks (bufs ?s1) = dirty_blocks (bufs s) - {blockno (bufs s d)}"
  proof -
    have "bdirty (bufs s i) \<Longrightarrow> i < NBUF \<Longrightarrow> i \<noteq> d \<Longrightarrow> blockno (bufs s i) \<noteq> blockno (bufs s d)" for i
      using keys_distinctD [OF quietD(4) [OF q] d(2,1), of i] quietD(7,8) [OF q, of i] d(1) by metis
    then show ?thesis by (auto simp: dirty_blocks_def buf_update_def) metis+
  qed
  have c: "bdirty (bufs ?s1 i) \<or> data (bufs ?s1 i) = disk ?s1 1 (blockno (bufs ?s1 i))" if "i \<in> {d, e}" for i
    using that clean bn ne by (auto simp: buf_update_def disk_write_def)
  have fr: "bframe s ?s1" by (simp add: bframe_def buf_update_def disk_write_def)
  have xy': "x \<noteq> y" "{x, y} = {d, e}" using xy ne by auto
  have qx: "quiet ?s1 (insert x {y})" using w(2) xy' by simp
  have cx: "bdirty (bufs ?s1 x) \<or> data (bufs ?s1 x) = disk ?s1 1 (blockno (bufs ?s1 x))" using c xy' by blast
  from xy' have "x \<notin> {y}" by simp
  obtain s2 where s2: "brelse x ?s1 = Inr s2" "bframe ?s1 s2" "disk s2 = disk ?s1" "dwrites s2 = dwrites ?s1" "quiet s2 {y}"
    "view s2 = view ?s1" "same_blocks (bufs s2) (bufs ?s1)" "dirty_blocks (bufs s2) = dirty_blocks (bufs ?s1)"
    by (rule brelse_block [OF qx \<open>x \<notin> {y}\<close> cx])
  have cy: "bdirty (bufs s2 y) \<or> data (bufs s2 y) = disk s2 1 (blockno (bufs s2 y))"
  proof -
    have "y \<in> {d, e}" using xy' by blast
    from c [OF this] s2(7) show ?thesis unfolding s2(3) same_blocks_def by metis
  qed
  obtain s3 where s3: "brelse y s2 = Inr s3" "bframe s2 s3" "disk s3 = disk s2" "dwrites s3 = dwrites s2" "quiet s3 {}"
    "view s3 = view s2" "dirty_blocks (bufs s3) = dirty_blocks (bufs s2)"
    by (rule brelse_block [OF s2(5) _ cy]) auto
  have fin: "disk ?s1 1 = (disk s 1)(blockno (bufs s d) := bs)" "dwrites ?s1 = dwrites s @ [(1, blockno (bufs s d), bs)]"
    by (simp_all add: buf_update_def disk_write_def)
  show ?thesis
    by (rule that [OF w(1) s2(1) s3(1) bframe_trans [OF fr bframe_trans [OF s2(2) s3(2)]] s3(5)])
      (simp_all only: s3 s2 view1 dirty1 fin)
qed

subsection \<open>Sequences of disk writes\<close>

definition wr :: "(uint \<times> byte list) list \<Rightarrow> (uint \<Rightarrow> byte list) \<Rightarrow> uint \<Rightarrow> byte list" where
  "wr ws D = fold (\<lambda>(n, bs) D. D(n := bs)) ws D"

lemma wr_simps [simp]: "wr [] D = D" "wr ((n, bs) # ws) D = wr ws (D(n := bs))" "wr (us @ ws) D = wr ws (wr us D)"
  by (simp_all add: wr_def)

lemma wr_other: "n \<notin> fst ` set ws \<Longrightarrow> wr ws D n = D n"
  by (induction ws arbitrary: D) (auto split: prod.splits)

lemma wr_in: "n \<in> fst ` set ws \<Longrightarrow> (\<forall>(a, bs) \<in> set ws. a = n \<longrightarrow> bs = v) \<Longrightarrow> wr ws D n = v"
proof (induction ws arbitrary: D)
  case (Cons w ws)
  then show ?case
    by (cases "n \<in> fst ` set ws") (auto simp: wr_other split: prod.splits)
qed simp

text \<open>One step of the log: it returns with all buffers released, having written \<open>ws\<close>.\<close>

definition effect :: "'a bcache_scheme \<Rightarrow> (uint \<times> byte list) list \<Rightarrow> 'a bcache_scheme \<Rightarrow> bool" where
  "effect s ws s' \<longleftrightarrow> bframe s s' \<and> quiet s' {} \<and> disk s' 1 = wr ws (disk s 1) \<and> view s' ROOTDEV = wr ws (view s ROOTDEV) \<and>
     dwrites s' = dwrites s @ map (Pair 1) ws \<and> dirty_blocks (bufs s') = dirty_blocks (bufs s) - fst ` set ws"

lemma effect_trans: "effect s us s1 \<Longrightarrow> effect s1 ws s2 \<Longrightarrow> effect s (us @ ws) s2"
  unfolding effect_def by (auto dest: bframe_trans)

lemma effect_quiet: "effect s ws s' \<Longrightarrow> quiet s' {}"
  by (simp add: effect_def)

lemma effect_noerr: "effect s ws s' \<Longrightarrow> noerr s' = noerr s"
  using bframe_fields [of s s'] by (simp add: effect_def noerr_def)

lemma effect_refl: "quiet s {} \<Longrightarrow> effect s [] s"
  by (simp add: effect_def bframe_def)

lemma bframe_log:
  fixes s :: "'a logst_scheme"
  assumes "bframe s s'"
  shows "lstart s' = lstart s" "lsize s' = lsize s" "outstanding s' = outstanding s" "committing s' = committing s"
    "ldev s' = ldev s" "lh_n s' = lh_n s" "lh_block s' = lh_block s"
proof -
  have "s' = s\<lparr>disk := disk s', dwrites := dwrites s', bufs := bufs s'\<rparr>" using assms unfolding bframe_def by blast
  from arg_cong [OF this, of lstart] arg_cong [OF this, of lsize] arg_cong [OF this, of outstanding]
    arg_cong [OF this, of committing] arg_cong [OF this, of ldev] arg_cong [OF this, of lh_n] arg_cong [OF this, of lh_block]
  show "lstart s' = lstart s" "lsize s' = lsize s" "outstanding s' = outstanding s" "committing s' = committing s"
    "ldev s' = ldev s" "lh_n s' = lh_n s" "lh_block s' = lh_block s" by simp_all
qed

lemmas effect_log = bframe_log [OF effect_def [THEN iffD1, THEN conjunct1]]

text \<open>The body of the loop of \<^verbatim>\<open>write_log\<close> (first block overwritten by the second) and of
  \<^verbatim>\<open>install_trans\<close> (second by the first).\<close>

lemma copy_effect:
  fixes s :: "'a bcache_scheme"
  assumes dv: "\<forall>s1 :: 'a bcache_scheme. bframe s s1 \<longrightarrow> dv s1 = ROOTDEV \<and> bk s1 = B" and q: "quiet s {}" and blk: "A < FSSIZE" "B < FSSIZE" "A \<noteq> B" "noerr s"
    and room: "card (dirty_blocks (bufs s)) < NBUF" "B \<in> dirty_blocks (bufs s) \<or> card (dirty_blocks (bufs s)) + 1 < NBUF"
  shows "\<exists>s'. andThen (bread ROOTDEV A s) (\<lambda>(a, s1). andThen (bread (dv s1) (bk s1) s1) (\<lambda>(b, s2).
      andThen (bwrite a (buf_update a (\<lambda>bf. bf\<lparr>data := data (bufs s2 b)\<rparr>) s2)) (\<lambda>s3.
      andThen (brelse b s3) (brelse a)))) = Inr s' \<and> effect s [(A, view s ROOTDEV B)] s'"
    and "\<exists>s'. andThen (bread ROOTDEV A s) (\<lambda>(a, s1). andThen (bread (dv s1) (bk s1) s1) (\<lambda>(b, s2).
      andThen (bwrite b (buf_update b (\<lambda>bf. bf\<lparr>data := data (bufs s2 a)\<rparr>) s2)) (\<lambda>s3.
      andThen (brelse a s3) (brelse b)))) = Inr s' \<and> effect s [(B, view s ROOTDEV A)] s'"
proof -
  obtain a b s1 s2 where r: "bread ROOTDEV A s = Inr (a, s1)" "bread ROOTDEV B s1 = Inr (b, s2)"
    "bframe s s1" "bframe s s2" "disk s2 = disk s" "dwrites s2 = dwrites s" "a \<noteq> b" "quiet s2 {a, b}"
    "blockno (bufs s2 a) = A" "blockno (bufs s2 b) = B" "data (bufs s2 a) = view s ROOTDEV A" "data (bufs s2 b) = view s ROOTDEV B"
    "view s2 = view s" "dirty_blocks (bufs s2) = dirty_blocks (bufs s)"
    "bdirty (bufs s2 a) \<or> data (bufs s2 a) = disk s 1 A" "bdirty (bufs s2 b) \<or> data (bufs s2 b) = disk s 1 B"
    by (rule bread_two [OF q blk room])
  have small: "blockno (bufs s2 a) < FSSIZE" "blockno (bufs s2 b) < FSSIZE" using r blk by simp_all
  have clean: "bdirty (bufs s2 a) \<or> data (bufs s2 a) = disk s2 1 (blockno (bufs s2 a))"
    "bdirty (bufs s2 b) \<or> data (bufs s2 b) = disk s2 1 (blockno (bufs s2 b))" using r by simp_all
  have q': "quiet s2 {b, a}" using r(8) by (simp add: insert_commute)
  obtain s3 s4 s5 where w: "bwrite a (buf_update a (\<lambda>bf. bf\<lparr>data := view s ROOTDEV B\<rparr>) s2) = Inr s3" "brelse b s3 = Inr s4"
    "brelse a s4 = Inr s5" "bframe s2 s5" "quiet s5 {}" "view s5 ROOTDEV = (view s2 ROOTDEV)(blockno (bufs s2 a) := view s ROOTDEV B)"
    "disk s5 1 = (disk s2 1)(blockno (bufs s2 a) := view s ROOTDEV B)"
    "dwrites s5 = dwrites s2 @ [(1, blockno (bufs s2 a), view s ROOTDEV B)]"
    "dirty_blocks (bufs s5) = dirty_blocks (bufs s2) - {blockno (bufs s2 a)}"
    by (rule bwrite_two [OF r(8,7) small(1) clean(2), of b a "view s ROOTDEV B"]) auto
  have "effect s [(A, view s ROOTDEV B)] s5"
    unfolding effect_def using w r bframe_trans [OF r(4) w(4)] by simp
  then show "\<exists>s'. andThen (bread ROOTDEV A s) (\<lambda>(a, s1). andThen (bread (dv s1) (bk s1) s1) (\<lambda>(b, s2).
      andThen (bwrite a (buf_update a (\<lambda>bf. bf\<lparr>data := data (bufs s2 b)\<rparr>) s2)) (\<lambda>s3.
      andThen (brelse b s3) (brelse a)))) = Inr s' \<and> effect s [(A, view s ROOTDEV B)] s'"
    using r(1,2,12) w(1-3) dv [rule_format, OF r(3)] by simp
  obtain s3' s4' s5' where w': "bwrite b (buf_update b (\<lambda>bf. bf\<lparr>data := view s ROOTDEV A\<rparr>) s2) = Inr s3'" "brelse a s3' = Inr s4'"
    "brelse b s4' = Inr s5'" "bframe s2 s5'" "quiet s5' {}" "view s5' ROOTDEV = (view s2 ROOTDEV)(blockno (bufs s2 b) := view s ROOTDEV A)"
    "disk s5' 1 = (disk s2 1)(blockno (bufs s2 b) := view s ROOTDEV A)"
    "dwrites s5' = dwrites s2 @ [(1, blockno (bufs s2 b), view s ROOTDEV A)]"
    "dirty_blocks (bufs s5') = dirty_blocks (bufs s2) - {blockno (bufs s2 b)}"
    by (rule bwrite_two [OF q' r(7) [symmetric] small(2) clean(1), of a b "view s ROOTDEV A"]) auto
  have "effect s [(B, view s ROOTDEV A)] s5'"
    unfolding effect_def using w' r bframe_trans [OF r(4) w'(4)] by simp
  then show "\<exists>s'. andThen (bread ROOTDEV A s) (\<lambda>(a, s1). andThen (bread (dv s1) (bk s1) s1) (\<lambda>(b, s2).
      andThen (bwrite b (buf_update b (\<lambda>bf. bf\<lparr>data := data (bufs s2 a)\<rparr>) s2)) (\<lambda>s3.
      andThen (brelse a s3) (brelse b)))) = Inr s' \<and> effect s [(B, view s ROOTDEV A)] s'"
    using r(1,2,11) w'(1-3) dv [rule_format, OF r(3)] by simp
qed

lemma andThen_split5:
  "andThen X (\<lambda>(a, s1). andThen (Y a s1) (\<lambda>(b, s2). andThen (Z a b s1 s2) (\<lambda>s3. andThen (U a b s3) (\<lambda>s4. andThen (V a b s4) k)))) =
   andThen (andThen X (\<lambda>(a, s1). andThen (Y a s1) (\<lambda>(b, s2). andThen (Z a b s1 s2) (\<lambda>s3. andThen (U a b s3) (V a b))))) k"
  by (simp add: andThen_assoc case_prod_unfold)

text \<open>Where the log keeps block \<open>i\<close> of a transaction, and where it does not collide with the home blocks.\<close>

definition log_slot :: "uint \<Rightarrow> nat \<Rightarrow> uint" where
  "log_slot st i = st + of_nat i + 1"

lemma unat_log_slot: "unat st + i + 1 < 1000 \<Longrightarrow> unat (log_slot st i) = unat st + i + 1"
  by (simp add: log_slot_def unat_word_ariths unat_of_nat32)

lemma log_slot_less: "unat st + i + 1 < 1000 \<Longrightarrow> log_slot st i < FSSIZE"
  by (simp add: word_less_nat_alt unat_log_slot)

lemma write_log_loop_effect:
  fixes s :: "'a logst_scheme"
  assumes "quiet s {}" "noerr s" "ldev s = ROOTDEV" "unat (lstart s) + tail + k < 1000"
    "\<forall>i < tail + k. lh_block s ! i < FSSIZE \<and> lh_block s ! i \<in> dirty_blocks (bufs s)"
    "\<forall>i < tail + k. \<forall>j < tail + k. lh_block s ! i \<noteq> log_slot (lstart s) j" "card (dirty_blocks (bufs s)) < NBUF"
  shows "\<exists>s'. write_log_loop k tail s = Inr s' \<and>
    effect s (map (\<lambda>i. (log_slot (lstart s) i, view s ROOTDEV (lh_block s ! i))) [tail..<tail + k]) s'"
  using assms
proof (induction k arbitrary: tail s)
  case 0
  then show ?case by (auto intro: effect_refl)
next
  case (Suc k)
  let ?A = "log_slot (lstart s) tail" and ?B = "lh_block s ! tail"
  have AB: "?A < FSSIZE" "?B < FSSIZE" "?A \<noteq> ?B" "?B \<in> dirty_blocks (bufs s)"
    using Suc.prems(4,5) Suc.prems(6) [rule_format, of tail tail] log_slot_less [of "lstart s" tail] by auto
  have "\<forall>u. bframe s u \<longrightarrow> ldev u = ROOTDEV \<and> lh_block u ! tail = ?B"
    using bframe_log [of s] Suc.prems(3) by simp
  from copy_effect(1) [OF this Suc.prems(1) AB(1,2,3) Suc.prems(2,7)] AB(4)
  obtain s1 where s1: "andThen (bread ROOTDEV ?A s) (\<lambda>(a, s1). andThen (bread (ldev s1) (lh_block s1 ! tail) s1) (\<lambda>(b, s2).
      andThen (bwrite a (buf_update a (\<lambda>bf. bf\<lparr>data := data (bufs s2 b)\<rparr>) s2)) (\<lambda>s3.
      andThen (brelse b s3) (brelse a)))) = Inr s1" "effect s [(?A, view s ROOTDEV ?B)] s1" by blast
  note f = effect_log [OF s1(2)]
  have A: "?A \<noteq> lh_block s ! i" if "i < tail + Suc k" for i using Suc.prems(6) [rule_format, OF that, of tail] by simp
  have dirty: "dirty_blocks (bufs s1) = dirty_blocks (bufs s) - {?A}" and v: "view s1 ROOTDEV = (view s ROOTDEV)(?A := view s ROOTDEV ?B)"
    using s1(2) by (simp_all add: effect_def)
  have "card (dirty_blocks (bufs s1)) < NBUF"
    using Suc.prems(7) card_Diff1_le [of "dirty_blocks (bufs s)" ?A] unfolding dirty by linarith
  then obtain s' where s': "write_log_loop k (tail + 1) s1 = Inr s'"
    "effect s1 (map (\<lambda>i. (log_slot (lstart s) i, view s1 ROOTDEV (lh_block s ! i))) [tail + 1..<tail + 1 + k]) s'"
    using Suc.IH [OF effect_quiet [OF s1(2)], of "tail + 1"] Suc.prems(2-6) effect_noerr [OF s1(2)] A by (auto simp: f dirty)
  have eq: "map (\<lambda>i. (log_slot (lstart s) i, view s1 ROOTDEV (lh_block s ! i))) [tail + 1..<tail + 1 + k] =
      map (\<lambda>i. (log_slot (lstart s) i, view s ROOTDEV (lh_block s ! i))) [tail + 1..<tail + Suc k]"
    using A [symmetric] by (intro map_cong) (auto simp: v fun_upd_other)
  from effect_trans [OF s1(2) s'(2) [unfolded eq]] have
    "effect s (map (\<lambda>i. (log_slot (lstart s) i, view s ROOTDEV (lh_block s ! i))) [tail..<tail + Suc k]) s'"
    by (simp add: upt_conv_Cons del: upt_Suc)
  moreover have "write_log_loop (Suc k) tail s = Inr s'"
    using s1(1) s'(1) Suc.prems(3) by (simp add: andThen_split5 log_slot_def)
  ultimately show ?case by blast
qed

lemma install_loop_effect:
  fixes s :: "'a logst_scheme"
  assumes "quiet s {}" "noerr s" "ldev s = ROOTDEV" "unat (lstart s) + tail + k < 1000"
    "\<forall>i < tail + k. lh_block s ! i < FSSIZE"
    "\<forall>i < tail + k. \<forall>j < tail + k. lh_block s ! i \<noteq> log_slot (lstart s) j" "card (dirty_blocks (bufs s)) < NBUF"
    "0 < k \<Longrightarrow> lh_block s ! tail \<in> dirty_blocks (bufs s) \<or> card (dirty_blocks (bufs s)) + 1 < NBUF"
  shows "\<exists>s'. install_loop k tail s = Inr s' \<and>
    effect s (map (\<lambda>i. (lh_block s ! i, view s ROOTDEV (log_slot (lstart s) i))) [tail..<tail + k]) s'"
  using assms
proof (induction k arbitrary: tail s)
  case 0
  then show ?case by (auto intro: effect_refl)
next
  case (Suc k)
  let ?A = "log_slot (lstart s) tail" and ?B = "lh_block s ! tail"
  have AB: "?A < FSSIZE" "?B < FSSIZE" "?A \<noteq> ?B"
    "?B \<in> dirty_blocks (bufs s) \<or> card (dirty_blocks (bufs s)) + 1 < NBUF"
    using Suc.prems(4,5,8) Suc.prems(6) [rule_format, of tail tail] log_slot_less [of "lstart s" tail] by auto
  have "\<forall>u. bframe s u \<longrightarrow> ldev u = ROOTDEV \<and> lh_block u ! tail = ?B"
    using bframe_log [of s] Suc.prems(3) by simp
  from copy_effect(2) [OF this Suc.prems(1) AB(1,2,3) Suc.prems(2,7) AB(4)]
  obtain s1 where s1: "andThen (bread ROOTDEV ?A s) (\<lambda>(a, s1). andThen (bread (ldev s1) (lh_block s1 ! tail) s1) (\<lambda>(b, s2).
      andThen (bwrite b (buf_update b (\<lambda>bf. bf\<lparr>data := data (bufs s2 a)\<rparr>) s2)) (\<lambda>s3.
      andThen (brelse a s3) (brelse b)))) = Inr s1" "effect s [(?B, view s ROOTDEV ?A)] s1" by blast
  note f = effect_log [OF s1(2)]
  have B: "?B \<noteq> log_slot (lstart s) i" if "i < tail + Suc k" for i using Suc.prems(6) [rule_format, of tail i] that by simp
  have dirty: "dirty_blocks (bufs s1) = dirty_blocks (bufs s) - {?B}" and v: "view s1 ROOTDEV = (view s ROOTDEV)(?B := view s ROOTDEV ?A)"
    using s1(2) by (simp_all add: effect_def)
  have fin: "finite (dirty_blocks (bufs s))" by (simp add: dirty_blocks_def)
  have room: "card (dirty_blocks (bufs s1)) + 1 < NBUF"
    using Suc.prems(7) AB(4) card_Diff1_le [of "dirty_blocks (bufs s)" ?B] card_Diff1_less [OF fin, of ?B] unfolding dirty by linarith
  then obtain s' where s': "install_loop k (tail + 1) s1 = Inr s'"
    "effect s1 (map (\<lambda>i. (lh_block s ! i, view s1 ROOTDEV (log_slot (lstart s) i))) [tail + 1..<tail + 1 + k]) s'"
    using Suc.IH [OF effect_quiet [OF s1(2)], of "tail + 1"] Suc.prems(2-6) effect_noerr [OF s1(2)] by (auto simp: f)
  have eq: "map (\<lambda>i. (lh_block s ! i, view s1 ROOTDEV (log_slot (lstart s) i))) [tail + 1..<tail + 1 + k] =
      map (\<lambda>i. (lh_block s ! i, view s ROOTDEV (log_slot (lstart s) i))) [tail + 1..<tail + Suc k]"
    using B [symmetric] by (intro map_cong) (auto simp: v fun_upd_other)
  from effect_trans [OF s1(2) s'(2) [unfolded eq]] have
    "effect s (map (\<lambda>i. (lh_block s ! i, view s ROOTDEV (log_slot (lstart s) i))) [tail..<tail + Suc k]) s'"
    by (simp add: upt_conv_Cons del: upt_Suc)
  moreover have "install_loop (Suc k) tail s = Inr s'"
    using s1(1) s'(1) Suc.prems(3) by (simp add: andThen_split5 log_slot_def)
  ultimately show ?case by blast
qed

text \<open>The header block after \<^verbatim>\<open>write_head\<close>.\<close>

definition head_block :: "int \<Rightarrow> uint list \<Rightarrow> byte list \<Rightarrow> byte list" where
  "head_block n bl bs = write_blocks (nat n) 0 bl (splice 0 (le32 (of_int n)) bs)"

lemma write_head_effect:
  fixes s :: "'a logst_scheme"
  assumes q: "quiet s {}" "noerr s" "ldev s = ROOTDEV" "lstart s < FSSIZE" "card (dirty_blocks (bufs s)) < NBUF"
  shows "\<exists>s'. write_head s = Inr s' \<and>
    effect s [(lstart s, head_block (lh_n s) (lh_block s) (view s ROOTDEV (lstart s)))] s'"
proof -
  obtain b s1 where b: "bread ROOTDEV (lstart s) s = Inr (b, s1)" "bframe s s1" "disk s1 = disk s" "dwrites s1 = dwrites s"
    "quiet s1 {b}" "blockno (bufs s1 b) = lstart s" "data (bufs s1 b) = view s ROOTDEV (lstart s)"
    "view s1 = view s" "dirty_blocks (bufs s1) = dirty_blocks (bufs s)"
    using bread_block [OF q(1,4,2)] q(5) by (metis card.empty add_0 empty_iff)
  note f = bframe_log [OF b(2)]
  let ?bs = "head_block (lh_n s) (lh_block s) (view s ROOTDEV (lstart s))"
  let ?u = "buf_update b (\<lambda>bf. bf\<lparr>data := ?bs\<rparr>) s1"
  let ?w = "(disk_write 1 (blockno (bufs ?u b)) (data (bufs ?u b)) ?u)\<lparr>bufs := (bufs ?u)(b := (bufs ?u b)\<lparr>bdirty := False\<rparr>)\<rparr>"
  have bd: "bdev (bufs s1 b) = ROOTDEV" "b < NBUF" using quietD(6,8) [OF b(5)] by blast+
  note m = modify_held [OF b(5), of b ?bs]
  have uq: "quiet ?u {b}" using m(1) by simp
  have w: "bwrite b ?u = Inr ?w" "quiet ?w {b}" "view ?w ROOTDEV = view ?u ROOTDEV"
    using bwrite_held [OF uq, of b] b(6) q(4) by (simp_all add: buf_update_def)
  have wc: "bdirty (bufs ?w b) \<or> data (bufs ?w b) = disk ?w 1 (blockno (bufs ?w b))"
    by (simp add: buf_update_def disk_write_def)
  obtain s' where s': "brelse b ?w = Inr s'" "bframe ?w s'" "disk s' = disk ?w" "dwrites s' = dwrites ?w" "quiet s' {}"
    "view s' = view ?w" "dirty_blocks (bufs s') = dirty_blocks (bufs ?w)"
    by (rule brelse_block [OF w(2) _ wc]) auto
  have "write_head s = Inr s'"
    using b(1,7) q(3) w(1) s'(1) f by (simp add: write_head_def Let_def head_block_def buf_update_def)
  moreover have "bframe s s'"
  proof -
    have "bframe s1 ?w" by (simp add: bframe_def buf_update_def disk_write_def)
    with b(2) s'(2) show ?thesis by (blast intro: bframe_trans)
  qed
  moreover have "dirty_blocks (bufs ?w) = dirty_blocks (bufs s) - {lstart s}"
  proof -
    have "bdirty (bufs s1 i) \<Longrightarrow> i < NBUF \<Longrightarrow> i \<noteq> b \<Longrightarrow> blockno (bufs s1 i) \<noteq> lstart s" for i
      using keys_distinctD [OF quietD(4) [OF b(5)] bd(2,1), of i] quietD(7,8) [OF b(5), of i] bd(1) b(6) by metis
    then show ?thesis unfolding b(9) [symmetric] using b(6) by (auto simp: dirty_blocks_def buf_update_def) metis+
  qed
  moreover have "view ?w ROOTDEV = (view s ROOTDEV)(lstart s := ?bs)"
    unfolding w(3) using m(2) [of ROOTDEV] bd(1) b(6,8) by (intro ext) simp
  moreover have "disk ?w 1 = (disk s 1)(lstart s := ?bs)" "dwrites ?w = dwrites s @ [(1, lstart s, ?bs)]"
    using b(3,4,6) by (simp_all add: buf_update_def disk_write_def)
  ultimately show ?thesis using s' by (simp add: effect_def)
qed

text \<open>Reading the header back.\<close>

lemma quiet_lh [simp]:
  fixes s :: "'a logst_scheme"
  shows "quiet (s\<lparr>lh_n := n, lh_block := bl\<rparr>) H = quiet s H" "view (s\<lparr>lh_n := n, lh_block := bl\<rparr>) = view s"
    "quiet (s\<lparr>lh_n := n\<rparr>) H = quiet s H" "view (s\<lparr>lh_n := n\<rparr>) = view s" "noerr (s\<lparr>lh_n := n\<rparr>) = noerr s"
  by (simp_all add: quiet_def bcache_ok_def view_def noerr_def fun_eq_iff split: option.split)

lemma read_head_effect:
  fixes s :: "'a logst_scheme"
  defines "bs \<equiv> view s ROOTDEV (lstart s)"
  assumes q: "quiet s {}" "noerr s" "ldev s = ROOTDEV" "lstart s < FSSIZE" "card (dirty_blocks (bufs s)) < NBUF"
    and n: "sint (get32 bs 0) \<le> LOGSIZE"
  shows "\<exists>s'. read_head s = Inr s' \<and>
    effect (s\<lparr>lh_n := sint (get32 bs 0), lh_block := read_blocks (nat (sint (get32 bs 0))) 0 bs (lh_block s)\<rparr>) [] s'"
proof -
  obtain b s1 where b: "bread ROOTDEV (lstart s) s = Inr (b, s1)" "bframe s s1" "disk s1 = disk s" "dwrites s1 = dwrites s"
    "quiet s1 {b}" "blockno (bufs s1 b) = lstart s" "data (bufs s1 b) = bs" "view s1 = view s"
    "dirty_blocks (bufs s1) = dirty_blocks (bufs s)" "bdirty (bufs s1 b) \<or> data (bufs s1 b) = disk s 1 (lstart s)"
    using bread_block [OF q(1,4,2)] q(5) unfolding bs_def by (metis card.empty add_0 empty_iff)
  note f = bframe_log [OF b(2)]
  let ?n = "sint (get32 bs 0)" and ?bl = "read_blocks (nat (sint (get32 bs 0))) 0 bs (lh_block s)"
  let ?u = "s1\<lparr>lh_n := ?n, lh_block := ?bl\<rparr>"
  have uq: "quiet ?u {b}" using b(5) by simp
  have uc: "bdirty (bufs ?u b) \<or> data (bufs ?u b) = disk ?u 1 (blockno (bufs ?u b))" using b by simp
  obtain s' where s': "brelse b ?u = Inr s'" "bframe ?u s'" "disk s' = disk ?u" "dwrites s' = dwrites ?u" "quiet s' {}"
    "view s' = view ?u" "dirty_blocks (bufs s') = dirty_blocks (bufs ?u)"
    by (rule brelse_block [OF uq _ uc]) auto
  have "read_head s = Inr s'"
    using b(1,7) q(3) s'(1) f n by (simp add: read_head_def Let_def)
  moreover have "bframe (s\<lparr>lh_n := ?n, lh_block := ?bl\<rparr>) s'"
  proof -
    have "s1 = s\<lparr>disk := disk s1, dwrites := dwrites s1, bufs := bufs s1\<rparr>" using b(2) by (simp add: bframe_def)
    then have "bframe (s\<lparr>lh_n := ?n, lh_block := ?bl\<rparr>) ?u" unfolding bframe_def by (cases s; cases s1) simp
    with s'(2) show ?thesis by (blast intro: bframe_trans)
  qed
  ultimately show ?thesis using s' b by (simp add: effect_def)
qed

subsection \<open>The header round trip\<close>

lemma write_blocks_length: "length bs = BSIZE \<Longrightarrow> i + k \<le> 30 \<Longrightarrow> length (write_blocks k i bl bs) = BSIZE"
  by (induction k arbitrary: i bs) simp_all

lemma write_blocks_count:
  "length bs = BSIZE \<Longrightarrow> i + k \<le> 30 \<Longrightarrow> get32 (write_blocks k i bl bs) 0 = get32 bs 0"
  by (induction k arbitrary: i bs) (simp_all add: get32_other)

lemma write_blocks_get32:
  assumes "length bs = BSIZE" "i + k \<le> 30" "j < 30"
  shows "get32 (write_blocks k i bl bs) (4 + 4 * j) = (if i \<le> j \<and> j < i + k then bl ! j else get32 bs (4 + 4 * j))"
  using assms
proof (induction k arbitrary: i bs)
  case (Suc k)
  let ?bs = "splice (4 + 4 * i) (le32 (bl ! i)) bs"
  have len: "length ?bs = BSIZE" using Suc.prems by simp
  have "get32 ?bs (4 + 4 * j) = (if j = i then bl ! i else get32 bs (4 + 4 * j))"
    using Suc.prems get32_le32 [of "4 + 4 * i" bs] get32_other [of "4 + 4 * i" "le32 (bl ! i)" bs "4 + 4 * j"]
    by (cases j i rule: linorder_cases) simp_all
  with Suc.IH [OF len, of "i + 1"] Suc.prems show ?case by auto
qed auto

lemma read_blocks_length [simp]: "length (read_blocks k i bs bl) = length bl"
  by (induction k arbitrary: i bl) simp_all

lemma read_blocks_nth:
  "i + k \<le> length bl \<Longrightarrow> j < length bl \<Longrightarrow>
     read_blocks k i bs bl ! j = (if i \<le> j \<and> j < i + k then get32 bs (4 + 4 * j) else bl ! j)"
  by (induction k arbitrary: i bl) (auto simp: nth_list_update)

lemma sint_small:
  assumes "0 \<le> n" "n < 2 ^ 31"
  shows "sint (of_int n :: uint) = n"
  using assms by (simp add: signed_of_int signed_take_bit_int_eq_self)

lemma head_block_read:
  assumes "length bs = BSIZE" "0 \<le> n" "n \<le> LOGSIZE"
  shows "length (head_block n bl bs) = BSIZE" and "sint (get32 (head_block n bl bs) 0) = n"
    and "j < nat n \<Longrightarrow> get32 (head_block n bl bs) (4 + 4 * j) = bl ! j"
proof -
  have len: "length (splice 0 (le32 (of_int n)) bs) = BSIZE" using assms by simp
  show "length (head_block n bl bs) = BSIZE"
    using write_blocks_length [OF len, of 0 "nat n"] assms by (simp add: head_block_def)
  show "sint (get32 (head_block n bl bs) 0) = n"
    using write_blocks_count [OF len, of 0 "nat n"] assms by (simp add: head_block_def get32_le32 sint_small)
  show "j < nat n \<Longrightarrow> get32 (head_block n bl bs) (4 + 4 * j) = bl ! j"
    using write_blocks_get32 [OF len, of 0 "nat n" j bl] assms by (simp add: head_block_def)
qed

subsection \<open>Commit\<close>

text \<open>The view differs from the disk only at the pinned blocks.\<close>

lemma view_clean:
  assumes q: "quiet s {}" and b: "b \<notin> dirty_blocks (bufs s)"
  shows "view s ROOTDEV b = disk s 1 b"
proof (cases "\<exists>i < NBUF. bvalid (bufs s i) \<and> bdev (bufs s i) = ROOTDEV \<and> blockno (bufs s i) = b")
  case True
  then obtain i where i: "i < NBUF" "bvalid (bufs s i)" "bdev (bufs s i) = ROOTDEV" "blockno (bufs s i) = b" by blast
  then have "\<not> bdirty (bufs s i)" using b by (auto simp: dirty_blocks_def)
  moreover have "refcnt (bufs s i) = 0" using quietD(5) [OF q i(1)] by simp
  ultimately have "data (bufs s i) = disk s 1 b"
    using q i unfolding quiet_def bcache_ok_def by auto
  with view_hit [OF quietD(4) [OF q] i(1,2)] i show ?thesis by simp
next
  case False
  then show ?thesis using view_miss [of s ROOTDEV b] by auto
qed

text \<open>The state in which \<^verbatim>\<open>end_op\<close> commits: the pinned blocks are those listed in the header,
  their home locations lie outside the log, and the header on disk is empty.\<close>

definition in_log :: "uint \<Rightarrow> int \<Rightarrow> uint \<Rightarrow> bool" where
  "in_log st sz b \<longleftrightarrow> unat st \<le> unat b \<and> unat b < unat st + nat sz"

definition log_ready :: "'a logst_scheme \<Rightarrow> bool" where
  "log_ready s \<longleftrightarrow> quiet s {} \<and> noerr s \<and> ldev s = ROOTDEV \<and> unat (lstart s) + nat (lsize s) \<le> 1000 \<and>
     0 < lh_n s \<and> lh_n s \<le> LOGSIZE - 1 \<and> lh_n s \<le> lsize s - 1 \<and> length (lh_block s) = nat LOGSIZE \<and>
     (\<forall>i < nat (lh_n s). lh_block s ! i < FSSIZE \<and> \<not> in_log (lstart s) (lsize s) (lh_block s ! i)) \<and>
     dirty_blocks (bufs s) = set (take (nat (lh_n s)) (lh_block s)) \<and>
     length (disk s 1 (lstart s)) = BSIZE \<and> get32 (disk s 1 (lstart s)) 0 = 0"

definition log_part :: "'a logst_scheme \<Rightarrow> (uint \<times> byte list) list" where
  "log_part s = map (\<lambda>i. (log_slot (lstart s) i, view s ROOTDEV (lh_block s ! i))) [0..<nat (lh_n s)]"

definition home_part :: "'a logst_scheme \<Rightarrow> (uint \<times> byte list) list" where
  "home_part s = map (\<lambda>i. (lh_block s ! i, view s ROOTDEV (lh_block s ! i))) [0..<nat (lh_n s)]"

definition head_full :: "'a logst_scheme \<Rightarrow> byte list" where
  "head_full s = head_block (lh_n s) (lh_block s) (disk s 1 (lstart s))"

definition commit_writes :: "'a logst_scheme \<Rightarrow> (uint \<times> byte list) list" where
  "commit_writes s = log_part s @ (lstart s, head_full s) # home_part s @ [(lstart s, head_block 0 (lh_block s) (head_full s))]"

lemma log_readyD:
  assumes "log_ready s"
  shows "quiet s {}" "noerr s" "ldev s = ROOTDEV" "unat (lstart s) + 0 + nat (lh_n s) < 1000" "lstart s < FSSIZE"
    "\<forall>i < 0 + nat (lh_n s). lh_block s ! i < FSSIZE" "card (dirty_blocks (bufs s)) < NBUF"
    "\<forall>i < 0 + nat (lh_n s). lh_block s ! i < FSSIZE \<and> lh_block s ! i \<in> dirty_blocks (bufs s)"
    "\<forall>i < 0 + nat (lh_n s). \<forall>j < 0 + nat (lh_n s). lh_block s ! i \<noteq> log_slot (lstart s) j"
    "view s ROOTDEV (lstart s) = disk s 1 (lstart s)" "0 \<le> lh_n s" "lh_n s \<le> LOGSIZE" "nat (lh_n s) \<le> length (lh_block s)"
    "i < nat (lh_n s) \<Longrightarrow> in_log (lstart s) (lsize s) (log_slot (lstart s) i)" "in_log (lstart s) (lsize s) (lstart s)"
    "i < nat (lh_n s) \<Longrightarrow> log_slot (lstart s) i \<noteq> lstart s" "length (disk s 1 (lstart s)) = BSIZE"
    "b \<in> dirty_blocks (bufs s) \<longleftrightarrow> (\<exists>i < nat (lh_n s). b = lh_block s ! i)"
    "i < nat (lh_n s) \<Longrightarrow> \<not> in_log (lstart s) (lsize s) (lh_block s ! i)"
proof -
  have r: "unat (lstart s) + nat (lsize s) \<le> 1000" "0 < lh_n s" "lh_n s \<le> LOGSIZE - 1" "lh_n s \<le> lsize s - 1"
    "length (lh_block s) = nat LOGSIZE" and dirty: "dirty_blocks (bufs s) = set (take (nat (lh_n s)) (lh_block s))"
    and home: "\<forall>i < nat (lh_n s). lh_block s ! i < FSSIZE \<and> \<not> in_log (lstart s) (lsize s) (lh_block s ! i)"
    using assms unfolding log_ready_def by blast+
  show q: "quiet s {}" "noerr s" "ldev s = ROOTDEV" "length (disk s 1 (lstart s)) = BSIZE"
    using assms unfolding log_ready_def by blast+
  show "0 \<le> lh_n s" "lh_n s \<le> LOGSIZE" and len: "nat (lh_n s) \<le> length (lh_block s)" using r by simp_all
  have n0: "nat (lh_n s) < nat (lsize s)" using r by linarith
  show n: "unat (lstart s) + 0 + nat (lh_n s) < 1000" using r(1) n0 by linarith
  then show "lstart s < FSSIZE" by (simp add: word_less_nat_alt)
  show "\<forall>i < 0 + nat (lh_n s). lh_block s ! i < FSSIZE" using home by simp
  show mem: "b \<in> dirty_blocks (bufs s) \<longleftrightarrow> (\<exists>i < nat (lh_n s). b = lh_block s ! i)" for b
    unfolding dirty in_set_conv_nth using len by (metis length_take min.absorb2 nth_take)
  have "card (dirty_blocks (bufs s)) \<le> nat (lh_n s)"
    unfolding dirty using card_length [of "take (nat (lh_n s)) (lh_block s)"] by simp
  then show "card (dirty_blocks (bufs s)) < NBUF" using r(3) by linarith
  show "\<forall>i < 0 + nat (lh_n s). lh_block s ! i < FSSIZE \<and> lh_block s ! i \<in> dirty_blocks (bufs s)"
    using home mem by (metis add_0)
  show il: "in_log (lstart s) (lsize s) (log_slot (lstart s) i)" if "i < nat (lh_n s)" for i
    using n0 n that unat_log_slot [of "lstart s" i] unfolding in_log_def by linarith
  show ol: "\<not> in_log (lstart s) (lsize s) (lh_block s ! i)" if "i < nat (lh_n s)" for i using home that by blast
  show "\<forall>i < 0 + nat (lh_n s). \<forall>j < 0 + nat (lh_n s). lh_block s ! i \<noteq> log_slot (lstart s) j"
    using il ol by (metis add_0)
  show st: "in_log (lstart s) (lsize s) (lstart s)" using n0 by (simp add: in_log_def)
  then have "lstart s \<notin> dirty_blocks (bufs s)" using ol mem by metis
  with q(1) show "view s ROOTDEV (lstart s) = disk s 1 (lstart s)" by (rule view_clean)
  show "log_slot (lstart s) i \<noteq> lstart s" if "i < nat (lh_n s)"
    using n that unat_log_slot [of "lstart s" i] by (auto dest: arg_cong [of _ _ unat])
qed

lemma effect_lh:
  fixes s :: "'a logst_scheme"
  assumes "effect s ws s'"
  shows "effect (s\<lparr>lh_n := n\<rparr>) ws (s'\<lparr>lh_n := n\<rparr>)"
proof -
  have "bframe s s' \<Longrightarrow> bframe (s\<lparr>lh_n := n\<rparr>) (s'\<lparr>lh_n := n\<rparr>)"
    unfolding bframe_def by (cases s; cases s') simp
  with assms show ?thesis by (simp add: effect_def)
qed

lemma fst_log_part: "fst ` set (log_part s) = log_slot (lstart s) ` {..<nat (lh_n s)}"
  by (simp add: log_part_def image_image lessThan_atLeast0)

lemma fst_home_part:
  assumes "log_ready s"
  shows "fst ` set (home_part s) = dirty_blocks (bufs s)"
  unfolding set_eq_iff log_readyD(18) [OF assms] by (auto simp: home_part_def image_image)

lemma log_slot_inj:
  assumes "unat st + n < 1000" "i < n" "j < n" "log_slot st i = log_slot st j"
  shows "i = j"
proof -
  have "unat st + i + 1 < 1000" "unat st + j + 1 < 1000" using assms(1-3) by linarith+
  from unat_log_slot [OF this(1)] unat_log_slot [OF this(2)] arg_cong [OF assms(4), of unat] show ?thesis by linarith
qed

lemma wr_log_part:
  assumes "log_ready s" "i < nat (lh_n s)"
  shows "wr (log_part s) D (log_slot (lstart s) i) = view s ROOTDEV (lh_block s ! i)"
proof (rule wr_in)
  show "log_slot (lstart s) i \<in> fst ` set (log_part s)" unfolding fst_log_part using assms(2) by blast
  have "unat (lstart s) + nat (lh_n s) < 1000" using log_readyD(4) [OF assms(1)] by simp
  then have inj: "x < nat (lh_n s) \<Longrightarrow> log_slot (lstart s) x = log_slot (lstart s) i \<Longrightarrow> x = i" for x
    by (rule log_slot_inj [OF _ _ assms(2)])
  show "\<forall>(a, bs) \<in> set (log_part s). a = log_slot (lstart s) i \<longrightarrow> bs = view s ROOTDEV (lh_block s ! i)"
    using inj by (auto simp: log_part_def dest!: inj)
qed

lemma commit_effect:
  assumes r: "log_ready s"
  shows "\<exists>s'. commit s = Inr s' \<and> effect (s\<lparr>lh_n := 0\<rparr>) (commit_writes s) s'"
proof -
  note d = log_readyD [OF r]
  from write_log_loop_effect [OF d(1,2,3,4,8,9,7)] obtain s1 where
    s1: "write_log s = Inr s1" "effect s (log_part s) s1"
    by (auto simp: write_log_def log_part_def)
  note f1 = effect_log [OF s1(2)]
  have dirty1: "dirty_blocks (bufs s1) = dirty_blocks (bufs s)"
  proof -
    have "dirty_blocks (bufs s) \<inter> log_slot (lstart s) ` {..<nat (lh_n s)} = {}" using d(9,18) by fastforce
    with s1(2) show ?thesis by (auto simp: effect_def fst_log_part)
  qed
  have v1: "view s1 ROOTDEV = wr (log_part s) (view s ROOTDEV)" using s1(2) by (simp add: effect_def)
  have "view s1 ROOTDEV (lstart s) = disk s 1 (lstart s)"
  proof -
    have "lstart s \<notin> fst ` set (log_part s)" unfolding fst_log_part using d(16) by (metis image_iff lessThan_iff)
    then show ?thesis unfolding v1 by (simp add: wr_other d(10))
  qed
  moreover have "card (dirty_blocks (bufs s1)) < NBUF" using d(7) dirty1 by simp
  ultimately obtain s2 where s2: "write_head s1 = Inr s2" "effect s1 [(lstart s, head_full s)] s2"
    using write_head_effect [OF effect_quiet [OF s1(2)]] effect_noerr [OF s1(2)] d f1 by (auto simp: head_full_def)
  note f2 = effect_log [OF s2(2)]
  have st: "lstart s \<notin> dirty_blocks (bufs s)" using d(15,18,19) by auto
  then have dirty2: "dirty_blocks (bufs s2) = dirty_blocks (bufs s)" using s2(2) dirty1 by (auto simp: effect_def)
  have v2: "view s2 ROOTDEV (log_slot (lstart s) i) = view s ROOTDEV (lh_block s ! i)" if "i < nat (lh_n s)" for i
  proof -
    have "view s2 ROOTDEV = (view s1 ROOTDEV)(lstart s := head_full s)" using s2(2) by (simp add: effect_def)
    with v1 d(16) [OF that] wr_log_part [OF r that] show ?thesis by simp
  qed
  have "lh_block s ! 0 \<in> dirty_blocks (bufs s)" if "0 < nat (lh_n s)" using that d(18) by blast
  with install_loop_effect [OF effect_quiet [OF s2(2)], of 0 "nat (lh_n s)"] effect_noerr [OF s1(2)] effect_noerr [OF s2(2)] d
  obtain s3 where s3: "install_trans s2 = Inr s3"
    "effect s2 (map (\<lambda>i. (lh_block s ! i, view s2 ROOTDEV (log_slot (lstart s) i))) [0..<0 + nat (lh_n s)]) s3"
    by (auto simp: install_trans_def f1 f2 dirty2)
  have "map (\<lambda>i. (lh_block s ! i, view s2 ROOTDEV (log_slot (lstart s) i))) [0..<0 + nat (lh_n s)] = home_part s"
    using v2 by (simp add: home_part_def)
  with s3(2) have s3': "effect s2 (home_part s) s3" by simp
  note f3 = effect_log [OF s3']
  have dirty3: "dirty_blocks (bufs s3) = {}" using s3' dirty2 fst_home_part [OF r] by (simp add: effect_def)
  have v3: "view s3 ROOTDEV (lstart s) = head_full s"
  proof -
    have "view s3 ROOTDEV = wr (home_part s) ((view s1 ROOTDEV)(lstart s := head_full s))"
      using s3' s2(2) by (simp add: effect_def)
    with st fst_home_part [OF r] show ?thesis by (simp add: wr_other)
  qed
  obtain s4 where s4: "write_head (s3\<lparr>lh_n := 0\<rparr>) = Inr s4"
    "effect (s3\<lparr>lh_n := 0\<rparr>) [(lstart s, head_block 0 (lh_block s) (head_full s))] s4"
    using write_head_effect [of "s3\<lparr>lh_n := 0\<rparr>"] effect_quiet [OF s3'] effect_noerr [OF s1(2)] effect_noerr [OF s2(2)]
      effect_noerr [OF s3'] d f1 f2 f3 dirty3 v3 by auto
  have "effect s (log_part s @ [(lstart s, head_full s)] @ home_part s) s3"
    by (intro effect_trans [OF s1(2)] effect_trans [OF s2(2) s3'])
  from effect_trans [OF effect_lh [OF this, of 0] s4(2)] have "effect (s\<lparr>lh_n := 0\<rparr>) (commit_writes s) s4"
    by (simp add: commit_writes_def)
  moreover have "commit s = Inr s4" using s1(1) s2(1) s3(1) s4(1) r by (simp add: commit_def log_ready_def)
  ultimately show ?thesis by blast
qed

subsection \<open>Recovery\<close>

text \<open>A freshly booted log: nothing pinned in the cache.\<close>

definition booted :: "'a logst_scheme \<Rightarrow> bool" where
  "booted s \<longleftrightarrow> quiet s {} \<and> noerr s \<and> ldev s = ROOTDEV \<and> dirty_blocks (bufs s) = {} \<and> length (lh_block s) = nat LOGSIZE"

lemma recover_effect:
  fixes s :: "'a logst_scheme"
  defines "D \<equiv> disk s 1" and "n \<equiv> nat (sint (get32 (disk s 1 (lstart s)) 0))"
  assumes b: "booted s" and n: "sint (get32 (D (lstart s)) 0) \<le> LOGSIZE" "unat (lstart s) + n < 1000"
    and home: "\<forall>i < n. get32 (D (lstart s)) (4 + 4 * i) < FSSIZE"
      "\<forall>i < n. \<forall>j < n. get32 (D (lstart s)) (4 + 4 * i) \<noteq> log_slot (lstart s) j"
  shows "\<exists>s' bs. recover_from_log s = Inr s' \<and> lh_n s' = 0 \<and> quiet s' {} \<and> dirty_blocks (bufs s') = {} \<and>
    disk s' 1 = (wr (map (\<lambda>i. (get32 (D (lstart s)) (4 + 4 * i), D (log_slot (lstart s) i))) [0..<n]) D)
      (lstart s := head_block 0 bl bs)"
proof -
  let ?st = "lstart s" and ?N = "sint (get32 (D (lstart s)) 0)"
  let ?bl = "read_blocks n 0 (D ?st) (lh_block s)"
  have b': "quiet s {}" "noerr s" "ldev s = ROOTDEV" "dirty_blocks (bufs s) = {}" "length (lh_block s) = 30"
    using b by (simp_all add: booted_def)
  have v: "view s ROOTDEV x = D x" for x using view_clean [OF b'(1)] b'(4) by (simp add: D_def)
  have st: "?st < FSSIZE" using n(2) by (simp add: word_less_nat_alt)
  have n30: "n \<le> 30" using n(1) by (simp add: n_def D_def)
  obtain s1 where s1: "read_head s = Inr s1" "effect (s\<lparr>lh_n := ?N, lh_block := ?bl\<rparr>) [] s1"
    using read_head_effect [OF b'(1-3) st] b'(4) n(1) by (auto simp: v n_def D_def)
  have f1: "lstart s1 = ?st" "ldev s1 = ROOTDEV" "lh_n s1 = ?N" "lh_block s1 = ?bl"
    using effect_log [OF s1(2)] b'(3) by simp_all
  have e1: "quiet s1 {}" "noerr s1" "dirty_blocks (bufs s1) = {}" "view s1 ROOTDEV = D" "disk s1 1 = D"
    using s1(2) effect_noerr [OF s1(2)] b' v by (auto simp: effect_def noerr_def D_def)
  have bl: "?bl ! i = get32 (D ?st) (4 + 4 * i)" if "i < n" for i
    using read_blocks_nth [of 0 n "lh_block s" i "D ?st"] b'(5) n30 that by simp
  have nN: "nat ?N = n" by (simp add: n_def D_def)
  obtain s2 where s2: "install_trans s1 = Inr s2"
    "effect s1 (map (\<lambda>i. (?bl ! i, D (log_slot ?st i))) [0..<0 + n]) s2"
    using install_loop_effect [OF e1(1,2), of 0 n] home n(2) by (auto simp: install_trans_def f1 e1 bl nN)
  have map2: "map (\<lambda>i. (?bl ! i, D (log_slot ?st i))) [0..<0 + n] =
      map (\<lambda>i. (get32 (D ?st) (4 + 4 * i), D (log_slot ?st i))) [0..<n]"
    using bl by simp
  note s2' = s2(2) [unfolded map2]
  have f2: "lstart s2 = ?st" "ldev s2 = ROOTDEV" using effect_log [OF s2'] f1 by simp_all
  have e2: "quiet s2 {}" "noerr s2" "dirty_blocks (bufs s2) = {}"
    using s2' effect_noerr [OF s2'] e1 by (auto simp: effect_def)
  obtain s3 where s3: "write_head (s2\<lparr>lh_n := 0\<rparr>) = Inr s3"
    "effect (s2\<lparr>lh_n := 0\<rparr>) [(?st, head_block 0 (lh_block s2) (view s2 ROOTDEV ?st))] s3"
    using write_head_effect [of "s2\<lparr>lh_n := 0\<rparr>"] e2 f2 st by auto
  have "lh_n s3 = 0" using effect_log(6) [OF s3(2)] by simp
  moreover have "recover_from_log s = Inr s3" using s1(1) s2(1) s3(1) by (simp add: recover_from_log_def)
  moreover have "quiet s3 {}" "dirty_blocks (bufs s3) = {}" using s3(2) e2 by (simp_all add: effect_def)
  moreover have "head_block 0 x y = head_block 0 bl y" for x y by (simp add: head_block_def)
  moreover have "disk s3 1 = (disk s2 1)(?st := head_block 0 (lh_block s2) (view s2 ROOTDEV ?st))"
    using s3(2) by (simp add: effect_def)
  moreover have "disk s2 1 = wr (map (\<lambda>i. (get32 (D ?st) (4 + 4 * i), D (log_slot ?st i))) [0..<n]) D"
    using s2' e1(5) by (simp add: effect_def)
  ultimately show ?thesis by metis
qed

subsection \<open>Crash safety\<close>

lemma take_commit_writes:
  "set (take j (commit_writes s)) \<subseteq> set (log_part s) \<or>
   (\<exists>ws. set ws \<subseteq> set (home_part s) \<and> take j (commit_writes s) = log_part s @ (lstart s, head_full s) # ws) \<or>
   take j (commit_writes s) = commit_writes s"
proof -
  let ?n = "length (log_part s)" and ?m = "length (home_part s)"
  consider "j \<le> ?n" | "?n < j" "j \<le> ?n + 1 + ?m" | "?n + 1 + ?m < j" by linarith
  then show ?thesis
  proof cases
    case 1
    then show ?thesis by (auto simp: commit_writes_def dest: in_set_takeD)
  next
    case 2
    then obtain i where "j = ?n + Suc i" "i \<le> ?m" by (metis less_natE add_Suc_right Suc_eq_plus1 add_Suc nat_add_left_cancel_le Suc_le_mono)
    then show ?thesis by (auto simp: commit_writes_def dest: in_set_takeD)
  next
    case 3
    then show ?thesis by (auto simp: commit_writes_def)
  qed
qed

lemma wr_outside:
  assumes "\<And>a. a \<in> fst ` set ws \<Longrightarrow> in_log st sz a" "\<not> in_log st sz b"
  shows "wr ws D b = D b"
  using assms by (intro wr_other) blast

lemma recover_empty:
  assumes r: "booted r" and hd: "sint (get32 (disk r 1 (lstart r)) 0) = 0" and st: "unat (lstart r) < 1000"
  shows "\<exists>r' bs. recover_from_log r = Inr r' \<and> lh_n r' = 0 \<and> disk r' 1 = (disk r 1)(lstart r := head_block 0 bl bs)"
  using recover_effect [OF r, where bl = bl] hd st by auto

lemma recover_full:
  assumes s: "log_ready s" and r: "booted r" "lstart r = lstart s" and ws: "set ws \<subseteq> set (home_part s)"
    and D: "disk r 1 = wr (log_part s @ (lstart s, head_full s) # ws) (disk s 1)"
  shows "\<exists>r'. recover_from_log r = Inr r' \<and> lh_n r' = 0 \<and>
    (\<forall>b. \<not> in_log (lstart s) (lsize s) b \<longrightarrow> disk r' 1 b = view s ROOTDEV b)"
proof -
  note d = log_readyD [OF s]
  let ?st = "lstart s" and ?n = "nat (lh_n s)" and ?D = "disk r 1"
  have fw: "fst ` set ws \<subseteq> dirty_blocks (bufs s)" using ws fst_home_part [OF s] by blast
  have Dx: "?D x = (if x = ?st then head_full s else wr (log_part s) (disk s 1) x)" if "x \<notin> dirty_blocks (bufs s)" for x
  proof -
    have "x \<notin> fst ` set ws" using that fw by blast
    then show ?thesis unfolding D by (simp add: wr_other)
  qed
  have out: "x \<notin> dirty_blocks (bufs s)" if "in_log ?st (lsize s) x" for x using that d(18,19) by auto
  have hd: "?D ?st = head_full s" using Dx out [OF d(15)] by simp
  have slot: "?D (log_slot ?st i) = view s ROOTDEV (lh_block s ! i)" if "i < ?n" for i
    using Dx [OF out [OF d(14) [OF that]]] d(16) [OF that] wr_log_part [OF s that] by simp
  have n: "sint (get32 (?D ?st) 0) = lh_n s" and bl: "i < ?n \<Longrightarrow> get32 (?D ?st) (4 + 4 * i) = lh_block s ! i" for i
    unfolding hd head_full_def using head_block_read [OF d(17,11,12)] by simp_all
  obtain r' bs where r': "recover_from_log r = Inr r'" "lh_n r' = 0" "disk r' 1 =
      (wr (map (\<lambda>i. (get32 (?D ?st) (4 + 4 * i), ?D (log_slot ?st i))) [0..<?n]) ?D)(?st := head_block 0 [] bs)"
    using recover_effect [OF r(1), where bl = "[]"] d(4,6,9,12) n bl r(2) by auto
  have eq: "map (\<lambda>i. (get32 (?D ?st) (4 + 4 * i), ?D (log_slot ?st i))) [0..<?n] = home_part s"
    using bl slot by (simp add: home_part_def)
  have "disk r' 1 b = view s ROOTDEV b" if b: "\<not> in_log ?st (lsize s) b" for b
  proof (cases "b \<in> dirty_blocks (bufs s)")
    case True
    then have "wr (home_part s) ?D b = view s ROOTDEV b"
      by (intro wr_in) (auto simp: fst_home_part [OF s], auto simp: home_part_def)
    then show ?thesis using b d(15) unfolding r'(3) eq by auto
  next
    case False
    have "?D b = disk s 1 b"
      using Dx [OF False] b d(14,15) wr_outside [of "log_part s" ?st "lsize s" b "disk s 1"] by (auto simp: fst_log_part)
    then show ?thesis
      using b d(15) False fst_home_part [OF s] view_clean [OF d(1) False] unfolding r'(3) eq by (auto simp: wr_other)
  qed
  with r'(1,2) show ?thesis by blast
qed

lemma wr_commit_home:
  assumes s: "log_ready s" and b: "\<not> in_log (lstart s) (lsize s) b"
  shows "wr (commit_writes s) (disk s 1) b = view s ROOTDEV b"
proof -
  note d = log_readyD [OF s]
  have "wr (commit_writes s) (disk s 1) b = wr (home_part s) ((wr (log_part s) (disk s 1))(lstart s := head_full s)) b"
    using b d(15) by (auto simp: commit_writes_def)
  also have "\<dots> = view s ROOTDEV b"
  proof (cases "b \<in> dirty_blocks (bufs s)")
    case True
    then show ?thesis by (intro wr_in) (auto simp: fst_home_part [OF s], auto simp: home_part_def)
  next
    case False
    then show ?thesis
      using b d(14,15) fst_home_part [OF s] view_clean [OF d(1) False] wr_outside [of "log_part s" "lstart s" "lsize s" b "disk s 1"]
      by (auto simp: wr_other fst_log_part)
  qed
  finally show ?thesis .
qed

lemma crash_recovery:
  assumes s: "log_ready s" and r: "booted r" "lstart r = lstart s" "disk r 1 = wr (take j (commit_writes s)) (disk s 1)"
  shows "\<exists>r'. recover_from_log r = Inr r' \<and> lh_n r' = 0 \<and>
    ((\<forall>b. \<not> in_log (lstart s) (lsize s) b \<longrightarrow> disk r' 1 b = disk s 1 b) \<or>
     (\<forall>b. \<not> in_log (lstart s) (lsize s) b \<longrightarrow> disk r' 1 b = view s ROOTDEV b))"
proof -
  note d = log_readyD [OF s]
  let ?st = "lstart s"
  have st: "unat (lstart r) < 1000" using d(4) r(2) by simp
  consider "set (take j (commit_writes s)) \<subseteq> set (log_part s)"
    | ws where "set ws \<subseteq> set (home_part s)" "take j (commit_writes s) = log_part s @ (?st, head_full s) # ws"
    | "take j (commit_writes s) = commit_writes s"
    using take_commit_writes [of j s] by blast
  then show ?thesis
  proof cases
    case 1
    have sub: "fst ` set (take j (commit_writes s)) \<subseteq> log_slot ?st ` {..<nat (lh_n s)}"
      using image_mono [OF 1, of fst] unfolding fst_log_part .
    have inl: "in_log ?st (lsize s) a" if "a \<in> fst ` set (take j (commit_writes s))" for a
      using subsetD [OF sub that] d(14) by auto
    have "?st \<notin> log_slot ?st ` {..<nat (lh_n s)}" using d(16) by (metis image_iff lessThan_iff)
    then have "?st \<notin> fst ` set (take j (commit_writes s))" using sub by blast
    then have "disk r 1 ?st = disk s 1 ?st" unfolding r(3) by (rule wr_other)
    then have "sint (get32 (disk r 1 (lstart r)) 0) = 0" using s r(2) by (simp add: log_ready_def)
    from recover_empty [OF r(1) this st, of "[]"] obtain r' bs where
      r': "recover_from_log r = Inr r'" "lh_n r' = 0" "disk r' 1 = (disk r 1)(?st := head_block 0 [] bs)" using r(2) by auto
    have "disk r' 1 b = disk s 1 b" if "\<not> in_log ?st (lsize s) b" for b
      using that d(15) wr_outside [OF inl that] unfolding r'(3) r(3) by auto
    with r' show ?thesis by blast
  next
    case (2 ws)
    then show ?thesis using recover_full [OF s r(1,2), of ws] r(3) by auto
  next
    case 3
    let ?ws = "log_part s @ (?st, head_full s) # home_part s"
    have D: "disk r 1 = (wr ?ws (disk s 1))(?st := head_block 0 (lh_block s) (head_full s))"
      unfolding r(3) 3 by (simp add: commit_writes_def)
    have "sint (get32 (disk r 1 (lstart r)) 0) = 0"
      using head_block_read [OF d(17,11,12)] head_block_read(2) [of "head_full s" 0 "lh_block s"] r(2)
      unfolding D by (simp add: head_full_def)
    from recover_empty [OF r(1) this st, of "[]"] obtain r' bs where
      r': "recover_from_log r = Inr r'" "lh_n r' = 0" "disk r' 1 = (disk r 1)(?st := head_block 0 [] bs)" using r(2) by auto
    have "disk r' 1 b = view s ROOTDEV b" if "\<not> in_log ?st (lsize s) b" for b
      using wr_commit_home [OF s that] that d(15) unfolding r'(3) r(3) 3 by auto
    with r' show ?thesis by blast
  qed
qed

text \<open>C1: \<^verbatim>\<open>commit\<close> is crash safe. It writes the blocks of the transaction to the log, then the
  header, then the home locations, then the empty header, and returns with every home block
  installed. If the machine stops after any number \<open>j\<close> of these disk writes, then
  \<^verbatim>\<open>recover_from_log\<close> on the next boot returns with an empty log, and outside the log area the disk
  holds either none of the transaction (the old disk) or all of it (what the kernel saw).\<close>

theorem commit_crash_safe:
  fixes s :: "'a logst_scheme"
  assumes s: "log_ready s"
  shows "\<exists>s' ws. commit s = Inr s' \<and> dwrites s' = dwrites s @ map (Pair 1) ws \<and> lh_n s' = 0 \<and>
    (\<forall>b. \<not> in_log (lstart s) (lsize s) b \<longrightarrow> disk s' 1 b = view s ROOTDEV b) \<and>
    (\<forall>j (r :: 'a logst_scheme). booted r \<and> lstart r = lstart s \<and> disk r 1 = wr (take j ws) (disk s 1) \<longrightarrow>
      (\<exists>r'. recover_from_log r = Inr r' \<and> lh_n r' = 0 \<and>
        ((\<forall>b. \<not> in_log (lstart s) (lsize s) b \<longrightarrow> disk r' 1 b = disk s 1 b) \<or>
         (\<forall>b. \<not> in_log (lstart s) (lsize s) b \<longrightarrow> disk r' 1 b = view s ROOTDEV b))))"
proof -
  obtain s' where s': "commit s = Inr s'" "effect (s\<lparr>lh_n := 0\<rparr>) (commit_writes s) s'" using commit_effect [OF s] by blast
  then have "dwrites s' = dwrites s @ map (Pair 1) (commit_writes s)" "disk s' 1 = wr (commit_writes s) (disk s 1)"
    by (simp_all add: effect_def)
  with s' effect_log(6) [OF s'(2)] wr_commit_home [OF s] crash_recovery [OF s] show ?thesis
    by (intro exI [of _ s'] exI [of _ "commit_writes s"]) auto
qed

definition buf_sample :: "nat \<Rightarrow> buf" where
  "buf_sample i = \<lparr>bvalid = (i = 0), bdirty = (i = 0), bdev = (if i = 0 then 1 else 0), blockno = (if i = 0 then 40 else 0),
     block = initsleeplock, refcnt = 0, prev = (if i = 0 then 30 else i - 1), next = (if i = 30 then 0 else i + 1),
     data = replicate 512 7\<rparr>"

definition log_sample :: logst where
  "log_sample = \<lparr>mypid = 1, disk = (\<lambda>_ _. replicate 512 0), derr = (\<lambda>_ _. False), dwrites = [], havedisk1 = True,
     idequeue = [], bufs = buf_sample, lstart = 2, lsize = 30, outstanding = 0, committing = True, ldev = 1,
     lh_n = 1, lh_block = 40 # replicate 29 0\<rparr>"

lemma buf_sample_ring: "full_ring buf_sample"
proof -
  have "ring buf_sample [0..<30]" by (simp add: ring_def buf_sample_def upt_rec)
  moreover have "set [0..<30] = {..<NBUF}" by auto
  ultimately show ?thesis unfolding full_ring_def by blast
qed

lemma log_sample_ready: "log_ready log_sample"
proof -
  have "dirty_blocks buf_sample = {40}" by (auto simp: dirty_blocks_def buf_sample_def)
  moreover have "quiet log_sample {}"
    using buf_sample_ring
    by (simp add: quiet_def bcache_ok_def keys_distinct_def held_by_def log_sample_def)
      (auto simp: buf_sample_def initsleeplock_def)
  ultimately show ?thesis
    by (simp add: log_ready_def noerr_def in_log_def log_sample_def get32_def)
qed

theorem commit_crash_safe_witness:
  "\<exists>s' ws. commit log_sample = Inr s' \<and> dwrites s' = map (Pair 1) ws \<and> disk s' 1 40 = replicate 512 7"
proof -
  have "view log_sample 1 40 = replicate 512 7" by (simp add: view_def log_sample_def buf_sample_def upt_rec)
  moreover have "\<not> in_log (lstart log_sample) (lsize log_sample) 40" by (simp add: in_log_def log_sample_def)
  moreover have "dwrites log_sample = []" by (simp add: log_sample_def)
  ultimately show ?thesis using commit_crash_safe [OF log_sample_ready] by fastforce
qed

end
