(* ===== verification/Console.thy ===== *)
theory Console
  imports Memory
begin

text \<open>
  The console (\<^verbatim>\<open>console.c\<close>, \<^verbatim>\<open>kbd.c\<close>, \<^verbatim>\<open>kbd.h\<close>, \<^verbatim>\<open>uart.c\<close>): formatted output to the CGA screen and the
  serial line, the keyboard decoder, the input editor and the line buffer a reader takes bytes from.
  The devices are part of the state: the bytes the keyboard controller and the serial port have still
  to deliver, the bytes sent to the serial port, the screen memory and the cursor register.
  \<open>rkilled\<close> is \<^verbatim>\<open>myproc()->killed\<close> of the reading process. The serial port is taken to be ready to send
  (\<^verbatim>\<open>uartputc\<close> sends in any case after its 128 polls).
\<close>

abbreviation (input) INPUT_BUF :: uint where "INPUT_BUF \<equiv> 128"
abbreviation (input) BACKSPACE :: cint where "BACKSPACE \<equiv> 0x100"
abbreviation (input) SHIFT :: uint where "SHIFT \<equiv> 1"
abbreviation (input) CTL :: uint where "CTL \<equiv> 2"
abbreviation (input) ALT :: uint where "ALT \<equiv> 4"
abbreviation (input) CAPSLOCK :: uint where "CAPSLOCK \<equiv> 8"
abbreviation (input) NUMLOCK :: uint where "NUMLOCK \<equiv> 16"
abbreviation (input) SCROLLLOCK :: uint where "SCROLLLOCK \<equiv> 32"
abbreviation (input) E0ESC :: uint where "E0ESC \<equiv> 64"

record console =
  panicked :: bool
  uart :: bool
  serial :: "byte list"
  crt :: "nat \<Rightarrow> ushort"
  cursor :: ushort
  kbd_data :: "byte list"
  uart_data :: "byte list"
  kbd_shift :: uint
  ibuf :: "byte list"
  in_r :: uint
  in_w :: uint
  in_e :: uint
  rkilled :: bool

text \<open>The bytes of a C string literal.\<close>

definition cstr :: "string \<Rightarrow> byte list" where
  "cstr s = map of_char s"

subsection \<open>Formatting\<close>

text \<open>
  The \<^verbatim>\<open>do\<close> loop of \<^verbatim>\<open>printint\<close>: the digits in the order they are put into \<^verbatim>\<open>buf\<close>. A base below two
  would divide by zero or never end; no caller passes one.
\<close>

function digits_loop :: "byte list \<Rightarrow> uint \<Rightarrow> uint \<Rightarrow> byte list" where
  "digits_loop digits base x =
     (if base < 2 then []
      else digits ! unat (x mod base)
           # (if x div base = 0 then [] else digits_loop digits base (x div base)))"
  by pat_completeness auto
termination
proof (relation "measure (\<lambda>(digits, base, x). unat x)")
  fix digits :: "byte list" and base x :: uint
  assume b: "\<not> base < 2" and d: "x div base \<noteq> 0"
  have "2 \<le> unat base"
    using b by (simp add: word_less_nat_alt)
  moreover have "unat x \<noteq> 0"
    using d by (auto simp: unat_eq_0)
  ultimately have "unat (x div base) < unat x"
    by (simp add: unat_div)
  then show "((digits, base, x div base), (digits, base, x)) \<in> measure (\<lambda>(digits, base, x). unat x)"
    by simp
qed simp

declare digits_loop.simps [simp del]

text \<open>\<^verbatim>\<open>buf\<close> holds the digits and then the sign, and is printed backwards.\<close>

definition printint_buf :: "byte list \<Rightarrow> cint \<Rightarrow> uint \<Rightarrow> bool \<Rightarrow> byte list" where
  "printint_buf digits xx base sign =
     (let neg = sign \<and> xx <s 0
      in digits_loop digits base (if neg then - xx else xx) @ (if neg then [0x2d] else []))"

definition printint :: "cint \<Rightarrow> uint \<Rightarrow> bool \<Rightarrow> byte list" where
  "printint xx base sign = rev (printint_buf (cstr ''0123456789abcdef'') xx base sign)"

text \<open>
  The words after the format on the stack: integers, and pointers to strings (\<open>None\<close> is the null
  pointer). The characters that \<^verbatim>\<open>cprintf\<close> puts out; the format ends at the end of the list.
\<close>

datatype fmtarg = ArgInt cint | ArgStr "byte list option"

fun cprintf_out :: "byte list \<Rightarrow> fmtarg list \<Rightarrow> byte list res" where
  "cprintf_out [] args = Inr []"
| "cprintf_out [c] args = Inr (if c \<noteq> 0x25 then [c] else [])"
| "cprintf_out (c # d # fmt) args =
     (if c \<noteq> 0x25 then andThen (cprintf_out (d # fmt) args) (\<lambda>out. Inr (c # out))
      else if d = 0x64
      then (case args of ArgInt x # args1 \<Rightarrow> andThen (cprintf_out fmt args1) (\<lambda>out. Inr (printint x 10 True @ out))
                       | _ \<Rightarrow> stuck ''cprintf: argument'')
      else if d = 0x78 \<or> d = 0x70
      then (case args of ArgInt x # args1 \<Rightarrow> andThen (cprintf_out fmt args1) (\<lambda>out. Inr (printint x 16 False @ out))
                       | _ \<Rightarrow> stuck ''cprintf: argument'')
      else if d = 0x73
      then (case args of ArgStr t # args1 \<Rightarrow>
              andThen (cprintf_out fmt args1) (\<lambda>out. Inr ((case t of None \<Rightarrow> cstr ''(null)'' | Some u \<Rightarrow> u) @ out))
                       | _ \<Rightarrow> stuck ''cprintf: argument'')
      else if d = 0x25 then andThen (cprintf_out fmt args) (\<lambda>out. Inr (0x25 # out))
      else andThen (cprintf_out fmt args) (\<lambda>out. Inr (0x25 # d # out)))"

subsection \<open>Output\<close>

definition uartputc :: "cint \<Rightarrow> console \<Rightarrow> console" where
  "uartputc c s = (if uart s then s\<lparr>serial := serial s @ [ucast c]\<rparr> else s)"

text \<open>
  \<open>cga_move\<close> is the cursor motion and the character cell, \<open>cga_scroll\<close> the scrolling by one line.
\<close>

definition cga_move :: "cint \<Rightarrow> console \<Rightarrow> int \<times> (nat \<Rightarrow> ushort)" where
  "cga_move c s =
     (let pos = uint (cursor s)
      in if c = 0x0a then (pos + (80 - pos mod 80), crt s)
         else if c = BACKSPACE then (if pos > 0 then pos - 1 else pos, crt s)
         else (pos + 1, (crt s)(nat pos := ucast (c AND 0xff) OR 0x0700)))"

definition cga_scroll :: "int \<times> (nat \<Rightarrow> ushort) \<Rightarrow> int \<times> (nat \<Rightarrow> ushort)" where
  "cga_scroll = (\<lambda>(pos, m).
     if pos div 80 \<ge> 24
     then (pos - 80, \<lambda>i. if nat (pos - 80) \<le> i \<and> i < 24 * 80 then 0
                        else if i < 23 * 80 then m (i + 80) else m i)
     else (pos, m))"

definition cgaputc :: "cint \<Rightarrow> console \<Rightarrow> console res" where
  "cgaputc c s =
     (let (pos, m) = cga_move c s
      in if pos < 0 \<or> pos > 25 * 80 then panic ''pos under/overflow''
         else let (pos1, m1) = cga_scroll (pos, m)
              in Inr (s\<lparr>cursor := of_int pos1, crt := m1(nat pos1 := 0x0720)\<rparr>))"

definition consputc :: "cint \<Rightarrow> console \<Rightarrow> console res" where
  "consputc c s =
     (if panicked s then stuck ''consputc: panicked''
      else let s1 = (if c = BACKSPACE then uartputc 0x08 (uartputc 0x20 (uartputc 0x08 s)) else uartputc c s)
           in cgaputc c s1)"

fun consputs :: "byte list \<Rightarrow> console \<Rightarrow> console res" where
  "consputs [] s = Inr s"
| "consputs (c # cs) s = andThen (consputc (ucast c) s) (consputs cs)"

definition cprintf :: "byte list \<Rightarrow> fmtarg list \<Rightarrow> console \<Rightarrow> console res" where
  "cprintf fmt args s = andThen (cprintf_out fmt args) (\<lambda>out. consputs out s)"

subsection \<open>The keyboard\<close>

text \<open>The tables of \<^verbatim>\<open>kbd.h\<close>; entries that have no initialiser are zero.\<close>

definition shiftcode :: "nat \<Rightarrow> uint" where
  "shiftcode d = (if d = 0x1D then CTL else if d = 0x2A then SHIFT else if d = 0x36 then SHIFT
                  else if d = 0x38 then ALT else if d = 0x9D then CTL else if d = 0xB8 then ALT else 0)"

definition togglecode :: "nat \<Rightarrow> uint" where
  "togglecode d = (if d = 0x3A then CAPSLOCK else if d = 0x45 then NUMLOCK else if d = 0x46 then SCROLLLOCK else 0)"

definition table_entry :: "byte list \<Rightarrow> (nat \<times> byte) list \<Rightarrow> nat \<Rightarrow> byte" where
  "table_entry codes rest d =
     (if d < length codes then codes ! d else case map_of rest d of None \<Rightarrow> 0 | Some c \<Rightarrow> c)"

definition special_keys :: "(nat \<times> byte) list" where
  "special_keys = [(0xC8, 0xE2), (0xD0, 0xE3), (0xC9, 0xE6), (0xD1, 0xE7), (0xCB, 0xE4), (0xCD, 0xE5),
                   (0x97, 0xE0), (0xCF, 0xE1), (0xD2, 0xE8), (0xD3, 0xE9)]"

definition normalmap :: "nat \<Rightarrow> byte" where
  "normalmap = table_entry
     ([0, 0x1B] @ cstr ''1234567890-='' @ [8, 9] @ cstr ''qwertyuiop[]'' @ [0x0a, 0] @ cstr ''asdfghjkl;'' @ [0x27]
      @ cstr ''`'' @ [0, 0x5c] @ cstr ''zxcvbnm,./'' @ [0] @ cstr ''*'' @ [0, 0x20]
      @ replicate 13 0 @ cstr ''789-456+1230.'' @ replicate 4 0)
     ([(0x9C, 0x0a), (0xB5, 0x2f)] @ special_keys)"

definition shiftmap :: "nat \<Rightarrow> byte" where
  "shiftmap = table_entry
     ([0, 27] @ cstr ''!@#$%^&*()_+'' @ [8, 9] @ cstr ''QWERTYUIOP{}'' @ [0x0a, 0] @ cstr ''ASDFGHJKL:'' @ [0x22]
      @ cstr ''~'' @ [0, 0x7c] @ cstr ''ZXCVBNM<>?'' @ [0] @ cstr ''*'' @ [0, 0x20]
      @ replicate 13 0 @ cstr ''789-456+1230.'' @ replicate 4 0)
     ([(0x9C, 0x0a), (0xB5, 0x2f)] @ special_keys)"

text \<open>\<^verbatim>\<open>C(x)\<close>.\<close>

definition ctl_keys :: "string \<Rightarrow> byte list" where
  "ctl_keys s = map (\<lambda>c. of_char c - 0x40) s"

definition ctlmap :: "nat \<Rightarrow> byte" where
  "ctlmap = table_entry
     (replicate 16 0 @ ctl_keys ''QWERTYUIOP'' @ [0, 0, 0x0d, 0] @ ctl_keys ''ASDFGHJKL'' @ replicate 4 0
      @ [0x5c - 0x40] @ ctl_keys ''ZXCVBNM'' @ [0, 0] @ ctl_keys ''/'' @ [0, 0])
     ([(0x9C, 0x0d), (0xB5, 0x2f - 0x40)] @ special_keys)"

definition charcode :: "uint \<Rightarrow> nat \<Rightarrow> byte" where
  "charcode k = (if k = 0 then normalmap else if k = 1 then shiftmap else ctlmap)"

text \<open>The character of a key press, given the shift state the key leaves.\<close>

definition key_char :: "uint \<Rightarrow> nat \<Rightarrow> cint" where
  "key_char shift d =
     (let c = ucast (charcode (shift AND (CTL OR SHIFT)) d) :: cint
      in if shift AND CAPSLOCK \<noteq> 0
         then if 0x61 \<le> c \<and> c \<le> 0x7a then c + (0x41 - 0x61)
              else if 0x41 \<le> c \<and> c \<le> 0x5a then c + (0x61 - 0x41) else c
         else c)"

definition kbdgetc :: "console \<Rightarrow> cint \<times> console" where
  "kbdgetc s =
     (case kbd_data s of
        [] \<Rightarrow> (-1, s)
      | b # rest \<Rightarrow>
         (let s0 = s\<lparr>kbd_data := rest\<rparr>; sh = kbd_shift s
          in if b = 0xE0 then (0, s0\<lparr>kbd_shift := sh OR E0ESC\<rparr>)
             else if b AND 0x80 \<noteq> 0
             then let d = (if sh AND E0ESC \<noteq> 0 then b else b AND 0x7F)
                  in (0, s0\<lparr>kbd_shift := sh AND NOT (shiftcode (unat d) OR E0ESC)\<rparr>)
             else let d = (if sh AND E0ESC \<noteq> 0 then b OR 0x80 else b);
                      sh1 = (if sh AND E0ESC \<noteq> 0 then sh AND NOT E0ESC else sh);
                      sh2 = (sh1 OR shiftcode (unat d)) XOR togglecode (unat d)
                  in (key_char sh2 (unat d), s0\<lparr>kbd_shift := sh2\<rparr>)))"

definition uartgetc :: "console \<Rightarrow> cint \<times> console" where
  "uartgetc s =
     (if \<not> uart s then (-1, s)
      else case uart_data s of [] \<Rightarrow> (-1, s) | b # rest \<Rightarrow> (ucast b, s\<lparr>uart_data := rest\<rparr>))"

subsection \<open>Line editing\<close>

definition ibuf_at :: "console \<Rightarrow> uint \<Rightarrow> byte" where
  "ibuf_at s i = ibuf s ! unat (i mod INPUT_BUF)"

text \<open>The loop of the kill-line key runs at most \<^verbatim>\<open>input.e - input.w\<close> times.\<close>

fun kill_line :: "nat \<Rightarrow> console \<Rightarrow> console res" where
  "kill_line 0 s = Inr s"
| "kill_line (Suc n) s =
     (if in_e s \<noteq> in_w s \<and> ibuf_at s (in_e s - 1) \<noteq> 0x0a
      then andThen (consputc BACKSPACE (s\<lparr>in_e := in_e s - 1\<rparr>)) (kill_line n)
      else Inr s)"

text \<open>One input character: whether \<^verbatim>\<open>procdump\<close> is asked for, whether the reader is woken, the state.\<close>

definition console_char :: "cint \<Rightarrow> console \<Rightarrow> (bool \<times> bool \<times> console) res" where
  "console_char c s =
     (if c = 0x10 then Inr (True, False, s)
      else if c = 0x15 then andThen (kill_line (unat (in_e s - in_w s)) s) (\<lambda>s1. Inr (False, False, s1))
      else if c = 0x08 \<or> c = 0x7f
      then (if in_e s \<noteq> in_w s
            then andThen (consputc BACKSPACE (s\<lparr>in_e := in_e s - 1\<rparr>)) (\<lambda>s1. Inr (False, False, s1))
            else Inr (False, False, s))
      else if c \<noteq> 0 \<and> in_e s - in_r s < INPUT_BUF
      then let c1 = (if c = 0x0d then 0x0a else c);
               s1 = s\<lparr>ibuf := (ibuf s)[unat (in_e s mod INPUT_BUF) := ucast c1], in_e := in_e s + 1\<rparr>
           in andThen (consputc c1 s1) (\<lambda>s2.
                if c1 = 0x0a \<or> c1 = 0x04 \<or> in_e s2 = in_r s2 + INPUT_BUF
                then Inr (False, True, s2\<lparr>in_w := in_e s2\<rparr>)
                else Inr (False, False, s2))
      else Inr (False, False, s))"

fun consoleintr_loop :: "nat \<Rightarrow> (console \<Rightarrow> cint \<times> console) \<Rightarrow> bool \<Rightarrow> bool \<Rightarrow> console \<Rightarrow> (bool \<times> bool \<times> console) res" where
  "consoleintr_loop 0 getc dump wake s = Inr (dump, wake, s)"
| "consoleintr_loop (Suc n) getc dump wake s =
     (let (c, s1) = getc s
      in if c <s 0 then Inr (dump, wake, s1)
         else andThen (console_char c s1) (\<lambda>(d, w, s2). consoleintr_loop n getc (dump \<or> d) (wake \<or> w) s2))"

text \<open>
  Each call of \<^verbatim>\<open>getc\<close> that returns a character takes a byte from the device, so that one more call
  than there are bytes ends the loop.
\<close>

definition consoleintr :: "(console \<Rightarrow> cint \<times> console) \<Rightarrow> console \<Rightarrow> (bool \<times> bool \<times> console) res" where
  "consoleintr getc s = consoleintr_loop (Suc (length (kbd_data s) + length (uart_data s))) getc False False s"

definition kbdintr :: "console \<Rightarrow> (bool \<times> bool \<times> console) res" where
  "kbdintr s = consoleintr kbdgetc s"

definition uartintr :: "console \<Rightarrow> (bool \<times> bool \<times> console) res" where
  "uartintr s = consoleintr uartgetc s"

subsection \<open>Reading and writing\<close>

text \<open>
  The loop of \<^verbatim>\<open>consoleread\<close>: \<open>first\<close> says that no byte was read yet (\<^verbatim>\<open>n == target\<close>). \<open>None\<close> is the
  return of -1 by a killed reader; a reader that would sleep is stuck until more input is committed.
\<close>

fun consoleread_loop :: "nat \<Rightarrow> bool \<Rightarrow> console \<Rightarrow> (byte list option \<times> console) res" where
  "consoleread_loop 0 first s = Inr (Some [], s)"
| "consoleread_loop (Suc n) first s =
     (if in_r s = in_w s
      then if rkilled s then Inr (None, s) else stuck ''consoleread: sleep''
      else let c = ibuf_at s (in_r s); s1 = s\<lparr>in_r := in_r s + 1\<rparr>
           in if c = 0x04
              then Inr (Some [], if first then s1 else s1\<lparr>in_r := in_r s1 - 1\<rparr>)
              else if c = 0x0a then Inr (Some [c], s1)
              else andThen (consoleread_loop n False s1)
                     (\<lambda>(r, s2). Inr (case r of None \<Rightarrow> None | Some cs \<Rightarrow> Some (c # cs), s2)))"

end
