(* ===== verification/Fs.thy ===== *)
theory Fs
  imports Log_Spec Console
begin

text \<open>
  The file system (\<^verbatim>\<open>fs.c\<close>): superblock, block allocator, inodes and their cache, file contents,
  directories and path names, and \<^verbatim>\<open>initlog\<close>, which reads the superblock. The record extends the
  log by the global \<^verbatim>\<open>sb\<close>, the array \<^verbatim>\<open>icache.inode\<close> and the device switch. An inode pointer is
  its index in \<^verbatim>\<open>icache.inode\<close>, the null pointer is \<open>None\<close>. \<^verbatim>\<open>readi\<close> returns the bytes it copies to
  \<^verbatim>\<open>dst\<close>, \<^verbatim>\<open>writei\<close> takes the \<open>n\<close> bytes at \<^verbatim>\<open>src\<close>. The entries of \<^verbatim>\<open>devsw\<close> are function pointers:
  \<open>dev_read\<close> and \<open>dev_write\<close> name the driver whose function is entered for a major number, if any;
  \<^verbatim>\<open>consoleinit\<close> is the only place that enters one. \<open>con\<close> is the state of the console.
  Names and paths are byte lists without the terminating zero.
\<close>

abbreviation (input) ROOTINO :: uint where "ROOTINO \<equiv> 1"
abbreviation (input) NINODE :: nat where "NINODE \<equiv> 50"
abbreviation (input) NDIRECT :: nat where "NDIRECT \<equiv> 12"
abbreviation (input) NINDIRECT :: nat where "NINDIRECT \<equiv> 128"
abbreviation (input) MAXFILE :: nat where "MAXFILE \<equiv> 140"
abbreviation (input) IPB :: nat where "IPB \<equiv> 8"
abbreviation (input) BPB :: nat where "BPB \<equiv> 4096"
abbreviation (input) DIRSIZ :: nat where "DIRSIZ \<equiv> 14"
abbreviation (input) NDEV :: int where "NDEV \<equiv> 10"
abbreviation (input) T_DIR :: ushort where "T_DIR \<equiv> 1"
abbreviation (input) T_FILE :: ushort where "T_FILE \<equiv> 2"
abbreviation (input) T_DEV :: ushort where "T_DEV \<equiv> 3"

record superblock =
  sb_size :: uint
  nblocks :: uint
  ninodes :: uint
  nlog :: uint
  logstart :: uint
  inodestart :: uint
  bmapstart :: uint

record inode =
  idev :: uint
  inum :: uint
  iref :: int
  ilck :: sleeplock
  ivalid :: bool
  itype :: ushort
  imajor :: ushort
  iminor :: ushort
  inlink :: ushort
  isize :: uint
  iaddrs :: "uint list"

datatype driver = DrvConsole

record fsys = logst +
  sb :: superblock
  icache :: "nat \<Rightarrow> inode"
  dev_read :: "int \<Rightarrow> driver option"
  dev_write :: "int \<Rightarrow> driver option"
  con :: console

definition inode_update :: "nat \<Rightarrow> (inode \<Rightarrow> inode) \<Rightarrow> 'a fsys_scheme \<Rightarrow> 'a fsys_scheme" where
  "inode_update ip f s = s\<lparr>icache := (icache s)(ip := f (icache s ip))\<rparr>"

subsection \<open>The on-disk structures\<close>

definition le16 :: "ushort \<Rightarrow> byte list" where
  "le16 w = [ucast w, ucast (drop_bit 8 w)]"

definition get16 :: "byte list \<Rightarrow> nat \<Rightarrow> ushort" where
  "get16 bs i = ucast (bs ! i) OR push_bit 8 (ucast (bs ! (i + 1)))"

definition get_superblock :: "byte list \<Rightarrow> superblock" where
  "get_superblock bs = \<lparr>sb_size = get32 bs 0, nblocks = get32 bs 4, ninodes = get32 bs 8, nlog = get32 bs 12,
     logstart = get32 bs 16, inodestart = get32 bs 20, bmapstart = get32 bs 24\<rparr>"

text \<open>A \<^verbatim>\<open>struct dinode\<close> is 64 bytes; \<open>o\<close> is its offset in the block.\<close>

definition get_dinode :: "byte list \<Rightarrow> nat \<Rightarrow> inode \<Rightarrow> inode" where
  "get_dinode bs k ip = ip\<lparr>itype := get16 bs k, imajor := get16 bs (k + 2), iminor := get16 bs (k + 4),
     inlink := get16 bs (k + 6), isize := get32 bs (k + 8), iaddrs := map (\<lambda>i. get32 bs (k + 12 + 4 * i)) [0..<NDIRECT + 1]\<rparr>"

definition dinode_bytes :: "inode \<Rightarrow> byte list" where
  "dinode_bytes ip = le16 (itype ip) @ le16 (imajor ip) @ le16 (iminor ip) @ le16 (inlink ip) @ le32 (isize ip) @
     concat (map le32 (iaddrs ip))"

definition IBLOCK :: "uint \<Rightarrow> superblock \<Rightarrow> uint" where
  "IBLOCK i sbl = i div 8 + inodestart sbl"

definition BBLOCK :: "uint \<Rightarrow> superblock \<Rightarrow> uint" where
  "BBLOCK b sbl = b div 4096 + bmapstart sbl"

definition dinode_off :: "uint \<Rightarrow> nat" where
  "dinode_off no = unat (no mod 8) * 64"

subsection \<open>Superblock and blocks\<close>

definition readsb :: "uint \<Rightarrow> 'a logst_scheme \<Rightarrow> (superblock \<times> 'a logst_scheme) res" where
  "readsb dev s = andThen (bread dev 1 s) (\<lambda>(bp, s1).
     let r = get_superblock (data (bufs s1 bp)) in andThen (brelse bp s1) (\<lambda>s2. Inr (r, s2)))"

definition initlog :: "uint \<Rightarrow> 'a logst_scheme \<Rightarrow> 'a logst_scheme res" where
  "initlog dev s = andThen (readsb dev s) (\<lambda>(r, s1).
     recover_from_log (s1\<lparr>lstart := logstart r, lsize := sint (nlog r), ldev := dev\<rparr>))"

text \<open>Modify the held buffer, log it, release it: the usual end of a block update.\<close>

definition bupdate :: "nat \<Rightarrow> (byte list \<Rightarrow> byte list) \<Rightarrow> 'a logst_scheme \<Rightarrow> 'a logst_scheme res" where
  "bupdate bp f s = andThen (log_write bp (buf_update bp (\<lambda>bf. bf\<lparr>data := f (data bf)\<rparr>) s)) (brelse bp)"

definition bzero :: "uint \<Rightarrow> uint \<Rightarrow> 'a logst_scheme \<Rightarrow> 'a logst_scheme res" where
  "bzero dev bno s = andThen (bread dev bno s) (\<lambda>(bp, s1). bupdate bp (\<lambda>_. replicate BSIZE 0) s1)"

definition bit_set :: "byte list \<Rightarrow> nat \<Rightarrow> bool" where
  "bit_set bs bi \<longleftrightarrow> (bs ! (bi div 8)) AND push_bit (bi mod 8) 1 \<noteq> 0"

definition set_bit_in :: "nat \<Rightarrow> byte list \<Rightarrow> byte list" where
  "set_bit_in bi bs = bs[bi div 8 := (bs ! (bi div 8)) OR push_bit (bi mod 8) 1]"

definition clear_bit_in :: "nat \<Rightarrow> byte list \<Rightarrow> byte list" where
  "clear_bit_in bi bs = bs[bi div 8 := (bs ! (bi div 8)) AND NOT (push_bit (bi mod 8) 1)]"

text \<open>The inner loop of \<^verbatim>\<open>balloc\<close>: \<open>k\<close> bits are left to look at, from bit \<open>bi\<close> on.\<close>

fun free_bit :: "nat \<Rightarrow> nat \<Rightarrow> byte list \<Rightarrow> nat option" where
  "free_bit 0 bi bs = None"
| "free_bit (Suc k) bi bs = (if \<not> bit_set bs bi then Some bi else free_bit k (bi + 1) bs)"

text \<open>The outer loop: \<open>k\<close> bitmap blocks are left, the next one describes blocks \<open>b\<close> to \<open>b + BPB - 1\<close>.\<close>

fun balloc_loop :: "nat \<Rightarrow> nat \<Rightarrow> uint \<Rightarrow> 'a fsys_scheme \<Rightarrow> (uint \<times> 'a fsys_scheme) res" where
  "balloc_loop 0 b dev s = panic ''balloc: out of blocks''"
| "balloc_loop (Suc k) b dev s =
     andThen (bread dev (BBLOCK (of_nat b) (sb s)) s) (\<lambda>(bp, s1).
       case free_bit (min BPB (unat (sb_size (sb s1)) - b)) 0 (data (bufs s1 bp)) of
         Some bi \<Rightarrow> andThen (bupdate bp (set_bit_in bi) s1) (\<lambda>s2.
                    andThen (bzero dev (of_nat (b + bi)) s2) (\<lambda>s3. Inr (of_nat (b + bi), s3)))
       | None \<Rightarrow> andThen (brelse bp s1) (balloc_loop k (b + BPB) dev))"

definition balloc :: "uint \<Rightarrow> 'a fsys_scheme \<Rightarrow> (uint \<times> 'a fsys_scheme) res" where
  "balloc dev s = balloc_loop ((unat (sb_size (sb s)) + BPB - 1) div BPB) 0 dev s"

definition bfree :: "uint \<Rightarrow> uint \<Rightarrow> 'a fsys_scheme \<Rightarrow> 'a fsys_scheme res" where
  "bfree dev b s =
     andThen (bread dev (BBLOCK b (sb s)) s) (\<lambda>(bp, s1).
       let bi = unat (b mod 4096)
       in if \<not> bit_set (data (bufs s1 bp)) bi then panic ''freeing free block''
          else bupdate bp (clear_bit_in bi) s1)"

subsection \<open>Inodes\<close>

fun iinit_locks :: "nat \<Rightarrow> nat \<Rightarrow> (nat \<Rightarrow> inode) \<Rightarrow> nat \<Rightarrow> inode" where
  "iinit_locks 0 i t = t"
| "iinit_locks (Suc k) i t = iinit_locks k (i + 1) (t(i := (t i)\<lparr>ilck := initsleeplock\<rparr>))"

definition iinit :: "uint \<Rightarrow> 'a fsys_scheme \<Rightarrow> 'a fsys_scheme res" where
  "iinit dev s =
     andThen (readsb dev (s\<lparr>icache := iinit_locks NINODE 0 (icache s)\<rparr>)) (\<lambda>(r, s1).
     andThen (cprintf (cstr ''sb: size %d nblocks %d ninodes %d nlog %d logstart %d inodestart %d bmap start %d'' @ [0x0a])
                (map ArgInt [sb_size r, nblocks r, ninodes r, nlog r, logstart r, inodestart r, bmapstart r]) (con s1))
       (\<lambda>c. Inr (s1\<lparr>sb := r, con := c\<rparr>)))"

text \<open>The search of \<^verbatim>\<open>iget\<close>: the cached entry, or the first empty one.\<close>

fun iget_scan :: "nat \<Rightarrow> nat \<Rightarrow> (nat \<Rightarrow> inode) \<Rightarrow> uint \<Rightarrow> uint \<Rightarrow> nat option \<Rightarrow> nat option \<times> nat option" where
  "iget_scan 0 i t dev no emp = (None, emp)"
| "iget_scan (Suc k) i t dev no emp =
     (if iref (t i) > 0 \<and> idev (t i) = dev \<and> inum (t i) = no then (Some i, emp)
      else iget_scan k (i + 1) t dev no (if emp = None \<and> iref (t i) = 0 then Some i else emp))"

definition iget :: "uint \<Rightarrow> uint \<Rightarrow> 'a fsys_scheme \<Rightarrow> (nat \<times> 'a fsys_scheme) res" where
  "iget dev no s =
     (case iget_scan NINODE 0 (icache s) dev no None of
        (Some ip, _) \<Rightarrow> Inr (ip, inode_update ip (\<lambda>i. i\<lparr>iref := iref i + 1\<rparr>) s)
      | (None, None) \<Rightarrow> panic ''iget: no inodes''
      | (None, Some ip) \<Rightarrow> Inr (ip, inode_update ip (\<lambda>i. i\<lparr>idev := dev, inum := no, iref := 1, ivalid := False\<rparr>) s))"

text \<open>\<open>k\<close> inode numbers are left, from \<open>no\<close> on.\<close>

fun ialloc_loop :: "nat \<Rightarrow> uint \<Rightarrow> uint \<Rightarrow> ushort \<Rightarrow> 'a fsys_scheme \<Rightarrow> (nat \<times> 'a fsys_scheme) res" where
  "ialloc_loop 0 no dev ty s = panic ''ialloc: no inodes''"
| "ialloc_loop (Suc k) no dev ty s =
     andThen (bread dev (IBLOCK no (sb s)) s) (\<lambda>(bp, s1).
       if get16 (data (bufs s1 bp)) (dinode_off no) = 0
       then andThen (bupdate bp (splice (dinode_off no) (le16 ty @ replicate 62 0)) s1) (iget dev no)
       else andThen (brelse bp s1) (ialloc_loop k (no + 1) dev ty))"

definition ialloc :: "uint \<Rightarrow> ushort \<Rightarrow> 'a fsys_scheme \<Rightarrow> (nat \<times> 'a fsys_scheme) res" where
  "ialloc dev ty s = ialloc_loop (unat (ninodes (sb s)) - 1) 1 dev ty s"

definition iupdate :: "nat \<Rightarrow> 'a fsys_scheme \<Rightarrow> 'a fsys_scheme res" where
  "iupdate ip s =
     (let i = icache s ip
      in andThen (bread (idev i) (IBLOCK (inum i) (sb s)) s) (\<lambda>(bp, s1).
           bupdate bp (splice (dinode_off (inum i)) (dinode_bytes (icache s1 ip))) s1))"

definition idup :: "nat \<Rightarrow> 'a fsys_scheme \<Rightarrow> nat \<times> 'a fsys_scheme" where
  "idup ip s = (ip, inode_update ip (\<lambda>i. i\<lparr>iref := iref i + 1\<rparr>) s)"

definition ilock :: "nat \<Rightarrow> 'a fsys_scheme \<Rightarrow> 'a fsys_scheme res" where
  "ilock ip s =
     (if iref (icache s ip) < 1 then panic ''ilock''
      else andThen (acquiresleep (mypid s) (ilck (icache s ip))) (\<lambda>lk.
        let s0 = inode_update ip (\<lambda>i. i\<lparr>ilck := lk\<rparr>) s; i = icache s0 ip
        in if \<not> ivalid i
           then andThen (bread (idev i) (IBLOCK (inum i) (sb s0)) s0) (\<lambda>(bp, s1).
                let bs = data (bufs s1 bp)
                in andThen (brelse bp (inode_update ip (get_dinode bs (dinode_off (inum i))) s1)) (\<lambda>s2.
                   let s3 = inode_update ip (\<lambda>i. i\<lparr>ivalid := True\<rparr>) s2
                   in if itype (icache s3 ip) = 0 then panic ''ilock: no type'' else Inr s3))
           else Inr s0))"

definition iunlock :: "nat \<Rightarrow> 'a fsys_scheme \<Rightarrow> 'a fsys_scheme res" where
  "iunlock ip s =
     (if \<not> holdingsleep (mypid s) (ilck (icache s ip)) \<or> iref (icache s ip) < 1 then panic ''iunlock''
      else Inr (inode_update ip (\<lambda>i. i\<lparr>ilck := releasesleep (ilck i)\<rparr>) s))"

subsection \<open>File contents\<close>

definition set_addr :: "nat \<Rightarrow> nat \<Rightarrow> uint \<Rightarrow> 'a fsys_scheme \<Rightarrow> 'a fsys_scheme" where
  "set_addr ip i a = inode_update ip (\<lambda>n. n\<lparr>iaddrs := (iaddrs n)[i := a]\<rparr>)"

text \<open>The address in slot \<open>i\<close> of the inode, allocating a block if there is none.\<close>

definition bmap_slot :: "nat \<Rightarrow> nat \<Rightarrow> 'a fsys_scheme \<Rightarrow> (uint \<times> 'a fsys_scheme) res" where
  "bmap_slot ip i s =
     (if iaddrs (icache s ip) ! i = 0
      then andThen (balloc (idev (icache s ip)) s) (\<lambda>(a, s1). Inr (a, set_addr ip i a s1))
      else Inr (iaddrs (icache s ip) ! i, s))"

definition bmap :: "nat \<Rightarrow> uint \<Rightarrow> 'a fsys_scheme \<Rightarrow> (uint \<times> 'a fsys_scheme) res" where
  "bmap ip bn s =
     (if unat bn < NDIRECT then bmap_slot ip (unat bn) s
      else let bn = unat bn - NDIRECT
           in if bn < NINDIRECT
              then andThen (bmap_slot ip NDIRECT s) (\<lambda>(a, s1).
                   andThen (bread (idev (icache s1 ip)) a s1) (\<lambda>(bp, s2).
                     let a2 = get32 (data (bufs s2 bp)) (4 * bn)
                     in if a2 = 0
                        then andThen (balloc (idev (icache s2 ip)) s2) (\<lambda>(a3, s3).
                             andThen (bupdate bp (splice (4 * bn) (le32 a3)) s3) (\<lambda>s4. Inr (a3, s4)))
                        else andThen (brelse bp s2) (\<lambda>s3. Inr (a2, s3))))
              else panic ''bmap: out of range'')"

fun itrunc_direct :: "nat \<Rightarrow> nat \<Rightarrow> nat \<Rightarrow> 'a fsys_scheme \<Rightarrow> 'a fsys_scheme res" where
  "itrunc_direct 0 i ip s = Inr s"
| "itrunc_direct (Suc k) i ip s =
     (if iaddrs (icache s ip) ! i \<noteq> 0
      then andThen (bfree (idev (icache s ip)) (iaddrs (icache s ip) ! i) s) (\<lambda>s1. itrunc_direct k (i + 1) ip (set_addr ip i 0 s1))
      else itrunc_direct k (i + 1) ip s)"

fun itrunc_indirect :: "nat \<Rightarrow> nat \<Rightarrow> uint \<Rightarrow> nat \<Rightarrow> 'a fsys_scheme \<Rightarrow> 'a fsys_scheme res" where
  "itrunc_indirect 0 j dev bp s = Inr s"
| "itrunc_indirect (Suc k) j dev bp s =
     (let a = get32 (data (bufs s bp)) (4 * j)
      in if a \<noteq> 0 then andThen (bfree dev a s) (itrunc_indirect k (j + 1) dev bp)
         else itrunc_indirect k (j + 1) dev bp s)"

definition itrunc :: "nat \<Rightarrow> 'a fsys_scheme \<Rightarrow> 'a fsys_scheme res" where
  "itrunc ip s =
     andThen (itrunc_direct NDIRECT 0 ip s) (\<lambda>s1.
     andThen (let dev = idev (icache s1 ip); a = iaddrs (icache s1 ip) ! NDIRECT
              in if a \<noteq> 0
                 then andThen (bread dev a s1) (\<lambda>(bp, s2).
                      andThen (itrunc_indirect NINDIRECT 0 dev bp s2) (\<lambda>s3.
                      andThen (brelse bp s3) (\<lambda>s4.
                      andThen (bfree dev a s4) (\<lambda>s5. Inr (set_addr ip NDIRECT 0 s5)))))
                 else Inr s1)
       (\<lambda>s6. iupdate ip (inode_update ip (\<lambda>i. i\<lparr>isize := 0\<rparr>) s6)))"

definition iput :: "nat \<Rightarrow> 'a fsys_scheme \<Rightarrow> 'a fsys_scheme res" where
  "iput ip s =
     andThen (acquiresleep (mypid s) (ilck (icache s ip))) (\<lambda>lk.
       let s1 = inode_update ip (\<lambda>i. i\<lparr>ilck := lk\<rparr>) s
       in andThen (if ivalid (icache s1 ip) \<and> inlink (icache s1 ip) = 0 \<and> iref (icache s1 ip) = 1
                   then andThen (itrunc ip s1) (\<lambda>s2.
                        andThen (iupdate ip (inode_update ip (\<lambda>i. i\<lparr>itype := 0\<rparr>) s2)) (\<lambda>s3.
                        Inr (inode_update ip (\<lambda>i. i\<lparr>ivalid := False\<rparr>) s3)))
                   else Inr s1)
            (\<lambda>s4. Inr (inode_update ip (\<lambda>i. i\<lparr>ilck := releasesleep (ilck i), iref := iref i - 1\<rparr>) s4)))"

definition iunlockput :: "nat \<Rightarrow> 'a fsys_scheme \<Rightarrow> 'a fsys_scheme res" where
  "iunlockput ip s = andThen (iunlock ip s) (iput ip)"

record stat =
  st_type :: ushort
  st_dev :: uint
  st_ino :: uint
  st_nlink :: ushort
  st_size :: uint

definition stati :: "nat \<Rightarrow> 'a fsys_scheme \<Rightarrow> stat" where
  "stati ip s = (let i = icache s ip in \<lparr>st_type = itype i, st_dev = idev i, st_ino = inum i, st_nlink = inlink i, st_size = isize i\<rparr>)"

text \<open>How many of \<open>n\<close> bytes at \<open>off\<close> lie in the block of \<open>off\<close>.\<close>

definition chunk :: "uint \<Rightarrow> nat \<Rightarrow> nat" where
  "chunk off n = min n (BSIZE - unat off mod BSIZE)"

lemma chunk_pos: "0 < n \<Longrightarrow> 0 < chunk off n"
  by (simp add: chunk_def)

function readi_loop :: "nat \<Rightarrow> uint \<Rightarrow> nat \<Rightarrow> 'a fsys_scheme \<Rightarrow> (byte list \<times> 'a fsys_scheme) res" where
  "readi_loop ip off n s =
     (if n = 0 then Inr ([], s)
      else andThen (bmap ip (off div 512) s) (\<lambda>(a, s1).
           andThen (bread (idev (icache s1 ip)) a s1) (\<lambda>(bp, s2).
             let bs = take (chunk off n) (drop (unat off mod BSIZE) (data (bufs s2 bp)))
             in andThen (brelse bp s2) (\<lambda>s3.
                andThen (readi_loop ip (off + of_nat (chunk off n)) (n - chunk off n) s3) (\<lambda>(r, s4). Inr (bs @ r, s4))))))"
  by pat_completeness auto
termination
  by (relation "measure (\<lambda>(ip, off, n, s). n)") (auto simp: chunk_pos)

text \<open>
  The console as a device. The count is a C \<^verbatim>\<open>int\<close>: a negative one reads and writes nothing.
\<close>

definition consoleread :: "nat \<Rightarrow> cint \<Rightarrow> 'a fsys_scheme \<Rightarrow> (cint \<times> byte list \<times> 'a fsys_scheme) res" where
  "consoleread ip n s =
     andThen (iunlock ip s) (\<lambda>s1.
     andThen (consoleread_loop (nat (sint n)) True (con s1)) (\<lambda>(r, c).
     andThen (ilock ip (s1\<lparr>con := c\<rparr>)) (\<lambda>s2.
       Inr (case r of None \<Rightarrow> (-1, [], s2) | Some bs \<Rightarrow> (of_nat (length bs), bs, s2)))))"

definition consolewrite :: "nat \<Rightarrow> byte list \<Rightarrow> 'a fsys_scheme \<Rightarrow> (cint \<times> 'a fsys_scheme) res" where
  "consolewrite ip bs s =
     andThen (iunlock ip s) (\<lambda>s1.
     andThen (consputs bs (con s1)) (\<lambda>c.
     andThen (ilock ip (s1\<lparr>con := c\<rparr>)) (\<lambda>s2. Inr (of_nat (length bs), s2))))"

definition consoleinit :: "'a fsys_scheme \<Rightarrow> 'a fsys_scheme" where
  "consoleinit s = s\<lparr>dev_write := (dev_write s)(1 := Some DrvConsole), dev_read := (dev_read s)(1 := Some DrvConsole)\<rparr>"

definition readi :: "nat \<Rightarrow> uint \<Rightarrow> uint \<Rightarrow> 'a fsys_scheme \<Rightarrow> (cint \<times> byte list \<times> 'a fsys_scheme) res" where
  "readi ip off n s =
     (let i = icache s ip
      in if itype i = T_DEV
         then (if sint (imajor i) < 0 \<or> sint (imajor i) \<ge> NDEV then Inr (-1, [], s)
               else case dev_read s (sint (imajor i)) of
                      None \<Rightarrow> Inr (-1, [], s)
                    | Some DrvConsole \<Rightarrow> consoleread ip n s)
         else if off > isize i \<or> off + n < off then Inr (-1, [], s)
         else let n1 = (if off + n > isize i then isize i - off else n)
              in andThen (readi_loop ip off (unat n1) s) (\<lambda>(bs, s1). Inr (n1, bs, s1)))"

function writei_loop :: "nat \<Rightarrow> byte list \<Rightarrow> uint \<Rightarrow> 'a fsys_scheme \<Rightarrow> (uint \<times> 'a fsys_scheme) res" where
  "writei_loop ip src off s =
     (if src = [] then Inr (off, s)
      else andThen (bmap ip (off div 512) s) (\<lambda>(a, s1).
           andThen (bread (idev (icache s1 ip)) a s1) (\<lambda>(bp, s2).
             let m = chunk off (length src)
             in andThen (bupdate bp (splice (unat off mod BSIZE) (take m src)) s2)
                  (\<lambda>s3. writei_loop ip (drop m src) (off + of_nat m) s3))))"
  by pat_completeness auto
termination
  by (relation "measure (\<lambda>(ip, src, off, s). length src)") (auto simp: chunk_pos)

declare readi_loop.simps [simp del] writei_loop.simps [simp del]

text \<open>\<open>src\<close> holds the \<open>n\<close> bytes to write.\<close>

definition writei :: "nat \<Rightarrow> byte list \<Rightarrow> uint \<Rightarrow> 'a fsys_scheme \<Rightarrow> (cint \<times> 'a fsys_scheme) res" where
  "writei ip src off s =
     (let i = icache s ip; n = of_nat (length src)
      in if itype i = T_DEV
         then (if sint (imajor i) < 0 \<or> sint (imajor i) \<ge> NDEV then Inr (-1, s)
               else case dev_write s (sint (imajor i)) of None \<Rightarrow> Inr (-1, s) | Some DrvConsole \<Rightarrow> consolewrite ip src s)
         else if off > isize i \<or> off + n < off then Inr (-1, s)
         else if off + n > of_nat (MAXFILE * BSIZE) then Inr (-1, s)
         else andThen (writei_loop ip src off s) (\<lambda>(off1, s1).
              if n > 0 \<and> off1 > isize (icache s1 ip)
              then andThen (iupdate ip (inode_update ip (\<lambda>i. i\<lparr>isize := off1\<rparr>) s1)) (\<lambda>s2. Inr (n, s2))
              else Inr (n, s1)))"

subsection \<open>Directories\<close>

text \<open>\<^verbatim>\<open>strncmp\<close> and \<^verbatim>\<open>strncpy\<close> on byte lists; a byte past the end of the list is the terminating zero.\<close>

definition cbyte :: "byte list \<Rightarrow> byte" where
  "cbyte s = (case s of [] \<Rightarrow> 0 | c # _ \<Rightarrow> c)"

fun list_strncmp :: "nat \<Rightarrow> byte list \<Rightarrow> byte list \<Rightarrow> int" where
  "list_strncmp 0 p q = 0"
| "list_strncmp (Suc n) p q =
     (if cbyte p \<noteq> 0 \<and> cbyte p = cbyte q then list_strncmp n (tl p) (tl q)
      else uint (cbyte p) - uint (cbyte q))"

definition namecmp :: "byte list \<Rightarrow> byte list \<Rightarrow> int" where
  "namecmp p q = list_strncmp DIRSIZ p q"

definition dirent_bytes :: "ushort \<Rightarrow> byte list \<Rightarrow> byte list" where
  "dirent_bytes no name = le16 no @ take DIRSIZ (takeWhile (\<lambda>c. c \<noteq> 0) name @ replicate DIRSIZ 0)"

fun dirlookup_loop :: "nat \<Rightarrow> uint \<Rightarrow> nat \<Rightarrow> byte list \<Rightarrow> 'a fsys_scheme \<Rightarrow> ((nat \<times> uint) option \<times> 'a fsys_scheme) res" where
  "dirlookup_loop 0 off dp name s = Inr (None, s)"
| "dirlookup_loop (Suc k) off dp name s =
     andThen (readi dp off 16 s) (\<lambda>(r, de, s1).
       if r \<noteq> 16 then panic ''dirlookup read''
       else if get16 de 0 = 0 then dirlookup_loop k (off + 16) dp name s1
       else if namecmp name (drop 2 de) = 0
       then andThen (iget (idev (icache s1 dp)) (ucast (get16 de 0)) s1) (\<lambda>(ip, s2). Inr (Some (ip, off), s2))
       else dirlookup_loop k (off + 16) dp name s1)"

definition dir_entries :: "uint \<Rightarrow> nat" where
  "dir_entries sz = (unat sz + 15) div 16"

text \<open>The result is the inode and the offset \<^verbatim>\<open>*poff\<close> of its entry.\<close>

definition dirlookup :: "nat \<Rightarrow> byte list \<Rightarrow> 'a fsys_scheme \<Rightarrow> ((nat \<times> uint) option \<times> 'a fsys_scheme) res" where
  "dirlookup dp name s =
     (if itype (icache s dp) \<noteq> T_DIR then panic ''dirlookup not DIR''
      else dirlookup_loop (dir_entries (isize (icache s dp))) 0 dp name s)"

fun empty_dirent :: "nat \<Rightarrow> uint \<Rightarrow> nat \<Rightarrow> 'a fsys_scheme \<Rightarrow> (uint \<times> 'a fsys_scheme) res" where
  "empty_dirent 0 off dp s = Inr (off, s)"
| "empty_dirent (Suc k) off dp s =
     andThen (readi dp off 16 s) (\<lambda>(r, de, s1).
       if r \<noteq> 16 then panic ''dirlink read''
       else if get16 de 0 = 0 then Inr (off, s1) else empty_dirent k (off + 16) dp s1)"

definition dirlink :: "nat \<Rightarrow> byte list \<Rightarrow> uint \<Rightarrow> 'a fsys_scheme \<Rightarrow> (cint \<times> 'a fsys_scheme) res" where
  "dirlink dp name no s =
     andThen (dirlookup dp name s) (\<lambda>(found, s1).
       case found of
         Some (ip, _) \<Rightarrow> andThen (iput ip s1) (\<lambda>s2. Inr (-1, s2))
       | None \<Rightarrow> andThen (empty_dirent (dir_entries (isize (icache s1 dp))) 0 dp s1) (\<lambda>(off, s2).
                 andThen (writei dp (dirent_bytes (ucast no) name) off s2) (\<lambda>(r, s3).
                   if r \<noteq> 16 then panic ''dirlink'' else Inr (0, s3))))"

subsection \<open>Paths\<close>

abbreviation (input) slash :: byte where "slash \<equiv> 47"

definition skipelem :: "byte list \<Rightarrow> (byte list \<times> byte list) option" where
  "skipelem path =
     (let p = dropWhile (\<lambda>c. c = slash) path
      in if p = [] then None
         else let elem = takeWhile (\<lambda>c. c \<noteq> slash) p
              in Some (dropWhile (\<lambda>c. c = slash) (dropWhile (\<lambda>c. c \<noteq> slash) p), take DIRSIZ elem))"

lemma skipelem_shorter: "skipelem path = Some (path', name) \<Longrightarrow> length path' < length path"
proof -
  assume a: "skipelem path = Some (path', name)"
  let ?p = "dropWhile (\<lambda>c. c = slash) path"
  have ne: "?p \<noteq> []" and path': "path' = dropWhile (\<lambda>c. c = slash) (dropWhile (\<lambda>c. c \<noteq> slash) ?p)"
    using a by (auto simp: skipelem_def Let_def split: if_splits)
  have "hd ?p \<noteq> slash" using ne hd_dropWhile [of "\<lambda>c. c = slash" path] by blast
  with ne have "length (dropWhile (\<lambda>c. c \<noteq> slash) ?p) < length ?p"
    by (cases ?p) (auto simp: le_imp_less_Suc length_dropWhile_le)
  moreover have "length path' \<le> length (dropWhile (\<lambda>c. c \<noteq> slash) ?p)" by (simp add: path' length_dropWhile_le)
  moreover have "length ?p \<le> length path" by (rule length_dropWhile_le)
  ultimately show ?thesis by linarith
qed

function namex_loop :: "bool \<Rightarrow> nat \<Rightarrow> byte list \<Rightarrow> byte list \<Rightarrow> 'a fsys_scheme \<Rightarrow> ((nat \<times> byte list) option \<times> 'a fsys_scheme) res" where
  "namex_loop parent ip path name s =
     (case skipelem path of
        None \<Rightarrow> if parent then andThen (iput ip s) (\<lambda>s1. Inr (None, s1)) else Inr (Some (ip, name), s)
      | Some (path1, name1) \<Rightarrow>
          andThen (ilock ip s) (\<lambda>s1.
            if itype (icache s1 ip) \<noteq> T_DIR then andThen (iunlockput ip s1) (\<lambda>s2. Inr (None, s2))
            else if parent \<and> path1 = [] then andThen (iunlock ip s1) (\<lambda>s2. Inr (Some (ip, name1), s2))
            else andThen (dirlookup ip name1 s1) (\<lambda>(found, s2).
                 case found of
                   None \<Rightarrow> andThen (iunlockput ip s2) (\<lambda>s3. Inr (None, s3))
                 | Some (nxt, _) \<Rightarrow> andThen (iunlockput ip s2) (namex_loop parent nxt path1 name1))))"
  by pat_completeness auto
termination
  by (relation "measure (\<lambda>(parent, ip, path, name, s). length path)") (auto simp: skipelem_shorter)

declare namex_loop.simps [simp del]

text \<open>\<open>cwd\<close> is \<^verbatim>\<open>myproc()->cwd\<close>.\<close>

definition namex :: "nat \<Rightarrow> byte list \<Rightarrow> bool \<Rightarrow> 'a fsys_scheme \<Rightarrow> ((nat \<times> byte list) option \<times> 'a fsys_scheme) res" where
  "namex cwd path parent s =
     andThen (if cbyte path = slash then iget ROOTDEV ROOTINO s else Inr (idup cwd s))
       (\<lambda>(ip, s1). namex_loop parent ip path [] s1)"

definition namei :: "nat \<Rightarrow> byte list \<Rightarrow> 'a fsys_scheme \<Rightarrow> (nat option \<times> 'a fsys_scheme) res" where
  "namei cwd path s = andThen (namex cwd path False s) (\<lambda>(r, s1). Inr (map_option fst r, s1))"

definition nameiparent :: "nat \<Rightarrow> byte list \<Rightarrow> 'a fsys_scheme \<Rightarrow> ((nat \<times> byte list) option \<times> 'a fsys_scheme) res" where
  "nameiparent cwd path s = namex cwd path True s"

end
