(* ===== verification/Pipe.thy ===== *)
theory Pipe
  imports Memory
begin

text \<open>
  The ring buffer of a pipe (\<^verbatim>\<open>pipe.c\<close>) and the queue it implements. One call of \<^verbatim>\<open>pipewrite\<close> or
  \<^verbatim>\<open>piperead\<close> under the pipe's lock runs until it returns or sleeps; a sleeping writer remembers the
  bytes it has still to write and resumes with them. \<open>killed\<close> is \<^verbatim>\<open>myproc()->killed\<close>.
  The two counters are 32-bit words that wrap around.
\<close>

abbreviation (input) PIPESIZE :: nat where "PIPESIZE \<equiv> 512"

record pipe =
  pdata :: "byte list"
  nread :: uint
  nwrite :: uint
  readopen :: bool
  writeopen :: bool

datatype write_outcome = WDone pipe | WFail pipe | WSleep "byte list" pipe
datatype read_outcome = RDone "byte list" pipe | RFail pipe | RSleep pipe

definition pipe_init :: "byte list \<Rightarrow> pipe" where
  "pipe_init junk = \<lparr>pdata = junk, nread = 0, nwrite = 0, readopen = True, writeopen = True\<rparr>"

definition pipe_put :: "byte \<Rightarrow> pipe \<Rightarrow> pipe" where
  "pipe_put c p = p\<lparr>pdata := (pdata p)[unat (nwrite p mod 512) := c], nwrite := nwrite p + 1\<rparr>"

definition pipe_get :: "pipe \<Rightarrow> byte \<times> pipe" where
  "pipe_get p = (pdata p ! unat (nread p mod 512), p\<lparr>nread := nread p + 1\<rparr>)"

fun pipewrite :: "bool \<Rightarrow> byte list \<Rightarrow> pipe \<Rightarrow> write_outcome" where
  "pipewrite killed [] p = WDone p"
| "pipewrite killed (c # cs) p =
     (if nwrite p = nread p + 512
      then if \<not> readopen p \<or> killed then WFail p else WSleep (c # cs) p
      else pipewrite killed cs (pipe_put c p))"

fun piperead_copy :: "nat \<Rightarrow> pipe \<Rightarrow> byte list \<times> pipe" where
  "piperead_copy 0 p = ([], p)"
| "piperead_copy (Suc n) p =
     (if nread p = nwrite p then ([], p)
      else let (c, p1) = pipe_get p; (cs, p2) = piperead_copy n p1 in (c # cs, p2))"

definition piperead :: "bool \<Rightarrow> nat \<Rightarrow> pipe \<Rightarrow> read_outcome" where
  "piperead killed n p =
     (if nread p = nwrite p \<and> writeopen p
      then if killed then RFail p else RSleep p
      else let (cs, p1) = piperead_copy n p in RDone cs p1)"

definition pipe_shut :: "bool \<Rightarrow> pipe \<Rightarrow> pipe" where
  "pipe_shut writable p = (if writable then p\<lparr>writeopen := False\<rparr> else p\<lparr>readopen := False\<rparr>)"

subsection \<open>Bounded queues\<close>

text \<open>What the two ends of a pipe rely on: a queue of bounded capacity.\<close>

locale bounded_queue =
  fixes put :: "'a \<Rightarrow> 'q \<Rightarrow> 'q" and get :: "'q \<Rightarrow> 'a \<times> 'q" and is_full :: "'q \<Rightarrow> bool" and is_empty :: "'q \<Rightarrow> bool"
    and invar :: "'q \<Rightarrow> bool" and contents :: "'q \<Rightarrow> 'a list" and capacity :: nat
  assumes put: "invar q \<Longrightarrow> \<not> is_full q \<Longrightarrow> invar (put c q) \<and> contents (put c q) = contents q @ [c]"
    and get: "invar q \<Longrightarrow> \<not> is_empty q \<Longrightarrow> invar (snd (get q)) \<and> contents q = fst (get q) # contents (snd (get q))"
    and full: "invar q \<Longrightarrow> is_full q \<longleftrightarrow> length (contents q) = capacity"
    and empty: "invar q \<Longrightarrow> is_empty q \<longleftrightarrow> contents q = []"
    and bound: "invar q \<Longrightarrow> length (contents q) \<le> capacity"
begin

lemma get_put_single:
  assumes "invar q" "is_empty q" "0 < capacity"
  shows "fst (get (put c q)) = c" and "contents (snd (get (put c q))) = []"
proof -
  have ne: "contents q = []" using assms empty by blast
  then have "\<not> is_full q" using full assms by simp
  with put assms(1) ne have p: "invar (put c q)" "contents (put c q) = [c]" by auto
  then have "\<not> is_empty (put c q)" using empty by simp
  with get p show "fst (get (put c q)) = c" "contents (snd (get (put c q))) = []" by fastforce+
qed

end

subsection \<open>The pipe is a bounded queue\<close>

definition pipe_len :: "pipe \<Rightarrow> nat" where
  "pipe_len p = unat (nwrite p - nread p)"

definition pipe_ok :: "pipe \<Rightarrow> bool" where
  "pipe_ok p \<longleftrightarrow> length (pdata p) = PIPESIZE \<and> pipe_len p \<le> PIPESIZE"

definition pipe_bytes :: "pipe \<Rightarrow> byte list" where
  "pipe_bytes p = map (\<lambda>k. pdata p ! unat ((nread p + of_nat k) mod 512)) [0..<pipe_len p]"

lemma unat_mod512: "unat ((w :: uint) mod 512) = unat w mod 512"
  by (simp add: unat_mod)

lemma mod512_add: "unat ((w + of_nat k :: uint) mod 512) = (unat w + k) mod 512"
proof -
  have "(512 :: nat) dvd 2 ^ 32" by simp
  then show ?thesis
    by (simp add: unat_mod unat_word_ariths unat_of_nat mod_mod_cancel mod_add_right_eq)
qed

lemma slot_apart:
  assumes "k < l" "l < 512"
  shows "(a + k) mod 512 \<noteq> (a + l) mod (512 :: nat)"
proof
  assume "(a + k) mod 512 = (a + l) mod 512"
  then have "512 dvd (a + l) - (a + k)" using assms(1) by (subst mod_eq_dvd_iff_nat [symmetric]) simp_all
  then have "512 dvd l - k" by simp
  moreover have "0 < l - k" "l - k < 512" using assms by simp_all
  ultimately show False by (metis nat_dvd_not_less)
qed

definition pipe_full :: "pipe \<Rightarrow> bool" where
  "pipe_full p \<longleftrightarrow> nwrite p = nread p + 512"

definition pipe_empty :: "pipe \<Rightarrow> bool" where
  "pipe_empty p \<longleftrightarrow> nread p = nwrite p"

lemma length_pipe_bytes [simp]: "length (pipe_bytes p) = pipe_len p"
  by (simp add: pipe_bytes_def)

lemma pipe_full_len: "pipe_full p \<longleftrightarrow> pipe_len p = PIPESIZE"
proof -
  have "pipe_len p = PIPESIZE \<longleftrightarrow> nwrite p - nread p = 512" by (simp add: pipe_len_def word_unat_eq_iff)
  then show ?thesis by (auto simp: pipe_full_def algebra_simps)
qed

lemma pipe_empty_len: "pipe_empty p \<longleftrightarrow> pipe_len p = 0"
  by (auto simp: pipe_empty_def pipe_len_def unat_eq_0)

lemma pipe_put_queue:
  assumes ok: "pipe_ok p" and nf: "\<not> pipe_full p"
  shows "pipe_ok (pipe_put c p)" and "pipe_bytes (pipe_put c p) = pipe_bytes p @ [c]"
proof -
  let ?n = "pipe_len p"
  have n: "?n < 512" and len: "length (pdata p) = 512" using ok nf by (auto simp: pipe_ok_def pipe_full_len)
  have "unat ((nwrite p - nread p) + 1) = Suc ?n"
    using n by (simp add: pipe_len_def unat_word_ariths)
  moreover have "nwrite (pipe_put c p) - nread (pipe_put c p) = (nwrite p - nread p) + 1" by (simp add: pipe_put_def)
  ultimately have len': "pipe_len (pipe_put c p) = Suc ?n" by (simp only: pipe_len_def)
  with n len show "pipe_ok (pipe_put c p)" by (simp add: pipe_ok_def pipe_put_def)
  have w: "nwrite p = nread p + of_nat ?n" by (simp add: pipe_len_def)
  have at: "pdata (pipe_put c p) ! unat ((nread p + of_nat k) mod 512) =
      (if k = ?n then c else pdata p ! unat ((nread p + of_nat k) mod 512))" if "k \<le> ?n" for k
  proof (cases "k = ?n")
    case True
    then show ?thesis using len by (simp add: pipe_put_def w [symmetric] unat_mod512)
  next
    case False
    with that n slot_apart [of k ?n "unat (nread p)"] show ?thesis
      unfolding mod512_add pipe_put_def by (simp add: w mod512_add)
  qed
  show "pipe_bytes (pipe_put c p) = pipe_bytes p @ [c]"
    unfolding pipe_bytes_def len' using at by (simp add: pipe_put_def)
qed

lemma pipe_get_queue:
  assumes ok: "pipe_ok p" and ne: "\<not> pipe_empty p"
  shows "pipe_ok (snd (pipe_get p))" and "pipe_bytes p = fst (pipe_get p) # pipe_bytes (snd (pipe_get p))"
proof -
  obtain n where n: "pipe_len p = Suc n" using ne by (cases "pipe_len p") (auto simp: pipe_empty_len)
  have "nwrite p - nread p \<noteq> 0" using n by (auto simp: pipe_len_def)
  then have "unat ((nwrite p - nread p) - 1) = n" using n by (simp add: unat_minus_one pipe_len_def)
  moreover have "nwrite (snd (pipe_get p)) - nread (snd (pipe_get p)) = (nwrite p - nread p) - 1" by (simp add: pipe_get_def)
  ultimately have len: "pipe_len (snd (pipe_get p)) = n" by (simp only: pipe_len_def)
  with ok n show "pipe_ok (snd (pipe_get p))" by (simp add: pipe_ok_def pipe_get_def)
  show "pipe_bytes p = fst (pipe_get p) # pipe_bytes (snd (pipe_get p))"
    unfolding pipe_bytes_def len n by (simp add: pipe_get_def upt_conv_Cons map_Suc_upt [symmetric] add.assoc del: upt_Suc)
qed

interpretation pipe: bounded_queue pipe_put pipe_get pipe_full pipe_empty pipe_ok pipe_bytes PIPESIZE
proof unfold_locales
  fix q c
  show "pipe_ok q \<Longrightarrow> \<not> pipe_full q \<Longrightarrow> pipe_ok (pipe_put c q) \<and> pipe_bytes (pipe_put c q) = pipe_bytes q @ [c]"
    using pipe_put_queue by blast
  show "pipe_ok q \<Longrightarrow> \<not> pipe_empty q \<Longrightarrow>
      pipe_ok (snd (pipe_get q)) \<and> pipe_bytes q = fst (pipe_get q) # pipe_bytes (snd (pipe_get q))"
    using pipe_get_queue by blast
  show "pipe_full q \<longleftrightarrow> length (pipe_bytes q) = PIPESIZE" by (simp add: pipe_full_len)
  show "pipe_empty q \<longleftrightarrow> pipe_bytes q = []" by (simp add: pipe_empty_len flip: length_0_conv)
  show "pipe_ok q \<Longrightarrow> length (pipe_bytes q) \<le> PIPESIZE" by (simp add: pipe_ok_def)
qed

subsection \<open>Reading and writing\<close>

lemma pipewrite_outcome:
  assumes "pipe_ok p"
  shows "case pipewrite killed cs p of
      WDone p' \<Rightarrow> pipe_ok p' \<and> pipe_bytes p' = pipe_bytes p @ cs \<and> readopen p' = readopen p \<and> writeopen p' = writeopen p
    | WFail p' \<Rightarrow> pipe_ok p' \<and> pipe_full p' \<and> (\<not> readopen p \<or> killed) \<and>
        (\<exists>taken rest. cs = taken @ rest \<and> rest \<noteq> [] \<and> pipe_bytes p' = pipe_bytes p @ taken)
    | WSleep rest p' \<Rightarrow> pipe_ok p' \<and> pipe_full p' \<and> readopen p \<and> \<not> killed \<and> rest \<noteq> [] \<and>
        (\<exists>taken. cs = taken @ rest \<and> pipe_bytes p' = pipe_bytes p @ taken)"
  using assms
proof (induction killed cs p rule: pipewrite.induct)
  case (1 killed p)
  then show ?case by simp
next
  case (2 killed c cs p)
  show ?case
  proof (cases "pipe_full p")
    case True
    with "2.prems" show ?thesis by (auto simp: pipe_full_def)
  next
    case False
    then have "nwrite p \<noteq> nread p + 512" by (simp add: pipe_full_def)
    moreover have "readopen (pipe_put c p) = readopen p" "writeopen (pipe_put c p) = writeopen p" by (simp_all add: pipe_put_def)
    moreover note 2(1) [OF \<open>nwrite p \<noteq> nread p + 512\<close> pipe_put_queue(1) [OF "2.prems" False]] pipe_put_queue(2) [OF "2.prems" False]
    ultimately show ?thesis by (auto split: write_outcome.splits)
  qed
qed

lemma piperead_copy_queue:
  assumes "pipe_ok p" "piperead_copy n p = (cs, p')"
  shows "pipe_ok p' \<and> pipe_bytes p = cs @ pipe_bytes p' \<and> length cs = min n (pipe_len p)"
  using assms
proof (induction n arbitrary: p cs p')
  case (Suc n)
  show ?case
  proof (cases "pipe_empty p")
    case True
    with Suc.prems show ?thesis using pipe_empty_len [of p] by (auto simp: pipe_empty_def)
  next
    case False
    obtain c p1 where g: "pipe_get p = (c, p1)" by fastforce
    obtain ds p2 where r: "piperead_copy n p1 = (ds, p2)" by fastforce
    have "cs = c # ds" "p' = p2" using Suc.prems(2) False g r by (auto simp: pipe_empty_def)
    moreover have "pipe_ok p1" "pipe_bytes p = c # pipe_bytes p1" using pipe_get_queue [OF Suc.prems(1) False] g by simp_all
    moreover have "pipe_len p = Suc (pipe_len p1)" using arg_cong [OF calculation(4), of length] by simp
    ultimately show ?thesis using Suc.IH [OF _ r] by simp
  qed
qed simp

text \<open>
  The reads and writes of any number of processes, in the order in which they hold the pipe's lock.
  \<open>pipe_run p ws rs p'\<close>: from \<open>p\<close> to \<open>p'\<close> the writers have put the bytes \<open>ws\<close>, in
  order, and the readers have received \<open>rs\<close>.
\<close>

inductive pipe_run :: "pipe \<Rightarrow> byte list \<Rightarrow> byte list \<Rightarrow> pipe \<Rightarrow> bool" where
  start: "pipe_run p [] [] p"
| wrote: "pipe_run p ws rs q \<Longrightarrow> pipewrite killed cs q = WDone q' \<Longrightarrow> pipe_run p (ws @ cs) rs q'"
| blocked: "pipe_run p ws rs q \<Longrightarrow> pipewrite killed (cs @ rest) q = WSleep rest q' \<Longrightarrow> pipe_run p (ws @ cs) rs q'"
| got: "pipe_run p ws rs q \<Longrightarrow> piperead killed n q = RDone cs q' \<Longrightarrow> pipe_run p ws (rs @ cs) q'"
| shut: "pipe_run p ws rs q \<Longrightarrow> pipe_run p ws rs (pipe_shut w q)"

lemma piperead_outcome:
  assumes "pipe_ok p"
  shows "case piperead killed n p of
      RDone cs p' \<Rightarrow> pipe_ok p' \<and> pipe_bytes p = cs @ pipe_bytes p' \<and> length cs = min n (pipe_len p) \<and> (pipe_empty p \<longrightarrow> \<not> writeopen p)
    | RFail p' \<Rightarrow> p' = p \<and> pipe_empty p \<and> writeopen p \<and> killed
    | RSleep p' \<Rightarrow> p' = p \<and> pipe_empty p \<and> writeopen p \<and> \<not> killed"
  using piperead_copy_queue [OF assms, of n]
  by (auto simp: piperead_def pipe_empty_def split: prod.splits)

lemma pipe_shut_queue: "pipe_ok (pipe_shut w p) = pipe_ok p" "pipe_bytes (pipe_shut w p) = pipe_bytes p"
  by (simp_all add: pipe_shut_def pipe_ok_def pipe_bytes_def pipe_len_def)

lemma pipe_run_steps:
  assumes "pipe_ok p"
  shows "pipewrite killed cs p = WDone p' \<Longrightarrow> pipe_ok p' \<and> pipe_bytes p' = pipe_bytes p @ cs"
    and "pipewrite killed (cs @ rest) p = WSleep rest p' \<Longrightarrow> pipe_ok p' \<and> pipe_bytes p' = pipe_bytes p @ cs"
    and "piperead killed n p = RDone cs p' \<Longrightarrow> pipe_ok p' \<and> pipe_bytes p = cs @ pipe_bytes p'"
  using pipewrite_outcome [OF assms, where killed = killed and cs = cs]
    pipewrite_outcome [OF assms, where killed = killed and cs = "cs @ rest"]
    piperead_outcome [OF assms, where killed = killed and n = n] by auto

text \<open>C3: a pipe is a FIFO queue: whatever the interleaving of reads and writes, and however often
  the 32-bit counters wrap, what the readers have received followed by what is still in the
  buffer is what was in the buffer followed by what the writers have put, and at most 512 bytes are buffered.\<close>

theorem pipe_fifo:
  assumes "pipe_run p ws rs p'" and "pipe_ok p"
  shows "pipe_ok p' \<and> pipe_bytes p @ ws = rs @ pipe_bytes p'"
  using assms
proof (induction rule: pipe_run.induct)
  case wrote
  then show ?case using pipe_run_steps(1) by (metis append_assoc)
next
  case blocked
  then show ?case using pipe_run_steps(2) by (metis append_assoc)
next
  case got
  then show ?case using pipe_run_steps(3) by (metis append_assoc)
qed (simp_all add: pipe_shut_queue)

theorem pipe_fifo_witness:
  "\<exists>p'. pipe_run (pipe_init (replicate 512 0)) [1, 2, 3] [1, 2] p' \<and> pipe_ok p' \<and> pipe_bytes p' = [3]"
proof -
  let ?p = "pipe_init (replicate 512 0)"
  let ?q = "pipe_put 3 (pipe_put 2 (pipe_put 1 ?p))"
  let ?r = "snd (pipe_get (snd (pipe_get ?q)))"
  have ok: "pipe_ok ?p" and none: "pipe_bytes ?p = []" by (simp_all add: pipe_ok_def pipe_len_def pipe_init_def pipe_bytes_def)
  have "pipe_run ?p ([] @ [1, 2, 3]) [] ?q"
    by (rule pipe_run.wrote [OF pipe_run.start, where killed = False]) (simp add: pipe_init_def pipe_put_def)
  moreover have "piperead False (Suc (Suc 0)) ?q = RDone [1, 2] ?r"
    by (simp add: piperead_def pipe_get_def pipe_put_def pipe_init_def nth_list_update)
  ultimately have run: "pipe_run ?p [1, 2, 3] [1, 2] ?r"
    using pipe_run.got [of ?p "[1, 2, 3]" "[]" ?q False "Suc (Suc 0)" "[1, 2]" ?r] by simp
  with pipe_fifo [OF run ok] none show ?thesis by (intro exI [of _ ?r]) simp
qed

end
