(* ===== verification/Kalloc.thy ===== *)
theory Kalloc
  imports Memory
begin

text \<open>
  The physical page allocator, \<^verbatim>\<open>kalloc.c\<close>. Free pages form a linked list threaded through
  the pages themselves: the first word of a free page is the kernel virtual address of the
  next one. \<^verbatim>\<open>kmem.lock\<close> makes each body one atomic step, so the state here is the one
  between critical sections. The list is refined to an abstract list of free pages, and the
  contract clients rely on is the locale \<open>page_allocator\<close>.
\<close>

text \<open>
  \<open>pmem\<close> is physical memory. \<open>kend\<close> and \<open>kdata\<close> are the linker symbols \<^verbatim>\<open>end\<close>, the first
  address after the kernel image, and \<^verbatim>\<open>data\<close>, where its writable part starts. Kernel virtual addresses reach physical memory through \<^const>\<open>V2P\<close>.
\<close>

record kmem =
  pmem :: mem
  freelist :: uint
  use_lock :: bool
  kend :: uint
  kdata :: uint

subsection \<open>Operations\<close>

definition kfree :: "uint \<Rightarrow> kmem \<Rightarrow> kmem res" where
  "kfree v k =
     (if v mod PGSIZE \<noteq> 0 \<or> v < kend k \<or> V2P v \<ge> PHYSTOP then panic ''kfree''
      else let m = memset (V2P v) 1 PGSIZE (pmem k)
           in Inr (k\<lparr>pmem := store32 m (V2P v) (freelist k), freelist := v\<rparr>))"

definition kalloc :: "kmem \<Rightarrow> uint \<times> kmem" where
  "kalloc k =
     (let r = freelist k
      in if r \<noteq> 0 then (r, k\<lparr>freelist := load32 (pmem k) (V2P r)\<rparr>) else (r, k))"

text \<open>
  The loop of \<^verbatim>\<open>freerange\<close>. It ends because \<^const>\<open>kfree\<close> accepts only pages below
  \<open>PHYSTOP\<close>, so an accepted page never wraps when stepped.
\<close>

lemma kfree_Inr_bound:
  assumes "kfree v k = Inr k'"
  shows "unat v + 4096 < 2 ^ 32"
proof (rule ccontr)
  assume "\<not> unat v + 4096 < 2 ^ 32"
  then have "unat KERNBASE \<le> unat v" by simp
  then have "unat (V2P v) = unat v - 0x80000000"
    by (simp add: V2P_def unat_sub_if')
  moreover have "unat (V2P v) < 0xE000000"
    using assms by (simp add: kfree_def word_less_nat_alt not_le split: if_splits)
  ultimately show False using \<open>\<not> unat v + 4096 < 2 ^ 32\<close> by simp
qed

function freerange_loop :: "uint \<Rightarrow> uint \<Rightarrow> kmem \<Rightarrow> kmem res" where
  "freerange_loop p vend k =
     (if p + PGSIZE \<le> vend
      then andThen (kfree p k) (\<lambda>k'. freerange_loop (p + PGSIZE) vend k')
      else Inr k)"
  by pat_completeness auto
termination
proof (relation "measure (\<lambda>(p, vend, k). 2 ^ 32 - unat p)")
  fix p vend :: uint and k k' :: kmem
  assume "kfree p k = Inr k'"
  then have "unat p + 4096 < 2 ^ 32" by (rule kfree_Inr_bound)
  then show "((p + PGSIZE, vend, k'), p, vend, k) \<in> measure (\<lambda>(p, vend, k). 2 ^ 32 - unat p)"
    by (simp add: unat_plus_if')
qed simp

declare freerange_loop.simps [simp del]

definition freerange :: "uint \<Rightarrow> uint \<Rightarrow> kmem \<Rightarrow> kmem res" where
  "freerange vstart vend k = freerange_loop (PGROUNDUP vstart) vend k"

definition kinit1 :: "uint \<Rightarrow> uint \<Rightarrow> kmem \<Rightarrow> kmem res" where
  "kinit1 vstart vend k = freerange vstart vend (k\<lparr>use_lock := False\<rparr>)"

definition kinit2 :: "uint \<Rightarrow> uint \<Rightarrow> kmem \<Rightarrow> kmem res" where
  "kinit2 vstart vend k = andThen (freerange vstart vend k) (\<lambda>k. Inr (k\<lparr>use_lock := True\<rparr>))"

subsection \<open>The contract clients rely on\<close>

text \<open>
  \<open>avail s xs\<close> says the free pages of \<open>s\<close> are \<open>xs\<close>, next one first; \<open>page s x\<close> that \<open>x\<close>
  is an address the allocator may manage.
\<close>

locale page_allocator =
  fixes alloc :: "'s \<Rightarrow> uint \<times> 's"
    and free :: "uint \<Rightarrow> 's \<Rightarrow> 's res"
    and avail :: "'s \<Rightarrow> uint list \<Rightarrow> bool"
    and page :: "'s \<Rightarrow> uint \<Rightarrow> bool"
  assumes alloc_empty: "avail s [] \<Longrightarrow> alloc s = (0, s)"
    and alloc_cons: "avail s (x # xs) \<Longrightarrow> \<exists>s'. alloc s = (x, s') \<and> avail s' xs \<and> page s' = page s"
    and avail_distinct: "avail s xs \<Longrightarrow> distinct xs"
    and avail_page: "avail s xs \<Longrightarrow> x \<in> set xs \<Longrightarrow> page s x"
    and page_nonnull: "page s x \<Longrightarrow> x \<noteq> 0"
    and free_page: "avail s xs \<Longrightarrow> page s x \<Longrightarrow> x \<notin> set xs \<Longrightarrow>
      \<exists>s'. free x s = Inr s' \<and> avail s' (x # xs) \<and> page s' = page s"
    and free_foreign: "\<not> page s x \<Longrightarrow> \<exists>e. free x s = Inl e"
begin

lemma alloc_null_iff:
  assumes "avail s xs"
  shows "fst (alloc s) = 0 \<longleftrightarrow> xs = []"
proof (cases xs)
  case Nil
  with assms show ?thesis by (simp add: alloc_empty)
next
  case (Cons x ys)
  with assms have "x \<noteq> 0" using avail_page page_nonnull by fastforce
  moreover from Cons assms alloc_cons [of s x ys] have "fst (alloc s) = x" by auto
  ultimately show ?thesis using Cons by simp
qed

lemma alloc_fresh:
  assumes "avail s xs" and "alloc s = (r, s')" and "r \<noteq> 0"
  shows "\<exists>ys. xs = r # ys \<and> avail s' ys \<and> r \<notin> set ys \<and> page s' r \<and> page s' = page s"
proof -
  from assms have "xs \<noteq> []" using alloc_null_iff [OF assms(1)] by auto
  then obtain x ys where xs: "xs = x # ys" by (cases xs) auto
  from alloc_cons [of s x ys] assms(1,2) xs have "r = x" "avail s' ys" "page s' = page s" by auto
  moreover have "x \<notin> set ys" using avail_distinct [OF assms(1)] xs by simp
  moreover have "page s x" using avail_page [OF assms(1)] xs by simp
  ultimately show ?thesis using xs by simp
qed

lemma alloc_distinct:
  assumes "avail s xs" and "alloc s = (r, s')" and "alloc s' = (r', s'')" and "r \<noteq> 0" and "r' \<noteq> 0"
  shows "r \<noteq> r'"
proof -
  from alloc_fresh [OF assms(1,2,4)] obtain ys where "avail s' ys" "r \<notin> set ys" by blast
  with alloc_fresh [OF _ assms(3,5), of ys] show ?thesis by auto
qed

lemma alloc_free_restores:
  assumes "avail s xs" and "alloc s = (r, s')" and "r \<noteq> 0"
  shows "\<exists>s''. free r s' = Inr s'' \<and> avail s'' xs"
proof -
  from alloc_fresh [OF assms] obtain ys where "xs = r # ys" "avail s' ys" "r \<notin> set ys" "page s' r"
    by blast
  with free_page [of s' ys r] show ?thesis by auto
qed

end

subsection \<open>The free list implements it\<close>

definition kpage :: "kmem \<Rightarrow> uint \<Rightarrow> bool" where
  "kpage k v \<longleftrightarrow> v mod PGSIZE = 0 \<and> kend k \<le> v \<and> V2P v < PHYSTOP"

fun chain :: "mem \<Rightarrow> uint \<Rightarrow> uint list \<Rightarrow> bool" where
  "chain m p [] = (p = 0)"
| "chain m p (x # xs) = (p = x \<and> chain m (load32 m (V2P x)) xs)"

definition free_pages :: "kmem \<Rightarrow> uint list \<Rightarrow> bool" where
  "free_pages k xs \<longleftrightarrow>
     chain (pmem k) (freelist k) xs \<and> distinct xs \<and> (\<forall>x \<in> set xs. kpage k x)"

lemma kpage_bounds:
  assumes "kpage k v"
  shows "unat (V2P v) mod 4096 = 0" and "unat (V2P v) < 0xE000000"
    and "unat v = unat (V2P v) + 0x80000000" and "v \<noteq> 0"
proof -
  from assms show lt: "unat (V2P v) < 0xE000000"
    by (simp add: kpage_def word_less_nat_alt)
  then have "unat (P2V (V2P v)) = unat (V2P v) + 0x80000000"
    unfolding P2V_def by (subst unat_plus_if') simp
  then show v: "unat v = unat (V2P v) + 0x80000000" by simp
  then show "v \<noteq> 0" by auto
  from assms have "unat v mod 4096 = 0"
    using unat_mod [of v PGSIZE] by (simp add: kpage_def)
  moreover have "unat v = unat (V2P v) + 4096 * 524288" using v by simp
  ultimately show "unat (V2P v) mod 4096 = 0" by (metis mod_mult_self2)
qed

lemma kfree_guard:
  "v mod PGSIZE \<noteq> 0 \<or> v < kend k \<or> V2P v \<ge> PHYSTOP \<longleftrightarrow> \<not> kpage k v"
  unfolding kpage_def by (meson not_le)

lemma kfree_Inr_iff:
  "kfree v k = Inr k' \<longleftrightarrow> kpage k v \<and>
     k' = k\<lparr>pmem := store32 (memset (V2P v) 1 PGSIZE (pmem k)) (V2P v) (freelist k), freelist := v\<rparr>"
  unfolding kfree_def kfree_guard by (auto simp: Let_def)

lemma kfree_foreign: "\<not> kpage k v \<Longrightarrow> kfree v k = panic ''kfree''"
  unfolding kfree_def kfree_guard by simp

lemma kfree_agree_off:
  assumes "kfree v k = Inr k'"
  shows "agree_off (V2P v) (pmem k) (pmem k')"
proof -
  have "agree_off (V2P v) (memset (V2P v) 1 PGSIZE (pmem k)) (pmem k')"
    using assms store32_agree_off [of 0 "V2P v"] by (simp add: kfree_Inr_iff)
  then show ?thesis using agree_off_memset agree_off_trans by blast
qed

lemma chain_agree_off:
  assumes "agree_off (V2P v) m m'" and "kpage k v" and "v \<notin> set xs" and "\<forall>x \<in> set xs. kpage k x"
  shows "chain m' p xs = chain m p xs"
  using assms(3,4)
proof (induction xs arbitrary: p)
  case Nil
  then show ?case by simp
next
  case (Cons x xs)
  have "load32 m' (V2P x + 0) = load32 m (V2P x + 0)"
    using Cons.prems assms(1,2) kpage_bounds(1) by (intro load32_agree_off) auto
  with Cons show ?case by simp
qed

lemma kalloc_cons:
  assumes "free_pages k (x # xs)"
  shows "kalloc k = (x, k\<lparr>freelist := load32 (pmem k) (V2P x)\<rparr>)"
    and "free_pages (k\<lparr>freelist := load32 (pmem k) (V2P x)\<rparr>) xs"
proof -
  have "kpage k x" and "freelist k = x" using assms by (simp_all add: free_pages_def)
  then show "kalloc k = (x, k\<lparr>freelist := load32 (pmem k) (V2P x)\<rparr>)"
    using kpage_bounds(4) by (simp add: kalloc_def)
  show "free_pages (k\<lparr>freelist := load32 (pmem k) (V2P x)\<rparr>) xs"
    using assms by (simp add: free_pages_def kpage_def)
qed

lemma kfree_push:
  assumes "free_pages k xs" and "kpage k v" and "v \<notin> set xs"
  shows "\<exists>k'. kfree v k = Inr k' \<and> free_pages k' (v # xs) \<and> kpage k' = kpage k"
proof -
  obtain k' where k': "kfree v k = Inr k'" using assms(2) kfree_Inr_iff by blast
  then have fields: "freelist k' = v" "kend k' = kend k" "load32 (pmem k') (V2P v) = freelist k"
    by (simp_all add: kfree_Inr_iff)
  have same: "kpage k' = kpage k" using fields by (simp add: kpage_def fun_eq_iff)
  have "chain (pmem k') (freelist k) xs"
    using chain_agree_off [OF kfree_agree_off [OF k'] assms(2,3)] assms(1)
    by (simp add: free_pages_def)
  then have "free_pages k' (v # xs)"
    using assms fields same by (simp add: free_pages_def)
  with k' same show ?thesis by blast
qed

interpretation kalloc: page_allocator kalloc kfree free_pages kpage
proof unfold_locales
  fix s :: kmem and x :: uint and xs :: "uint list"
  show "free_pages s [] \<Longrightarrow> kalloc s = (0, s)"
    by (simp add: free_pages_def kalloc_def)
  show "\<exists>s'. kalloc s = (x, s') \<and> free_pages s' xs \<and> kpage s' = kpage s" if "free_pages s (x # xs)"
    using kalloc_cons [OF that] by (auto simp: kpage_def fun_eq_iff)
  show "free_pages s xs \<Longrightarrow> distinct xs"
    by (simp add: free_pages_def)
  show "free_pages s xs \<Longrightarrow> x \<in> set xs \<Longrightarrow> kpage s x"
    by (simp add: free_pages_def)
  show "kpage s x \<Longrightarrow> x \<noteq> 0"
    by (rule kpage_bounds(4))
  show "free_pages s xs \<Longrightarrow> kpage s x \<Longrightarrow> x \<notin> set xs \<Longrightarrow>
      \<exists>s'. kfree x s = Inr s' \<and> free_pages s' (x # xs) \<and> kpage s' = kpage s"
    by (rule kfree_push)
  show "\<not> kpage s x \<Longrightarrow> \<exists>e. kfree x s = Inl e"
    by (simp add: kfree_foreign)
qed

subsection \<open>freerange\<close>

definition range_pages :: "uint \<Rightarrow> nat \<Rightarrow> uint list" where
  "range_pages p n = map (\<lambda>i. p + of_nat i * PGSIZE) [0..<n]"

lemma range_pages_Suc: "range_pages p (Suc n) = p # range_pages (p + PGSIZE) n"
proof -
  have "range_pages p (Suc n) = p # map (\<lambda>i. p + of_nat (Suc i) * PGSIZE) [0..<n]"
    by (simp add: range_pages_def upt_conv_Cons map_Suc_upt [symmetric] del: upt_Suc)
  then show ?thesis by (simp add: range_pages_def algebra_simps)
qed

lemma in_range_pages:
  assumes "x \<in> set (range_pages p n)" and "unat p + n * 4096 < 2 ^ 32"
  shows "\<exists>i < n. unat x = unat p + i * 4096"
proof -
  from assms(1) obtain i where i: "i < n" "x = p + of_nat i * PGSIZE"
    by (auto simp: range_pages_def)
  have "unat (of_nat (i * 4096) :: uint) = i * 4096"
    using assms(2) i(1) by (intro unat_of_nat32) simp
  then have "unat x = unat p + i * 4096"
    using assms(2) i by (simp add: unat_plus_if')
  with i(1) show ?thesis by blast
qed

lemma freerange_loop_pages:
  assumes "free_pages k xs" and "unat p mod 4096 = 0" and "0x80000000 \<le> unat p" and "kend k \<le> p"
    and "unat p \<le> unat vend" and "unat vend \<le> 0x8E000000"
    and "n = (unat vend - unat p) div 4096" and "set (range_pages p n) \<inter> set xs = {}"
  shows "\<exists>k'. freerange_loop p vend k = Inr k' \<and> free_pages k' (rev (range_pages p n) @ xs) \<and> kpage k' = kpage k"
  using assms
proof (induction n arbitrary: p k xs)
  case 0
  have "\<not> p + PGSIZE \<le> vend"
    using "0.prems" by (simp add: word_le_nat_alt unat_plus_if')
  then show ?case using 0 by (simp add: freerange_loop.simps [of p] range_pages_def)
next
  case (Suc n)
  have room: "unat p + 4096 \<le> unat vend" using Suc.prems(7) by simp
  have next_p: "unat (p + PGSIZE) = unat p + 4096" using room Suc.prems(6) by (simp add: unat_plus_if')
  have phys: "unat (V2P p) = unat p - 0x80000000" using Suc.prems(3) by (simp add: V2P_def unat_sub_if')
  have "p mod PGSIZE = 0"
    by (rule word_unat_eq_iff [THEN iffD2]) (simp add: unat_mod Suc.prems(2))
  then have page: "kpage k p"
    using phys room Suc.prems(4,6) by (simp only: kpage_def word_less_nat_alt) simp
  have "p \<notin> set xs" using Suc.prems(8) by (simp add: range_pages_Suc)
  then obtain k1 where k1: "kfree p k = Inr k1" "free_pages k1 (p # xs)" "kpage k1 = kpage k"
    using kfree_push [OF Suc.prems(1) page] by blast
  have "kend k1 = kend k" using k1(1) by (simp add: kfree_Inr_iff)
  moreover have n: "n = (unat vend - unat (p + PGSIZE)) div 4096"
    using Suc.prems(7) room next_p by simp
  moreover have "set (range_pages (p + PGSIZE) n) \<inter> set (p # xs) = {}"
  proof -
    have "p \<notin> set (range_pages (p + PGSIZE) n)"
    proof
      assume "p \<in> set (range_pages (p + PGSIZE) n)"
      moreover have "unat (p + PGSIZE) + n * 4096 < 2 ^ 32"
        using n next_p room Suc.prems(6) by simp
      ultimately have "\<exists>i. unat p = unat p + 4096 + i * 4096"
        using in_range_pages next_p by metis
      then show False by simp
    qed
    then show ?thesis using Suc.prems(8) by (auto simp: range_pages_Suc)
  qed
  moreover have "kend k \<le> p + PGSIZE"
    using Suc.prems(4) next_p by (simp add: word_le_nat_alt)
  ultimately obtain k' where "freerange_loop (p + PGSIZE) vend k1 = Inr k'"
      "free_pages k' (rev (range_pages (p + PGSIZE) n) @ p # xs)" "kpage k' = kpage k1"
    using Suc.IH [of k1 "p # xs" "p + PGSIZE"] k1(2) Suc.prems(2,3,6) next_p room by auto
  moreover have "p + PGSIZE \<le> vend" using room next_p by (simp add: word_le_nat_alt)
  ultimately show ?case
    using k1 by (simp add: freerange_loop.simps [of p] range_pages_Suc)
qed

subsection \<open>Properties\<close>

lemma double_free_self_loop:
  assumes "kfree v k = Inr k1" and "kfree v k1 = Inr k2"
  shows "freelist k2 = v \<and> load32 (pmem k2) (V2P v) = v"
  using assms by (auto simp: kfree_Inr_iff)

text \<open>C4: a non-null \<^verbatim>\<open>kalloc()\<close> returns the first free page, removes exactly that page
  from the free list and keeps the list well formed, so the page handed out is a valid page
  that no later allocation returns until it is freed.\<close>

theorem kalloc_fresh_page:
  assumes "free_pages k xs" and "kalloc k = (r, k')" and "r \<noteq> 0"
  shows "\<exists>ys. xs = r # ys \<and> free_pages k' ys \<and> r \<notin> set ys \<and> kpage k' r"
  using kalloc.alloc_fresh [OF assms] by blast

definition kmem_sample :: kmem where
  "kmem_sample = \<lparr>pmem = (\<lambda>_. 0), freelist = 0x80200000, use_lock = False, kend = 0x80115000,
     kdata = 0x80108000\<rparr>"

lemma kmem_sample_free: "free_pages kmem_sample [0x80200000]"
  by (simp add: free_pages_def kmem_sample_def kpage_def V2P_def load32_def)

theorem kalloc_fresh_page_witness:
  "\<exists>ys. [0x80200000] = 0x80200000 # ys \<and> free_pages (kmem_sample\<lparr>freelist := 0\<rparr>) ys \<and>
     0x80200000 \<notin> set ys \<and> kpage (kmem_sample\<lparr>freelist := 0\<rparr>) 0x80200000"
proof (rule kalloc_fresh_page [OF kmem_sample_free])
  show "kalloc kmem_sample = (0x80200000, kmem_sample\<lparr>freelist := 0\<rparr>)"
    by (simp add: kalloc_def kmem_sample_def V2P_def load32_def)
qed simp

text \<open>C5: \<^verbatim>\<open>kfree(v)\<close> panics exactly on an address that is not a page between the end of the
  kernel and \<open>PHYSTOP\<close>; otherwise, for a page not already free, it puts the page in front of
  the free list and touches no byte outside that page.\<close>

theorem kfree_outcome:
  "if kpage k v
   then \<exists>k'. kfree v k = Inr k' \<and> agree_off (V2P v) (pmem k) (pmem k') \<and>
     (\<forall>xs. free_pages k xs \<and> v \<notin> set xs \<longrightarrow> free_pages k' (v # xs))
   else kfree v k = panic ''kfree''"
proof (cases "kpage k v")
  case True
  then obtain k' where k': "kfree v k = Inr k'" using kfree_Inr_iff by blast
  then have "free_pages k' (v # xs)" if "free_pages k xs \<and> v \<notin> set xs" for xs
    using kfree_push [of k xs v] True that by auto
  with True k' kfree_agree_off [OF k'] show ?thesis by auto
qed (simp add: kfree_foreign)

theorem kfree_outcome_witness:
  "\<exists>k'. kfree 0x80300000 kmem_sample = Inr k' \<and> free_pages k' [0x80300000, 0x80200000]"
proof -
  have "kpage kmem_sample 0x80300000" by (simp add: kpage_def kmem_sample_def V2P_def)
  then show ?thesis
    using kfree_outcome [of kmem_sample "0x80300000"] kmem_sample_free by auto
qed

text \<open>C6: \<^verbatim>\<open>freerange(vstart, vend)\<close> returns, and frees exactly the whole pages between the
  rounded-up start and the end, in front of the pages that were free before.\<close>

theorem freerange_frees_all:
  assumes "free_pages k xs" and "unat vstart + 4095 < 2 ^ 32" and "0x80000000 \<le> unat (PGROUNDUP vstart)"
    and "kend k \<le> PGROUNDUP vstart" and "unat (PGROUNDUP vstart) \<le> unat vend"
    and "unat vend \<le> 0x8E000000" and "n = (unat vend - unat (PGROUNDUP vstart)) div 4096"
    and "set (range_pages (PGROUNDUP vstart) n) \<inter> set xs = {}"
  shows "\<exists>k'. freerange vstart vend k = Inr k' \<and>
    free_pages k' (rev (range_pages (PGROUNDUP vstart) n) @ xs)"
proof -
  have "unat (PGROUNDUP vstart) mod 4096 = 0"
    using assms(2) by (simp add: unat_PGROUNDUP)
  from freerange_loop_pages [OF assms(1) this assms(3-8)] show ?thesis
    by (auto simp: freerange_def)
qed

theorem freerange_frees_all_witness:
  "\<exists>k'. freerange 0x80300001 0x80303000 kmem_sample = Inr k' \<and>
    free_pages k' (rev (range_pages (PGROUNDUP 0x80300001) 2) @ [0x80200000])"
proof (rule freerange_frees_all [OF kmem_sample_free])
  show "2 = (unat (0x80303000 :: uint) - unat (PGROUNDUP 0x80300001)) div 4096"
    by (simp add: PGROUNDUP_def)
  show "set (range_pages (PGROUNDUP 0x80300001) 2) \<inter> set [0x80200000] = {}"
    by (simp add: PGROUNDUP_def range_pages_def upt_rec)
qed (simp_all add: PGROUNDUP_def kmem_sample_def)

text \<open>C7: freeing a page twice makes the allocator hand the same page out twice: after two
  \<^verbatim>\<open>kfree(v)\<close>, the next two \<^verbatim>\<open>kalloc()\<close> both return \<open>v\<close>. (The code has no
  protection against a double free; every caller must free a page at most once.)\<close>

theorem kfree_double_free_aliases:
  assumes "kfree v k = Inr k1" and "kfree v k1 = Inr k2"
  shows "fst (kalloc k2) = v \<and> fst (kalloc (snd (kalloc k2))) = v"
proof -
  have "v \<noteq> 0" using assms(1) kpage_bounds(4) by (auto simp: kfree_Inr_iff)
  then show ?thesis using double_free_self_loop [OF assms] by (simp add: kalloc_def)
qed

theorem kfree_double_free_aliases_witness:
  "\<exists>k1 k2. kfree 0x80300000 kmem_sample = Inr k1 \<and> kfree 0x80300000 k1 = Inr k2 \<and>
     fst (kalloc k2) = 0x80300000 \<and> fst (kalloc (snd (kalloc k2))) = 0x80300000"
proof -
  obtain k1 where k1: "kfree 0x80300000 kmem_sample = Inr k1" "kpage k1 = kpage kmem_sample"
    using kfree_push [of kmem_sample "[0x80200000]" "0x80300000"] kmem_sample_free
    by (auto simp: kpage_def kmem_sample_def V2P_def)
  then obtain k2 where k2: "kfree 0x80300000 k1 = Inr k2"
    by (auto simp: kfree_Inr_iff kmem_sample_def kpage_def V2P_def)
  show ?thesis using k1(1) k2 kfree_double_free_aliases [OF k1(1) k2] by blast
qed

end
