(* ===== verification/File.thy ===== *)
theory File
  imports Fs Pipe Kalloc
begin

text \<open>
  Open files (\<^verbatim>\<open>file.c\<close>) and the allocation and closing of pipes (\<^verbatim>\<open>pipe.c\<close>). The state joins the
  page allocator, the file system, \<^verbatim>\<open>ftable\<close> and the pipes. A \<^verbatim>\<open>struct pipe\<close> lives in a page
  from \<^verbatim>\<open>kalloc\<close>; \<open>pipes\<close> gives its contents by the address of the page. \<open>woken\<close> collects
  the channels passed to \<^verbatim>\<open>wakeup\<close>, in order; the process table acts on them. A file pointer is
  its index in \<^verbatim>\<open>ftable.file\<close>. Reads return the bytes copied to the caller's buffer, writes take
  the bytes of the caller's buffer. \<open>killed\<close> is \<^verbatim>\<open>myproc()->killed\<close>.
\<close>

abbreviation (input) NFILE :: nat where "NFILE \<equiv> 100"

datatype fdtype = FD_NONE | FD_PIPE | FD_INODE

record kfile =
  ftype :: fdtype
  fref :: int
  freadable :: bool
  fwritable :: bool
  fpipe :: uint
  fip :: nat
  foff :: uint

datatype chan = ChanRead uint | ChanWrite uint | ChanProc nat | ChanTicks | ChanLog | ChanInput | ChanLock nat

record fstate =
  km :: kmem
  fs :: fsys
  ftable :: "nat \<Rightarrow> kfile"
  pipes :: "uint \<Rightarrow> pipe"
  woken :: "chan list"

definition on_fs :: "(fsys \<Rightarrow> ('r \<times> fsys) res) \<Rightarrow> 'a fstate_scheme \<Rightarrow> ('r \<times> 'a fstate_scheme) res" where
  "on_fs f st = andThen (f (fs st)) (\<lambda>(r, s). Inr (r, st\<lparr>fs := s\<rparr>))"

definition do_fs :: "(fsys \<Rightarrow> fsys res) \<Rightarrow> 'a fstate_scheme \<Rightarrow> 'a fstate_scheme res" where
  "do_fs f st = andThen (f (fs st)) (\<lambda>s. Inr (st\<lparr>fs := s\<rparr>))"

definition do_km :: "(kmem \<Rightarrow> kmem res) \<Rightarrow> 'a fstate_scheme \<Rightarrow> 'a fstate_scheme res" where
  "do_km f st = andThen (f (km st)) (\<lambda>k. Inr (st\<lparr>km := k\<rparr>))"

definition file_update :: "nat \<Rightarrow> (kfile \<Rightarrow> kfile) \<Rightarrow> 'a fstate_scheme \<Rightarrow> 'a fstate_scheme" where
  "file_update f g st = st\<lparr>ftable := (ftable st)(f := g (ftable st f))\<rparr>"

definition wakeup_chan :: "chan \<Rightarrow> 'a fstate_scheme \<Rightarrow> 'a fstate_scheme" where
  "wakeup_chan c st = st\<lparr>woken := woken st @ [c]\<rparr>"

fun filealloc_loop :: "nat \<Rightarrow> nat \<Rightarrow> 'a fstate_scheme \<Rightarrow> nat option \<times> 'a fstate_scheme" where
  "filealloc_loop 0 f st = (None, st)"
| "filealloc_loop (Suc k) f st =
     (if fref (ftable st f) = 0 then (Some f, file_update f (\<lambda>x. x\<lparr>fref := 1\<rparr>) st)
      else filealloc_loop k (f + 1) st)"

definition filealloc :: "'a fstate_scheme \<Rightarrow> nat option \<times> 'a fstate_scheme" where
  "filealloc st = filealloc_loop NFILE 0 st"

definition filedup :: "nat \<Rightarrow> 'a fstate_scheme \<Rightarrow> (nat \<times> 'a fstate_scheme) res" where
  "filedup f st =
     (if fref (ftable st f) < 1 then panic ''filedup''
      else Inr (f, file_update f (\<lambda>x. x\<lparr>fref := fref x + 1\<rparr>) st))"

definition pipeclose :: "uint \<Rightarrow> bool \<Rightarrow> 'a fstate_scheme \<Rightarrow> 'a fstate_scheme res" where
  "pipeclose p writable st =
     (let q = pipe_shut writable (pipes st p);
          st1 = wakeup_chan (if writable then ChanRead p else ChanWrite p) (st\<lparr>pipes := (pipes st)(p := q)\<rparr>)
      in if \<not> readopen q \<and> \<not> writeopen q then do_km (kfree p) st1 else Inr st1)"

definition fileclose :: "nat \<Rightarrow> 'a fstate_scheme \<Rightarrow> 'a fstate_scheme res" where
  "fileclose f st =
     (let ff = ftable st f
      in if fref ff < 1 then panic ''fileclose''
         else if fref ff - 1 > 0 then Inr (file_update f (\<lambda>x. x\<lparr>fref := fref x - 1\<rparr>) st)
         else let st1 = file_update f (\<lambda>x. x\<lparr>fref := 0, ftype := FD_NONE\<rparr>) st
              in case ftype ff of
                   FD_PIPE \<Rightarrow> pipeclose (fpipe ff) (fwritable ff) st1
                 | FD_INODE \<Rightarrow> andThen (do_fs begin_op st1) (\<lambda>st2. andThen (do_fs (iput (fip ff)) st2) (do_fs end_op))
                 | FD_NONE \<Rightarrow> Inr st1)"

definition pipe_bad :: "nat option \<Rightarrow> nat option \<Rightarrow> 'a fstate_scheme \<Rightarrow> ((nat \<times> nat) option \<times> 'a fstate_scheme) res" where
  "pipe_bad f0 f1 st =
     andThen (case f0 of Some f \<Rightarrow> fileclose f st | None \<Rightarrow> Inr st) (\<lambda>st1.
     andThen (case f1 of Some f \<Rightarrow> fileclose f st1 | None \<Rightarrow> Inr st1) (\<lambda>st2. Inr (None, st2)))"

text \<open>\<^verbatim>\<open>pipealloc\<close> returns the two files, or nothing for \<^verbatim>\<open>-1\<close>.\<close>

definition pipealloc :: "'a fstate_scheme \<Rightarrow> ((nat \<times> nat) option \<times> 'a fstate_scheme) res" where
  "pipealloc st =
     (case filealloc st of
        (None, st1) \<Rightarrow> pipe_bad None None st1
      | (Some f0, st1) \<Rightarrow>
         (case filealloc st1 of
            (None, st2) \<Rightarrow> pipe_bad (Some f0) None st2
          | (Some f1, st2) \<Rightarrow>
             (let (p, k) = kalloc (km st2); st3 = st2\<lparr>km := k\<rparr>
              in if p = 0 then pipe_bad (Some f0) (Some f1) st3
                 else let st4 = st3\<lparr>pipes := (pipes st3)(p := pipe_init (pdata (pipes st3 p)))\<rparr>;
                          st5 = file_update f0 (\<lambda>x. x\<lparr>ftype := FD_PIPE, freadable := True, fwritable := False, fpipe := p\<rparr>) st4;
                          st6 = file_update f1 (\<lambda>x. x\<lparr>ftype := FD_PIPE, freadable := False, fwritable := True, fpipe := p\<rparr>) st5
                      in Inr (Some (f0, f1), st6))))"

definition filestat :: "nat \<Rightarrow> 'a fstate_scheme \<Rightarrow> (stat option \<times> 'a fstate_scheme) res" where
  "filestat f st =
     (let ff = ftable st f
      in if ftype ff = FD_INODE
         then andThen (do_fs (ilock (fip ff)) st) (\<lambda>st1.
              let r = stati (fip ff) (fs st1) in andThen (do_fs (iunlock (fip ff)) st1) (\<lambda>st2. Inr (Some r, st2)))
         else Inr (None, st))"

text \<open>The result is the C return value and the bytes stored in the caller's buffer.\<close>

definition fileread :: "bool \<Rightarrow> nat \<Rightarrow> uint \<Rightarrow> 'a fstate_scheme \<Rightarrow> (cint \<times> byte list \<times> 'a fstate_scheme) res" where
  "fileread killed f n st =
     (let ff = ftable st f
      in if \<not> freadable ff then Inr (-1, [], st)
         else case ftype ff of
           FD_PIPE \<Rightarrow>
             (case piperead killed (nat (sint n)) (pipes st (fpipe ff)) of
                RDone cs p \<Rightarrow> Inr (of_nat (length cs), cs,
                  wakeup_chan (ChanWrite (fpipe ff)) (st\<lparr>pipes := (pipes st)(fpipe ff := p)\<rparr>))
              | RFail p \<Rightarrow> Inr (-1, [], st)
              | RSleep p \<Rightarrow> stuck ''piperead: sleep'')
         | FD_INODE \<Rightarrow>
             andThen (do_fs (ilock (fip ff)) st) (\<lambda>st1.
             andThen (on_fs (\<lambda>s. andThen (readi (fip ff) (foff ff) n s) (\<lambda>(r, bs, s1). Inr ((r, bs), s1))) st1) (\<lambda>((r, bs), st2).
             andThen (do_fs (iunlock (fip ff))
                (if 0 <s r then file_update f (\<lambda>x. x\<lparr>foff := foff x + r\<rparr>) st2 else st2)) (\<lambda>st3. Inr (r, bs, st3))))
         | FD_NONE \<Rightarrow> panic ''fileread'')"

abbreviation (input) filewrite_max :: nat where "filewrite_max \<equiv> 1536"

text \<open>The loop of \<^verbatim>\<open>filewrite\<close> over the bytes still to be written; \<open>True\<close> when all of them were.\<close>

function filewrite_loop :: "nat \<Rightarrow> byte list \<Rightarrow> 'a fstate_scheme \<Rightarrow> (bool \<times> 'a fstate_scheme) res" where
  "filewrite_loop f src st =
     (if src = [] then Inr (True, st)
      else let n1 = min (length src) filewrite_max; ip = fip (ftable st f)
           in andThen (do_fs begin_op st) (\<lambda>st1.
              andThen (do_fs (ilock ip) st1) (\<lambda>st2.
              andThen (on_fs (writei ip (take n1 src) (foff (ftable st2 f))) st2) (\<lambda>(r, st3).
              andThen (do_fs (iunlock ip) (if 0 <s r then file_update f (\<lambda>x. x\<lparr>foff := foff x + r\<rparr>) st3 else st3)) (\<lambda>st4.
              andThen (do_fs end_op st4) (\<lambda>st5.
                if r <s 0 then Inr (False, st5)
                else if r \<noteq> of_nat n1 then panic ''short filewrite''
                else filewrite_loop f (drop n1 src) st5))))))"
  by pat_completeness auto
termination
  by (relation "measure (\<lambda>(f, src, st). length src)") auto

declare filewrite_loop.simps [simp del]

definition filewrite :: "bool \<Rightarrow> nat \<Rightarrow> byte list \<Rightarrow> 'a fstate_scheme \<Rightarrow> (cint \<times> 'a fstate_scheme) res" where
  "filewrite killed f src st =
     (let ff = ftable st f
      in if \<not> fwritable ff then Inr (-1, st)
         else case ftype ff of
           FD_PIPE \<Rightarrow>
             (case pipewrite killed src (pipes st (fpipe ff)) of
                WDone p \<Rightarrow> Inr (of_nat (length src), wakeup_chan (ChanRead (fpipe ff)) (st\<lparr>pipes := (pipes st)(fpipe ff := p)\<rparr>))
              | WFail p \<Rightarrow> Inr (-1, st\<lparr>pipes := (pipes st)(fpipe ff := p)\<rparr>)
              | WSleep rest p \<Rightarrow> stuck ''pipewrite: sleep'')
         | FD_INODE \<Rightarrow>
             andThen (filewrite_loop f src st) (\<lambda>(ok, st1). Inr (if ok then of_nat (length src) else -1, st1))
         | FD_NONE \<Rightarrow> panic ''filewrite'')"

end
