(* ===== verification/Vm.thy ===== *)
theory Vm
  imports Kalloc
begin

text \<open>
  Page tables, \<^verbatim>\<open>vm.c\<close>. A page directory and its page tables are pages of physical memory
  holding 1024 32-bit entries each; every operation reads and writes them as the code does.
  Loops that step an address by a page carry fuel: \<open>page_fuel\<close> is more than the number of
  pages of the address space, so only a loop that wraps around runs out (\<open>Stuck\<close>).
\<close>

definition page_fuel :: nat where
  "page_fuel = 2 ^ 20 + 1"

text \<open>Dereference of a PTE pointer, a kernel virtual address.\<close>

definition pte_read :: "kmem \<Rightarrow> uint \<Rightarrow> uint" where
  "pte_read k pte = load32 (pmem k) (V2P pte)"

definition pte_write :: "uint \<Rightarrow> uint \<Rightarrow> kmem \<Rightarrow> kmem" where
  "pte_write pte v k = k\<lparr>pmem := store32 (pmem k) (V2P pte) v\<rparr>"

subsection \<open>Operations\<close>

definition walkpgdir :: "uint \<Rightarrow> uint \<Rightarrow> bool \<Rightarrow> kmem \<Rightarrow> uint \<times> kmem" where
  "walkpgdir pgdir va alloc k =
     (let pde = pgdir + 4 * PDX va
      in if pte_read k pde AND PTE_P \<noteq> 0
         then (P2V (PTE_ADDR (pte_read k pde)) + 4 * PTX va, k)
         else if \<not> alloc then (0, k)
         else let (pgtab, k1) = kalloc k
              in if pgtab = 0 then (0, k1)
                 else let k2 = k1\<lparr>pmem := memset (V2P pgtab) 0 PGSIZE (pmem k1)\<rparr>;
                          k3 = pte_write pde (V2P pgtab OR PTE_P OR PTE_W OR PTE_U) k2
                      in (pgtab + 4 * PTX va, k3))"

fun mappages_loop :: "nat \<Rightarrow> uint \<Rightarrow> uint \<Rightarrow> uint \<Rightarrow> uint \<Rightarrow> uint \<Rightarrow> kmem \<Rightarrow> (cint \<times> kmem) res" where
  "mappages_loop 0 pgdir a lastp pa perm k = stuck ''mappages''"
| "mappages_loop (Suc fuel) pgdir a lastp pa perm k =
     (let (pte, k1) = walkpgdir pgdir a True k
      in if pte = 0 then Inr (-1, k1)
         else if pte_read k1 pte AND PTE_P \<noteq> 0 then panic ''remap''
         else let k2 = pte_write pte (pa OR perm OR PTE_P) k1
              in if a = lastp then Inr (0, k2)
                 else mappages_loop fuel pgdir (a + PGSIZE) lastp (pa + PGSIZE) perm k2)"

definition mappages :: "uint \<Rightarrow> uint \<Rightarrow> uint \<Rightarrow> uint \<Rightarrow> uint \<Rightarrow> kmem \<Rightarrow> (cint \<times> kmem) res" where
  "mappages pgdir va sz pa perm k =
     mappages_loop page_fuel pgdir (PGROUNDDOWN va) (PGROUNDDOWN (va + sz - 1)) pa perm k"

fun deallocuvm_loop :: "nat \<Rightarrow> uint \<Rightarrow> uint \<Rightarrow> uint \<Rightarrow> kmem \<Rightarrow> kmem res" where
  "deallocuvm_loop 0 pgdir a oldsz k = stuck ''deallocuvm''"
| "deallocuvm_loop (Suc fuel) pgdir a oldsz k =
     (if a < oldsz
      then let (pte, k1) = walkpgdir pgdir a False k
           in if pte = 0
              then deallocuvm_loop fuel pgdir (PGADDR (PDX a + 1) 0 0 - PGSIZE + PGSIZE) oldsz k1
              else if pte_read k1 pte AND PTE_P \<noteq> 0
              then let pa = PTE_ADDR (pte_read k1 pte)
                   in if pa = 0 then panic ''kfree''
                      else andThen (kfree (P2V pa) k1)
                        (\<lambda>k2. deallocuvm_loop fuel pgdir (a + PGSIZE) oldsz (pte_write pte 0 k2))
              else deallocuvm_loop fuel pgdir (a + PGSIZE) oldsz k1
      else Inr k)"

definition deallocuvm :: "uint \<Rightarrow> uint \<Rightarrow> uint \<Rightarrow> kmem \<Rightarrow> (uint \<times> kmem) res" where
  "deallocuvm pgdir oldsz newsz k =
     (if newsz \<ge> oldsz then Inr (oldsz, k)
      else andThen (deallocuvm_loop page_fuel pgdir (PGROUNDUP newsz) oldsz k)
        (\<lambda>k'. Inr (newsz, k')))"

text \<open>The loop of \<^verbatim>\<open>freevm\<close> over the directory: \<open>n\<close> entries are left, from entry \<open>i\<close> on.\<close>

fun freevm_loop :: "nat \<Rightarrow> uint \<Rightarrow> uint \<Rightarrow> kmem \<Rightarrow> kmem res" where
  "freevm_loop 0 pgdir i k = Inr k"
| "freevm_loop (Suc n) pgdir i k =
     (let pde = pte_read k (pgdir + 4 * i)
      in if pde AND PTE_P \<noteq> 0
         then andThen (kfree (P2V (PTE_ADDR pde)) k) (freevm_loop n pgdir (i + 1))
         else freevm_loop n pgdir (i + 1) k)"

definition freevm :: "uint \<Rightarrow> kmem \<Rightarrow> kmem res" where
  "freevm pgdir k =
     (if pgdir = 0 then panic ''freevm: no pgdir''
      else andThen (deallocuvm pgdir KERNBASE 0 k) (\<lambda>(_, k1).
           andThen (freevm_loop 1024 pgdir 0 k1) (kfree pgdir)))"

fun allocuvm_loop :: "nat \<Rightarrow> uint \<Rightarrow> uint \<Rightarrow> uint \<Rightarrow> uint \<Rightarrow> kmem \<Rightarrow> (uint \<times> kmem) res" where
  "allocuvm_loop 0 pgdir a oldsz newsz k = stuck ''allocuvm''"
| "allocuvm_loop (Suc fuel) pgdir a oldsz newsz k =
     (if a < newsz
      then let (v, k1) = kalloc k
           in if v = 0 then andThen (deallocuvm pgdir newsz oldsz k1) (\<lambda>(_, k2). Inr (0, k2))
              else let k2 = k1\<lparr>pmem := memset (V2P v) 0 PGSIZE (pmem k1)\<rparr>
                   in andThen (mappages pgdir a PGSIZE (V2P v) (PTE_W OR PTE_U) k2) (\<lambda>(r, k3).
                        if r <s 0
                        then andThen (deallocuvm pgdir newsz oldsz k3) (\<lambda>(_, k4).
                             andThen (kfree v k4) (\<lambda>k5. Inr (0, k5)))
                        else allocuvm_loop fuel pgdir (a + PGSIZE) oldsz newsz k3)
      else Inr (newsz, k))"

definition allocuvm :: "uint \<Rightarrow> uint \<Rightarrow> uint \<Rightarrow> kmem \<Rightarrow> (uint \<times> kmem) res" where
  "allocuvm pgdir oldsz newsz k =
     (if newsz \<ge> KERNBASE then Inr (0, k)
      else if newsz < oldsz then Inr (oldsz, k)
      else allocuvm_loop page_fuel pgdir (PGROUNDUP oldsz) oldsz newsz k)"

text \<open>The table \<^verbatim>\<open>kmap\<close>: virtual start, physical start, physical end, permissions.\<close>

definition kmap :: "kmem \<Rightarrow> (uint \<times> uint \<times> uint \<times> uint) list" where
  "kmap k =
     [(KERNBASE, 0, EXTMEM, PTE_W),
      (KERNLINK, V2P KERNLINK, V2P (kdata k), 0),
      (kdata k, V2P (kdata k), PHYSTOP, PTE_W),
      (DEVSPACE, DEVSPACE, 0, PTE_W)]"

fun setupkvm_loop :: "(uint \<times> uint \<times> uint \<times> uint) list \<Rightarrow> uint \<Rightarrow> kmem \<Rightarrow> (uint \<times> kmem) res" where
  "setupkvm_loop [] pgdir k = Inr (pgdir, k)"
| "setupkvm_loop ((virt, phys_start, phys_end, perm) # ks) pgdir k =
     andThen (mappages pgdir virt (phys_end - phys_start) phys_start perm k) (\<lambda>(r, k1).
       if r <s 0 then andThen (freevm pgdir k1) (\<lambda>k2. Inr (0, k2))
       else setupkvm_loop ks pgdir k1)"

definition setupkvm :: "kmem \<Rightarrow> (uint \<times> kmem) res" where
  "setupkvm k =
     (let (pgdir, k1) = kalloc k
      in if pgdir = 0 then Inr (0, k1)
         else let k2 = k1\<lparr>pmem := memset (V2P pgdir) 0 PGSIZE (pmem k1)\<rparr>
              in if P2V PHYSTOP > DEVSPACE then panic ''PHYSTOP too high''
                 else setupkvm_loop (kmap k2) pgdir k2)"

text \<open>
  \<^verbatim>\<open>inituvm\<close> does not check \<^verbatim>\<open>kalloc\<close>: out of memory it writes through a null pointer.
  \<open>init\<close> is the image of \<^verbatim>\<open>initcode\<close>, of \<open>sz\<close> bytes.
\<close>

definition inituvm :: "uint \<Rightarrow> byte list \<Rightarrow> kmem \<Rightarrow> kmem res" where
  "inituvm pgdir init k =
     (if length init \<ge> 4096 then panic ''inituvm: more than a page''
      else let (v, k1) = kalloc k
           in if v = 0 then stuck ''inituvm: null page''
              else let k2 = k1\<lparr>pmem := memset (V2P v) 0 PGSIZE (pmem k1)\<rparr>
                   in andThen (mappages pgdir 0 PGSIZE (V2P v) (PTE_W OR PTE_U) k2) (\<lambda>(_, k3).
                        Inr (k3\<lparr>pmem := poke (pmem k3) (V2P v) init\<rparr>)))"

definition clearpteu :: "uint \<Rightarrow> uint \<Rightarrow> kmem \<Rightarrow> kmem res" where
  "clearpteu pgdir uva k =
     (let (pte, k1) = walkpgdir pgdir uva False k
      in if pte = 0 then panic ''clearpteu''
         else Inr (pte_write pte (pte_read k1 pte AND NOT PTE_U) k1))"

fun copyuvm_loop :: "nat \<Rightarrow> uint \<Rightarrow> uint \<Rightarrow> uint \<Rightarrow> uint \<Rightarrow> kmem \<Rightarrow> (uint \<times> kmem) res" where
  "copyuvm_loop 0 pgdir d i sz k = stuck ''copyuvm''"
| "copyuvm_loop (Suc fuel) pgdir d i sz k =
     (if i < sz
      then let (pte, k1) = walkpgdir pgdir i False k
           in if pte = 0 then panic ''copyuvm: pte should exist''
              else if pte_read k1 pte AND PTE_P = 0 then panic ''copyuvm: page not present''
              else let pa = PTE_ADDR (pte_read k1 pte);
                       flags = PTE_FLAGS (pte_read k1 pte);
                       (v, k2) = kalloc k1
                   in if v = 0 then andThen (freevm d k2) (\<lambda>k3. Inr (0, k3))
                      else let k3 = k2\<lparr>pmem := memmove (V2P v) pa PGSIZE (pmem k2)\<rparr>
                           in andThen (mappages d i PGSIZE (V2P v) flags k3) (\<lambda>(r, k4).
                                if r <s 0
                                then andThen (kfree v k4) (\<lambda>k5.
                                     andThen (freevm d k5) (\<lambda>k6. Inr (0, k6)))
                                else copyuvm_loop fuel pgdir d (i + PGSIZE) sz k4)
      else Inr (d, k))"

definition copyuvm :: "uint \<Rightarrow> uint \<Rightarrow> kmem \<Rightarrow> (uint \<times> kmem) res" where
  "copyuvm pgdir sz k =
     andThen (setupkvm k) (\<lambda>(d, k1).
       if d = 0 then Inr (0, k1) else copyuvm_loop page_fuel pgdir d 0 sz k1)"

text \<open>\<^verbatim>\<open>uva2ka\<close> dereferences the PTE without a null check.\<close>

definition uva2ka :: "uint \<Rightarrow> uint \<Rightarrow> kmem \<Rightarrow> uint res" where
  "uva2ka pgdir uva k =
     (let (pte, _) = walkpgdir pgdir uva False k
      in if pte = 0 then stuck ''uva2ka: null pte''
         else if pte_read k pte AND PTE_P = 0 then Inr 0
         else if pte_read k pte AND PTE_U = 0 then Inr 0
         else Inr (P2V (PTE_ADDR (pte_read k pte))))"

text \<open>\<open>buf\<close> is the kernel buffer still to be copied, \<open>len\<close> its length.\<close>

function copyout :: "uint \<Rightarrow> uint \<Rightarrow> byte list \<Rightarrow> kmem \<Rightarrow> (cint \<times> kmem) res" where
  "copyout pgdir va buf k =
     (if buf = [] then Inr (0, k)
      else let va0 = PGROUNDDOWN va
           in andThen (uva2ka pgdir va0 k) (\<lambda>pa0.
                if pa0 = 0 then Inr (-1, k)
                else let n = min (unat (PGSIZE - (va - va0))) (length buf)
                     in copyout pgdir (va0 + PGSIZE) (drop n buf)
                          (k\<lparr>pmem := poke (pmem k) (V2P (pa0 + (va - va0))) (take n buf)\<rparr>)))"
  by pat_completeness auto

lemma page_room_pos: "0 < unat (PGSIZE - (va - PGROUNDDOWN va))"
proof -
  have "unat (va - PGROUNDDOWN va) = unat va mod 4096"
    by (subst unat_sub) (simp_all add: word_le_nat_alt unat_PGROUNDDOWN)
  then show ?thesis by (subst unat_sub) (simp_all add: word_le_nat_alt less_imp_le)
qed

termination copyout
  by (relation "measure (\<lambda>(pgdir, va, buf, k). length buf)") (use page_room_pos in auto)

declare copyout.simps [simp del]

end
