(* ===== verification/Kernel.thy ===== *)
theory Kernel
  imports File Vm
begin

text \<open>
  The state of the kernel as one process sees it while it runs in the kernel: the open files, file
  system and memory of theory \<open>File\<close>, the process table (\<^verbatim>\<open>proc.h\<close>, \<^verbatim>\<open>ptable\<close>), and
  the registers the code sets. A process pointer is its index in \<^verbatim>\<open>ptable.proc\<close>; \<open>cur\<close> is
  \<^verbatim>\<open>myproc()\<close>. The trap frame, which the code keeps on the kernel stack, is a field of the process.
  \<open>oob_mapping\<close> stands for the bytes behind the array \<^verbatim>\<open>mappings\<close>, which \<^verbatim>\<open>wunmap\<close> can read;
  \<open>trapret\<close> and \<open>forkret_addr\<close> are the addresses of the two entry points, \<open>first\<close> is the static of
  \<^verbatim>\<open>forkret\<close>.
\<close>

abbreviation (input) NPROC :: nat where "NPROC \<equiv> 64"
abbreviation (input) NOFILE :: nat where "NOFILE \<equiv> 16"
abbreviation (input) MAX_WMMAP_INFO :: nat where "MAX_WMMAP_INFO \<equiv> 16"

datatype procstate = UNUSED | EMBRYO | SLEEPING | RUNNABLE | RUNNING | ZOMBIE

record mapping =
  maddr :: uint
  mlength :: cint
  mflags :: cint
  mfd :: cint
  num_pages_loaded :: cint

record trapframe =
  tf_edi :: uint
  tf_esi :: uint
  tf_ebp :: uint
  tf_ebx :: uint
  tf_edx :: uint
  tf_ecx :: uint
  tf_eax :: uint
  tf_es :: ushort
  tf_ds :: ushort
  tf_trapno :: uint
  tf_err :: uint
  tf_eip :: uint
  tf_cs :: ushort
  tf_eflags :: uint
  tf_esp :: uint
  tf_ss :: ushort

record kproc =
  p_sz :: uint
  p_pgdir :: uint
  p_kstack :: uint
  p_state :: procstate
  p_pid :: cint
  p_parent :: "nat option"
  p_tf :: trapframe
  p_chan :: "chan option"
  p_killed :: bool
  p_ofile :: "nat option list"
  p_cwd :: "nat option"
  p_name :: "byte list"
  mappings :: "mapping list"
  num_mappings :: nat

record kernel = fstate +
  procs :: "nat \<Rightarrow> kproc"
  nextpid :: cint
  initproc :: "nat option"
  cur :: nat
  cr3 :: uint
  ticks :: uint
  first :: bool
  trapret :: uint
  forkret_addr :: uint
  oob_mapping :: mapping

definition myproc :: "'a kernel_scheme \<Rightarrow> kproc" where
  "myproc k = procs k (cur k)"

definition proc_update :: "nat \<Rightarrow> (kproc \<Rightarrow> kproc) \<Rightarrow> 'a kernel_scheme \<Rightarrow> 'a kernel_scheme" where
  "proc_update p f k = k\<lparr>procs := (procs k)(p := f (procs k p))\<rparr>"

definition my_update :: "(kproc \<Rightarrow> kproc) \<Rightarrow> 'a kernel_scheme \<Rightarrow> 'a kernel_scheme" where
  "my_update f k = proc_update (cur k) f k"

text \<open>Operations of the memory component that return a value.\<close>

definition on_km :: "(kmem \<Rightarrow> ('r \<times> kmem) res) \<Rightarrow> 'a fstate_scheme \<Rightarrow> ('r \<times> 'a fstate_scheme) res" where
  "on_km f st = andThen (f (km st)) (\<lambda>(r, k). Inr (r, st\<lparr>km := k\<rparr>))"

text \<open>
  A byte of user memory as the hardware finds it through a page directory, and a run of bytes;
  nothing when a page is not present, which is a page fault.
\<close>

definition user_page :: "kmem \<Rightarrow> uint \<Rightarrow> uint \<Rightarrow> uint option" where
  "user_page k pgdir va =
     (let (pte, _) = walkpgdir pgdir va False k
      in if pte = 0 then None
         else let e = pte_read k pte in if e AND PTE_P = 0 then None else Some (PTE_ADDR e))"

definition user_byte :: "kmem \<Rightarrow> uint \<Rightarrow> uint \<Rightarrow> byte option" where
  "user_byte k pgdir va = map_option (\<lambda>pa. pmem k (pa + (va AND 0xfff))) (user_page k pgdir va)"

fun user_read :: "nat \<Rightarrow> uint \<Rightarrow> uint \<Rightarrow> kmem \<Rightarrow> byte list option" where
  "user_read 0 pgdir va k = Some []"
| "user_read (Suc n) pgdir va k =
     (case user_byte k pgdir va of
        None \<Rightarrow> None
      | Some b \<Rightarrow> (case user_read n pgdir (va + 1) k of None \<Rightarrow> None | Some bs \<Rightarrow> Some (b # bs)))"

fun user_write :: "byte list \<Rightarrow> uint \<Rightarrow> uint \<Rightarrow> kmem \<Rightarrow> kmem option" where
  "user_write [] pgdir va k = Some k"
| "user_write (b # bs) pgdir va k =
     (case user_page k pgdir va of
        None \<Rightarrow> None
      | Some pa \<Rightarrow> user_write bs pgdir (va + 1) (k\<lparr>pmem := (pmem k)(pa + (va AND 0xfff) := b)\<rparr>))"

definition my_cwd :: "'a kernel_scheme \<Rightarrow> nat res" where
  "my_cwd k = (case p_cwd (myproc k) of None \<Rightarrow> stuck ''no current directory'' | Some ip \<Rightarrow> Inr ip)"

text \<open>The page directory that the processor translates with.\<close>

definition mmu_pgdir :: "'a kernel_scheme \<Rightarrow> uint" where
  "mmu_pgdir k = P2V (cr3 k)"

text \<open>\<^verbatim>\<open>cprintf\<close> from anywhere in the kernel.\<close>

definition kprint :: "byte list \<Rightarrow> fmtarg list \<Rightarrow> 'a fstate_scheme \<Rightarrow> 'a fstate_scheme res" where
  "kprint fmt args = do_fs (\<lambda>s. andThen (cprintf fmt args (con s)) (\<lambda>c. Inr (s\<lparr>con := c\<rparr>)))"

end
