(* ===== verification/Wmap.thy ===== *)
theory Wmap
  imports Kernel
begin

text \<open>
  Memory mappings (\<^verbatim>\<open>wmap.c\<close>): the table of mappings of a process, \<^verbatim>\<open>wmap\<close>, \<^verbatim>\<open>wunmap\<close>, \<^verbatim>\<open>wremap\<close>,
  the two reporting calls and the page-fault handler. The table is a list of
  \<open>MAX_WMMAP_INFO\<close> entries of which the first \<open>num_mappings\<close> are in use.
\<close>

abbreviation (input) MAP_PRIVATE :: cint where "MAP_PRIVATE \<equiv> 1"
abbreviation (input) MAP_SHARED :: cint where "MAP_SHARED \<equiv> 2"
abbreviation (input) MAP_ANONYMOUS :: cint where "MAP_ANONYMOUS \<equiv> 4"
abbreviation (input) MAP_FIXED :: cint where "MAP_FIXED \<equiv> 8"
abbreviation (input) WFAILED :: uint where "WFAILED \<equiv> - 1"
abbreviation (input) WMAP_BASE :: uint where "WMAP_BASE \<equiv> 0x60000000"
abbreviation (input) MAX_UPAGE_INFO :: nat where "MAX_UPAGE_INFO \<equiv> 32"

subsection \<open>Sorting\<close>

fun sel_min :: "nat \<Rightarrow> nat \<Rightarrow> nat \<Rightarrow> mapping list \<Rightarrow> nat" where
  "sel_min 0 j minIndex arr = minIndex"
| "sel_min (Suc k) j minIndex arr =
     sel_min k (j + 1) (if maddr (arr ! j) < maddr (arr ! minIndex) then j else minIndex) arr"

fun sel_loop :: "nat \<Rightarrow> nat \<Rightarrow> nat \<Rightarrow> mapping list \<Rightarrow> mapping list" where
  "sel_loop 0 i n arr = arr"
| "sel_loop (Suc k) i n arr =
     (let m = sel_min (n - (i + 1)) (i + 1) i arr
      in sel_loop k (i + 1) n (arr[i := arr ! m, m := arr ! i]))"

definition selectionSort :: "mapping list \<Rightarrow> nat \<Rightarrow> mapping list" where
  "selectionSort arr n = sel_loop (n - 1) 0 n arr"

subsection \<open>wmap\<close>

definition mapping_end :: "mapping \<Rightarrow> uint" where
  "mapping_end m = maddr m + mlength m"

text \<open>The test that \<^verbatim>\<open>wmap\<close> and \<^verbatim>\<open>wremap\<close> make of a region against one mapping.\<close>

definition overlaps :: "uint \<Rightarrow> cint \<Rightarrow> mapping \<Rightarrow> bool" where
  "overlaps addr len m \<longleftrightarrow>
     (addr \<ge> maddr m \<and> addr < mapping_end m) \<or>
     (addr + len - 1 \<ge> maddr m \<and> addr + len - 1 < mapping_end m) \<or>
     (maddr m \<ge> addr \<and> maddr m < addr + len - 1) \<or>
     (mapping_end m \<ge> addr \<and> mapping_end m < addr + len - 1)"

text \<open>The search for an address: one pass over the mappings in use.\<close>

fun place :: "mapping list \<Rightarrow> cint \<Rightarrow> uint \<Rightarrow> uint" where
  "place [] len new_addr = new_addr"
| "place (m # ms) len new_addr =
     place ms len (if overlaps new_addr len m then PGROUNDUP (mapping_end m) else new_addr)"

definition in_use :: "kproc \<Rightarrow> mapping list" where
  "in_use p = take (num_mappings p) (mappings p)"

definition add_mapping :: "mapping \<Rightarrow> kproc \<Rightarrow> kproc" where
  "add_mapping m p =
     (let n = num_mappings p + 1; ms = (mappings p)[num_mappings p := m]
      in p\<lparr>mappings := selectionSort ms n, num_mappings := n\<rparr>)"

definition wmap :: "uint \<Rightarrow> cint \<Rightarrow> cint \<Rightarrow> cint \<Rightarrow> kproc \<Rightarrow> uint \<times> kproc" where
  "wmap addr len flags fd p =
     (if num_mappings p \<ge> MAX_WMMAP_INFO \<or> len \<le>s 0 \<or> (flags AND MAP_PRIVATE \<noteq> 0 \<and> flags AND MAP_SHARED \<noteq> 0)
      then (WFAILED, p)
      else if flags AND MAP_FIXED \<noteq> 0
      then if addr < 0x60000000 \<or> addr \<ge> 0x80000000 \<or> addr mod PGSIZE \<noteq> 0 then (WFAILED, p)
           else if list_ex (overlaps addr len) (in_use p) then (WFAILED, p)
           else (addr, add_mapping \<lparr>maddr = addr, mlength = len, mflags = flags, mfd = fd, num_pages_loaded = 0\<rparr> p)
      else let new_addr = place (in_use p) len WMAP_BASE
           in if new_addr + len - 1 \<ge> KERNBASE then (WFAILED, p)
              else (new_addr, add_mapping \<lparr>maddr = new_addr, mlength = len, mflags = flags, mfd = fd, num_pages_loaded = 0\<rparr> p))"

subsection \<open>wunmap\<close>

fun find_mapping :: "mapping list \<Rightarrow> uint \<Rightarrow> nat \<Rightarrow> nat option" where
  "find_mapping [] addr i = None"
| "find_mapping (m # ms) addr i = (if maddr m = addr then Some i else find_mapping ms addr (i + 1))"

fun unmap_pages :: "nat \<Rightarrow> uint \<Rightarrow> uint \<Rightarrow> uint \<Rightarrow> kmem \<Rightarrow> kmem res" where
  "unmap_pages 0 pgdir a stop k = stuck ''wunmap''"
| "unmap_pages (Suc fuel) pgdir a stop k =
     (if a < stop
      then let (pte, _) = walkpgdir pgdir a False k
           in if pte \<noteq> 0 \<and> pte_read k pte AND PTE_P \<noteq> 0
              then andThen (kfree (P2V (PTE_ADDR (pte_read k pte))) k)
                     (\<lambda>k1. unmap_pages fuel pgdir (a + PGSIZE) stop (pte_write pte 0 k1))
              else unmap_pages fuel pgdir (a + PGSIZE) stop k
      else Inr k)"

text \<open>The shift loop copies entry \<open>j + 1\<close> to \<open>j\<close> for \<open>j\<close> from \<open>i\<close> to \<open>num_mappings - 1\<close>.\<close>

definition shift_mappings :: "nat \<Rightarrow> mapping \<Rightarrow> kproc \<Rightarrow> kproc" where
  "shift_mappings i oob p =
     p\<lparr>mappings := take i (mappings p) @ take (num_mappings p - i) (drop (i + 1) (mappings p @ [oob])) @
          drop (num_mappings p) (mappings p), num_mappings := num_mappings p - 1\<rparr>"

text \<open>
  Writing a shared file mapping back: \<^verbatim>\<open>ofile[fd]\<close> is used without a check, and the bytes are read
  through the page table while \<^verbatim>\<open>filewrite\<close> holds the inode's lock, which the page-fault handler
  needs too.
\<close>

definition write_back :: "mapping \<Rightarrow> 'a kernel_scheme \<Rightarrow> (cint \<times> 'a kernel_scheme) res" where
  "write_back m k =
     (let p = myproc k
      in if sint (mfd m) < 0 \<or> sint (mfd m) \<ge> 16 then stuck ''wunmap: ofile out of range''
         else case p_ofile p ! nat (sint (mfd m)) of
           None \<Rightarrow> stuck ''wunmap: null file''
         | Some f \<Rightarrow>
             (let k1 = file_update f (\<lambda>x. x\<lparr>foff := 0\<rparr>) k
              in if \<not> fwritable (ftable k1 f) then filewrite (p_killed p) f [] k1
                 else case user_read (nat (sint (mlength m))) (mmu_pgdir k1) (maddr m) (km k1) of
                   None \<Rightarrow> stuck ''wunmap: page fault under the inode lock''
                 | Some bs \<Rightarrow> filewrite (p_killed p) f bs k1))"

definition wunmap :: "uint \<Rightarrow> 'a kernel_scheme \<Rightarrow> (cint \<times> 'a kernel_scheme) res" where
  "wunmap addr k =
     (if addr mod PGSIZE \<noteq> 0 then Inr (WFAILED, k)
      else case find_mapping (in_use (myproc k)) addr 0 of
        None \<Rightarrow> Inr (WFAILED, k)
      | Some i \<Rightarrow>
          (let m = mappings (myproc k) ! i; start = maddr m; stop = PGROUNDUP (maddr m + mlength m)
           in andThen (if mflags m AND MAP_SHARED \<noteq> 0 \<and> mflags m AND MAP_ANONYMOUS = 0
                       then write_back m k else Inr (0, k)) (\<lambda>(r, k1).
                if r <s 0 then andThen (kprint (cstr ''filewrite failed'' @ [0x0a]) [] k1) (\<lambda>k2. Inr (WFAILED, k2))
                else andThen (do_km (unmap_pages page_fuel (p_pgdir (myproc k1)) start stop) k1) (\<lambda>k2.
                     Inr (0, my_update (shift_mappings i (oob_mapping k2)) k2)))))"

subsection \<open>wremap\<close>

fun shrink_pages :: "nat \<Rightarrow> uint \<Rightarrow> uint \<Rightarrow> cint \<Rightarrow> cint \<Rightarrow> kmem \<Rightarrow> kmem res" where
  "shrink_pages 0 pgdir oldaddr temp newsize k = stuck ''wremap''"
| "shrink_pages (Suc fuel) pgdir oldaddr temp newsize k =
     (if newsize <s temp
      then let (pte, _) = walkpgdir pgdir (oldaddr + temp - PGSIZE) False k
           in if pte \<noteq> 0 \<and> pte_read k pte AND PTE_P \<noteq> 0
              then andThen (kfree (P2V (PTE_ADDR (pte_read k pte))) k)
                     (\<lambda>k1. shrink_pages fuel pgdir oldaddr (temp - PGSIZE) newsize (pte_write pte 0 k1))
              else shrink_pages fuel pgdir oldaddr (temp - PGSIZE) newsize k
      else Inr k)"

text \<open>The pages move to the new address one by one, the result of \<^verbatim>\<open>mappages\<close> is ignored, and
  the page-table entry is dereferenced without a null check.\<close>

fun move_pages :: "nat \<Rightarrow> uint \<Rightarrow> uint \<Rightarrow> uint \<Rightarrow> cint \<Rightarrow> kmem \<Rightarrow> kmem res" where
  "move_pages 0 pgdir oldaddr new_addr oldsize k = stuck ''wremap''"
| "move_pages (Suc fuel) pgdir oldaddr new_addr oldsize k =
     (if 0 <s oldsize
      then let (pte, _) = walkpgdir pgdir (oldaddr + oldsize - PGSIZE) False k
           in if pte = 0 then stuck ''wremap: null pte''
              else if pte_read k pte AND PTE_P \<noteq> 0
              then andThen (mappages pgdir (new_addr + oldsize - PGSIZE) PGSIZE (PTE_ADDR (pte_read k pte)) (PTE_W OR PTE_U) k)
                     (\<lambda>(_, k1). move_pages fuel pgdir oldaddr new_addr (oldsize - PGSIZE) (pte_write pte 0 k1))
              else move_pages fuel pgdir oldaddr new_addr (oldsize - PGSIZE) k
      else Inr k)"

definition set_length :: "nat \<Rightarrow> cint \<Rightarrow> kproc \<Rightarrow> kproc" where
  "set_length i len p = p\<lparr>mappings := (mappings p)[i := (mappings p ! i)\<lparr>mlength := len\<rparr>]\<rparr>"

definition wremap_move :: "nat \<Rightarrow> uint \<Rightarrow> cint \<Rightarrow> cint \<Rightarrow> 'a kernel_scheme \<Rightarrow> (uint \<times> 'a kernel_scheme) res" where
  "wremap_move i oldaddr oldsize newsize k =
     (let p = myproc k; new_addr = place (in_use p) newsize WMAP_BASE
      in if new_addr + newsize - 1 \<ge> KERNBASE then Inr (WFAILED, k)
         else let k1 = my_update (\<lambda>p. p\<lparr>mappings := (mappings p)[i := (mappings p ! i)\<lparr>maddr := new_addr, mlength := newsize\<rparr>]\<rparr>) k
              in andThen (do_km (move_pages page_fuel (p_pgdir p) oldaddr new_addr oldsize) k1) (\<lambda>k2.
                 andThen (wunmap oldaddr k2) (\<lambda>(_, k3).
                 Inr (new_addr, my_update (\<lambda>p. p\<lparr>mappings := selectionSort (mappings p) (num_mappings p)\<rparr>) k3))))"

definition wremap :: "uint \<Rightarrow> cint \<Rightarrow> cint \<Rightarrow> cint \<Rightarrow> 'a kernel_scheme \<Rightarrow> (uint \<times> 'a kernel_scheme) res" where
  "wremap oldaddr oldsize newsize flags k =
     (if oldaddr mod PGSIZE \<noteq> 0 \<or> newsize \<le>s 0 then Inr (WFAILED, k)
      else let p = myproc k
           in case find_mapping (in_use p) oldaddr 0 of
                None \<Rightarrow> Inr (WFAILED, k)
              | Some i \<Rightarrow>
                  (let diff = newsize - oldsize; stop = oldaddr + newsize - 1; k1 = my_update (set_length i newsize) k
                   in if diff = 0 then Inr (oldaddr, k)
                      else if diff <s 0
                      then andThen (do_km (shrink_pages page_fuel (p_pgdir p) oldaddr oldsize newsize) k1) (\<lambda>k2. Inr (oldaddr, k2))
                      else if stop \<ge> KERNBASE then Inr (WFAILED, k)
                      else if i + 1 = num_mappings p then Inr (oldaddr, k1)
                      else if stop \<ge> maddr (mappings p ! (i + 1))
                      then if flags = 0 then Inr (WFAILED, k) else wremap_move i oldaddr oldsize newsize k
                      else Inr (oldaddr, k1)))"

subsection \<open>Reports\<close>

text \<open>The entries that \<^verbatim>\<open>getpgdirinfo\<close> stores; \<open>left\<close> more may be stored.\<close>

fun upages :: "nat \<Rightarrow> nat \<Rightarrow> uint \<Rightarrow> uint \<Rightarrow> kmem \<Rightarrow> (uint \<times> uint) list" where
  "upages 0 left pgdir va k = []"
| "upages (Suc fuel) left pgdir va k =
     (if 0 < left \<and> va < KERNBASE
      then let (pte, _) = walkpgdir pgdir va False k
           in if pte \<noteq> 0 \<and> pte_read k pte AND PTE_U \<noteq> 0
              then (va, PTE_ADDR (pte_read k pte)) # upages fuel (left - 1) pgdir (va + PGSIZE) k
              else upages fuel left pgdir (va + PGSIZE) k
      else [])"

definition getpgdirinfo :: "'a kernel_scheme \<Rightarrow> (uint \<times> uint) list" where
  "getpgdirinfo k = upages page_fuel MAX_UPAGE_INFO (p_pgdir (myproc k)) 0 (km k)"

definition getwmapinfo :: "'a kernel_scheme \<Rightarrow> (uint \<times> cint \<times> cint) list" where
  "getwmapinfo k = map (\<lambda>m. (maddr m, mlength m, num_pages_loaded m)) (in_use (myproc k))"

subsection \<open>Page faults\<close>

fun find_fault :: "mapping list \<Rightarrow> uint \<Rightarrow> nat \<Rightarrow> nat option" where
  "find_fault [] addr i = None"
| "find_fault (m # ms) addr i =
     (if addr \<ge> maddr m \<and> addr < maddr m + mlength m then Some i else find_fault ms addr (i + 1))"

definition count_loaded :: "nat \<Rightarrow> kproc \<Rightarrow> kproc" where
  "count_loaded i p = p\<lparr>mappings := (mappings p)[i := (mappings p ! i)\<lparr>num_pages_loaded := num_pages_loaded (mappings p ! i) + 1\<rparr>]\<rparr>"

definition fault_map :: "uint \<Rightarrow> uint \<Rightarrow> 'a kernel_scheme \<Rightarrow> (cint \<times> 'a kernel_scheme) res" where
  "fault_map addr v k =
     andThen (mappages (p_pgdir (myproc k)) addr PGSIZE (V2P v) (PTE_U OR PTE_W) (km k)) (\<lambda>(r, m1).
       if r \<noteq> 0 then andThen (kfree v m1) (\<lambda>m2. Inr (0, k\<lparr>km := m2\<rparr>)) else Inr (1, k\<lparr>km := m1\<rparr>))"

definition handle_pagefault :: "uint \<Rightarrow> 'a kernel_scheme \<Rightarrow> (cint \<times> 'a kernel_scheme) res" where
  "handle_pagefault addr k =
     (let p = myproc k
      in case find_fault (in_use p) addr 0 of
           None \<Rightarrow> Inr (0, k)
         | Some i \<Rightarrow>
             (let m = mappings p ! i; (v, m1) = kalloc (km k)
              in if v = 0 then Inr (0, k\<lparr>km := m1\<rparr>)
                 else let k1 = my_update (count_loaded i) (k\<lparr>km := m1\<rparr>)
                      in if mflags m AND MAP_ANONYMOUS \<noteq> 0
                         then andThen (fault_map addr v k1) (\<lambda>(r, k2).
                              Inr (r, if r \<noteq> 0 then k2\<lparr>km := (km k2)\<lparr>pmem := memset (V2P v) 0 PGSIZE (pmem (km k2))\<rparr>\<rparr> else k2))
                         else if sint (mfd m) < 0 \<or> sint (mfd m) \<ge> 16 then stuck ''handle_pagefault: ofile out of range''
                         else case p_ofile p ! nat (sint (mfd m)) of
                           None \<Rightarrow> stuck ''handle_pagefault: null file''
                         | Some f \<Rightarrow>
                             (let ip = fip (ftable k1 f)
                              in andThen (do_fs (ilock ip) k1) (\<lambda>k2.
                                 andThen (on_fs (\<lambda>s. andThen (readi ip (addr - maddr m) PGSIZE s) (\<lambda>(_, bs, s1). Inr (bs, s1))) k2) (\<lambda>(bs, k3).
                                 andThen (do_fs (iunlock ip) (k3\<lparr>km := (km k3)\<lparr>pmem := poke (pmem (km k3)) (V2P v) bs\<rparr>\<rparr>))
                                   (fault_map addr v))))))"

end
