(* ===== verification/Proc.thy ===== *)
theory Proc
  imports Wmap
begin

text \<open>
  Processes (\<^verbatim>\<open>proc.c\<close>) and \<^verbatim>\<open>switchuvm\<close>/\<^verbatim>\<open>switchkvm\<close> of \<^verbatim>\<open>vm.c\<close>. The bodies run with
  \<^verbatim>\<open>ptable.lock\<close> held where the code holds it. Giving up the processor is a change of the
  process state; \<open>schedule\<close> is one round of the scheduler's loop. \<^verbatim>\<open>wait\<close> either returns or leaves
  the process asleep, in which case it starts again when it is woken.
\<close>

abbreviation (input) KSTACKSIZE :: uint where "KSTACKSIZE \<equiv> 4096"
abbreviation (input) DPL_USER :: ushort where "DPL_USER \<equiv> 3"
abbreviation (input) FL_IF :: uint where "FL_IF \<equiv> 0x200"

subsection \<open>Sleeping, waking, scheduling\<close>

definition wake_if :: "chan option \<Rightarrow> kproc \<Rightarrow> kproc" where
  "wake_if c p = (if p_state p = SLEEPING \<and> p_chan p = c then p\<lparr>p_state := RUNNABLE\<rparr> else p)"

definition wakeup1 :: "chan option \<Rightarrow> 'a kernel_scheme \<Rightarrow> 'a kernel_scheme" where
  "wakeup1 c k = k\<lparr>procs := (\<lambda>p. if p < NPROC then wake_if c (procs k p) else procs k p)\<rparr>"

definition wakeup :: "chan \<Rightarrow> 'a kernel_scheme \<Rightarrow> 'a kernel_scheme" where
  "wakeup c k = wakeup1 (Some c) k"

text \<open>The wakeups that the file layer has asked for.\<close>

definition flush_wakeups :: "'a kernel_scheme \<Rightarrow> 'a kernel_scheme" where
  "flush_wakeups k = (fold wakeup (woken k) k)\<lparr>woken := []\<rparr>"

text \<open>\<^verbatim>\<open>switchuvm\<close> also fills in the task segment; only the page directory register is modelled.\<close>

definition switchuvm :: "nat \<Rightarrow> 'a kernel_scheme \<Rightarrow> 'a kernel_scheme res" where
  "switchuvm p k =
     (if p_kstack (procs k p) = 0 then panic ''switchuvm: no kstack''
      else if p_pgdir (procs k p) = 0 then panic ''switchuvm: no pgdir''
      else Inr (k\<lparr>cr3 := V2P (p_pgdir (procs k p))\<rparr>))"

definition switchkvm :: "uint \<Rightarrow> 'a kernel_scheme \<Rightarrow> 'a kernel_scheme" where
  "switchkvm kpgdir k = k\<lparr>cr3 := V2P kpgdir\<rparr>"

definition kvmalloc :: "'a kernel_scheme \<Rightarrow> (uint \<times> 'a kernel_scheme) res" where
  "kvmalloc k = andThen (on_km setupkvm k) (\<lambda>(kpgdir, k1). Inr (kpgdir, switchkvm kpgdir k1))"

fun pick :: "nat \<Rightarrow> nat \<Rightarrow> (nat \<Rightarrow> kproc) \<Rightarrow> nat option" where
  "pick 0 p t = None"
| "pick (Suc n) p t = (if p_state (t p) = RUNNABLE then Some p else pick n (p + 1) t)"

text \<open>The loop of \<^verbatim>\<open>scheduler\<close> from table entry \<open>p\<close> on: the first runnable process gets the processor.\<close>

definition schedule :: "nat \<Rightarrow> 'a kernel_scheme \<Rightarrow> (nat option \<times> 'a kernel_scheme) res" where
  "schedule p k =
     (case pick (NPROC - p) p (procs k) of
        None \<Rightarrow> Inr (None, k)
      | Some q \<Rightarrow> andThen (switchuvm q k) (\<lambda>k1.
          Inr (Some q, (proc_update q (\<lambda>x. x\<lparr>p_state := RUNNING\<rparr>) k1)\<lparr>cur := q, fs := (fs k1)\<lparr>mypid := p_pid (procs k1 q)\<rparr>\<rparr>)))"

definition sched :: "'a kernel_scheme \<Rightarrow> 'a kernel_scheme res" where
  "sched k = (if p_state (myproc k) = RUNNING then panic ''sched running'' else Inr k)"

definition yield :: "'a kernel_scheme \<Rightarrow> 'a kernel_scheme res" where
  "yield k = sched (my_update (\<lambda>p. p\<lparr>p_state := RUNNABLE\<rparr>) k)"

definition sleep :: "chan \<Rightarrow> 'a kernel_scheme \<Rightarrow> 'a kernel_scheme res" where
  "sleep c k = sched (my_update (\<lambda>p. p\<lparr>p_chan := Some c, p_state := SLEEPING\<rparr>) k)"

text \<open>What \<^verbatim>\<open>sleep\<close> does once the process has the processor again.\<close>

definition sleep_resume :: "'a kernel_scheme \<Rightarrow> 'a kernel_scheme" where
  "sleep_resume k = my_update (\<lambda>p. p\<lparr>p_chan := None\<rparr>) k"

definition forkret :: "'a kernel_scheme \<Rightarrow> 'a kernel_scheme res" where
  "forkret k =
     (if first k then andThen (do_fs (iinit ROOTDEV) (k\<lparr>first := False\<rparr>)) (do_fs (initlog ROOTDEV)) else Inr k)"

fun kill_loop :: "nat \<Rightarrow> nat \<Rightarrow> cint \<Rightarrow> 'a kernel_scheme \<Rightarrow> cint \<times> 'a kernel_scheme" where
  "kill_loop 0 p pid k = (-1, k)"
| "kill_loop (Suc n) p pid k =
     (if p_pid (procs k p) = pid
      then (0, proc_update p (\<lambda>x. x\<lparr>p_killed := True, p_state := (if p_state x = SLEEPING then RUNNABLE else p_state x)\<rparr>) k)
      else kill_loop n (p + 1) pid k)"

definition kill :: "cint \<Rightarrow> 'a kernel_scheme \<Rightarrow> cint \<times> 'a kernel_scheme" where
  "kill pid k = kill_loop NPROC 0 pid k"

subsection \<open>Creating processes\<close>

fun find_unused :: "nat \<Rightarrow> nat \<Rightarrow> (nat \<Rightarrow> kproc) \<Rightarrow> nat option" where
  "find_unused 0 p t = None"
| "find_unused (Suc n) p t = (if p_state (t p) = UNUSED then Some p else find_unused n (p + 1) t)"

text \<open>The frame below the trap frame on the new kernel stack: the return address \<^verbatim>\<open>trapret\<close> and a
  context whose \<^verbatim>\<open>eip\<close> is \<^verbatim>\<open>forkret\<close>; a trap frame is 76 bytes, a context 20.\<close>

definition init_kstack :: "uint \<Rightarrow> 'a kernel_scheme \<Rightarrow> 'a kernel_scheme" where
  "init_kstack kstack k =
     (let sp1 = kstack + KSTACKSIZE - 76 - 4; sp2 = sp1 - 20; m = pmem (km k);
          m1 = store32 m (V2P sp1) (trapret k); m2 = memset (V2P sp2) 0 20 m1; m3 = store32 m2 (V2P (sp2 + 16)) (forkret_addr k)
      in k\<lparr>km := (km k)\<lparr>pmem := m3\<rparr>\<rparr>)"

definition allocproc :: "'a kernel_scheme \<Rightarrow> nat option \<times> 'a kernel_scheme" where
  "allocproc k =
     (case find_unused NPROC 0 (procs k) of
        None \<Rightarrow> (None, k)
      | Some p \<Rightarrow>
         (let k1 = (proc_update p (\<lambda>x. x\<lparr>p_state := EMBRYO, p_pid := nextpid k\<rparr>) k)\<lparr>nextpid := nextpid k + 1\<rparr>;
              (v, m) = kalloc (km k1); k2 = proc_update p (\<lambda>x. x\<lparr>p_kstack := v\<rparr>) (k1\<lparr>km := m\<rparr>)
          in if v = 0 then (None, proc_update p (\<lambda>x. x\<lparr>p_state := UNUSED\<rparr>) k2)
             else (Some p, proc_update p (\<lambda>x. x\<lparr>num_mappings := 0\<rparr>) (init_kstack v k2))))"

definition user_tf :: trapframe where
  "user_tf = \<lparr>tf_edi = 0, tf_esi = 0, tf_ebp = 0, tf_ebx = 0, tf_edx = 0, tf_ecx = 0, tf_eax = 0, tf_es = 0x23, tf_ds = 0x23,
     tf_trapno = 0, tf_err = 0, tf_eip = 0, tf_cs = 0x1b, tf_eflags = FL_IF, tf_esp = PGSIZE, tf_ss = 0x23\<rparr>"

text \<open>\<open>initcode\<close> is the image that the build links into the kernel.\<close>

definition userinit :: "byte list \<Rightarrow> 'a kernel_scheme \<Rightarrow> 'a kernel_scheme res" where
  "userinit initcode k =
     (case allocproc k of
        (None, _) \<Rightarrow> stuck ''userinit: no process''
      | (Some p, k1) \<Rightarrow>
          andThen (on_km setupkvm (k1\<lparr>initproc := Some p\<rparr>)) (\<lambda>(pgdir, k2).
            if pgdir = 0 then panic ''userinit: out of memory?''
            else andThen (do_km (inituvm pgdir initcode) k2) (\<lambda>k3.
                 andThen (on_fs (namei 0 [slash]) k3) (\<lambda>(ip, k4).
                 Inr (proc_update p (\<lambda>x. x\<lparr>p_pgdir := pgdir, p_sz := PGSIZE, p_tf := user_tf,
                        p_name := [105, 110, 105, 116, 99, 111, 100, 101], p_cwd := ip, p_state := RUNNABLE\<rparr>) k4)))))"

definition growproc :: "cint \<Rightarrow> 'a kernel_scheme \<Rightarrow> (cint \<times> 'a kernel_scheme) res" where
  "growproc n k =
     (let p = myproc k; sz = p_sz p
      in andThen (if 0 <s n then on_km (allocuvm (p_pgdir p) sz (sz + n)) k
                  else if n <s 0 then on_km (deallocuvm (p_pgdir p) sz (sz + n)) k
                  else Inr (sz, k)) (\<lambda>(sz1, k1).
           if n \<noteq> 0 \<and> sz1 = 0 then Inr (-1, k1)
           else andThen (switchuvm (cur k1) (my_update (\<lambda>x. x\<lparr>p_sz := sz1\<rparr>) k1)) (\<lambda>k2. Inr (0, k2))))"

subsection \<open>fork\<close>

text \<open>The pages of one mapping, from byte offset \<open>off\<close> on; the result says whether all went well. A
  private page is copied from the address the processor sees it at, translated by \<open>mmu\<close>.\<close>

fun fork_pages :: "nat \<Rightarrow> mapping \<Rightarrow> uint \<Rightarrow> uint \<Rightarrow> uint \<Rightarrow> uint \<Rightarrow> kmem \<Rightarrow> (bool \<times> kmem) res" where
  "fork_pages 0 m off mmu pgdir npgdir k = stuck ''fork''"
| "fork_pages (Suc fuel) m off mmu pgdir npgdir k =
     (if off < mlength m
      then let addr = maddr m + off
           in if addr mod PGSIZE \<noteq> 0 then Inr (False, k)
              else let (pte, _) = walkpgdir pgdir addr False k; e = pte_read k pte
                   in if pte = 0 then stuck ''fork: null pte''
                      else if e \<noteq> 0 \<and> e AND PTE_P \<noteq> 0
                      then if mflags m AND MAP_SHARED \<noteq> 0
                           then andThen (mappages npgdir addr PGSIZE (PTE_ADDR e) (PTE_U OR PTE_W) k) (\<lambda>(r, k1).
                                  if r <s 0 then Inr (False, k1) else fork_pages fuel m (off + PGSIZE) mmu pgdir npgdir k1)
                           else let (v, k1) = kalloc k
                                in if v = 0 then Inr (False, k1)
                                   else andThen (mappages npgdir addr PGSIZE (V2P v) (PTE_U OR PTE_W) k1) (\<lambda>(r, k2).
                                          if r <s 0 then Inr (False, k2)
                                          else case user_page k2 mmu addr of
                                                 None \<Rightarrow> stuck ''fork: page fault''
                                               | Some pa \<Rightarrow> fork_pages fuel m (off + PGSIZE) mmu pgdir npgdir
                                                   (k2\<lparr>pmem := memmove (V2P v) pa PGSIZE (pmem k2)\<rparr>))
                      else fork_pages fuel m (off + PGSIZE) mmu pgdir npgdir k
      else Inr (True, k))"

text \<open>Over the mappings in use: an unaligned mapping ends the loop, a failed page only its mapping.\<close>

fun fork_mappings :: "mapping list \<Rightarrow> bool \<Rightarrow> uint \<Rightarrow> uint \<Rightarrow> uint \<Rightarrow> kmem \<Rightarrow> (bool \<times> kmem) res" where
  "fork_mappings [] ok mmu pgdir npgdir k = Inr (ok, k)"
| "fork_mappings (m # ms) ok mmu pgdir npgdir k =
     (if maddr m mod PGSIZE \<noteq> 0 then Inr (False, k)
      else andThen (fork_pages page_fuel m 0 mmu pgdir npgdir k) (\<lambda>(r, k1). fork_mappings ms (ok \<and> r) mmu pgdir npgdir k1))"

fun dup_files :: "nat option list \<Rightarrow> 'a fstate_scheme \<Rightarrow> (nat option list \<times> 'a fstate_scheme) res" where
  "dup_files [] st = Inr ([], st)"
| "dup_files (None # fds) st = andThen (dup_files fds st) (\<lambda>(r, st1). Inr (None # r, st1))"
| "dup_files (Some f # fds) st =
     andThen (filedup f st) (\<lambda>(g, st1). andThen (dup_files fds st1) (\<lambda>(r, st2). Inr (Some g # r, st2)))"

definition merge_files :: "nat option list \<Rightarrow> nat option list \<Rightarrow> nat option list" where
  "merge_files new old = map2 (\<lambda>a b. if a = None then b else a) new old"

definition fork :: "'a kernel_scheme \<Rightarrow> (cint \<times> 'a kernel_scheme) res" where
  "fork k =
     (case allocproc k of
        (None, k1) \<Rightarrow> Inr (-1, k1)
      | (Some np, k1) \<Rightarrow>
         (let p = myproc k1
          in andThen (on_km (copyuvm (p_pgdir p) (p_sz p)) k1) (\<lambda>(d, k2).
               if d = 0
               then andThen (do_km (kfree (p_kstack (procs k2 np))) k2) (\<lambda>k3.
                    Inr (-1, proc_update np (\<lambda>x. x\<lparr>p_pgdir := 0, p_kstack := 0, p_state := UNUSED\<rparr>) k3))
               else andThen (dup_files (p_ofile p) k2) (\<lambda>(fds, k3). andThen (my_cwd k3) (\<lambda>c.
                 let k4 = k3\<lparr>fs := snd (idup c (fs k3))\<rparr>;
                     k5 = proc_update np (\<lambda>x. x\<lparr>p_pgdir := d, p_sz := p_sz p, p_parent := Some (cur k4),
                            p_tf := (p_tf p)\<lparr>tf_eax := 0\<rparr>, p_ofile := merge_files fds (p_ofile x), p_cwd := Some c,
                            p_name := p_name p, p_state := RUNNABLE, num_mappings := num_mappings p\<rparr>) k4;
                     pid = p_pid (procs k5 np)
                 in andThen (on_km (fork_mappings (in_use p) True (mmu_pgdir k5) (p_pgdir p) d) k5) (\<lambda>(ok, k6).
                      if ok then Inr (pid, k6\<lparr>cr3 := V2P d\<rparr>) else Inr (-1, k6)))))))"

subsection \<open>exit and wait\<close>

text \<open>\<open>n\<close> bounds the rounds of the loop over the shrinking table; \<open>i\<close> is its counter.\<close>

fun exit_unmap :: "nat \<Rightarrow> nat \<Rightarrow> 'a kernel_scheme \<Rightarrow> 'a kernel_scheme res" where
  "exit_unmap 0 i k = Inr k"
| "exit_unmap (Suc n) i k =
     (if i < num_mappings (myproc k)
      then andThen (wunmap (maddr (mappings (myproc k) ! i)) k) (\<lambda>(_, k1). exit_unmap n (i + 1) k1)
      else Inr k)"

fun close_files :: "nat \<Rightarrow> nat \<Rightarrow> 'a kernel_scheme \<Rightarrow> 'a kernel_scheme res" where
  "close_files 0 fd k = Inr k"
| "close_files (Suc n) fd k =
     (case p_ofile (myproc k) ! fd of
        None \<Rightarrow> close_files n (fd + 1) k
      | Some f \<Rightarrow> andThen (fileclose f k) (\<lambda>k1.
          close_files n (fd + 1) (my_update (\<lambda>x. x\<lparr>p_ofile := (p_ofile x)[fd := None]\<rparr>) k1)))"

fun reparent :: "nat \<Rightarrow> nat \<Rightarrow> 'a kernel_scheme \<Rightarrow> 'a kernel_scheme" where
  "reparent 0 p k = k"
| "reparent (Suc n) p k =
     (if p_parent (procs k p) = Some (cur k)
      then let k1 = proc_update p (\<lambda>x. x\<lparr>p_parent := initproc k\<rparr>) k
           in reparent n (p + 1) (if p_state (procs k1 p) = ZOMBIE then wakeup1 (map_option ChanProc (initproc k1)) k1 else k1)
      else reparent n (p + 1) k)"

definition exit :: "'a kernel_scheme \<Rightarrow> 'a kernel_scheme res" where
  "exit k =
     andThen (exit_unmap (num_mappings (myproc k)) 0 k) (\<lambda>k1.
       if Some (cur k1) = initproc k1 then panic ''init exiting''
       else andThen (close_files NOFILE 0 k1) (\<lambda>k2.
            andThen (do_fs begin_op k2) (\<lambda>k3.
            andThen (andThen (my_cwd k3) (\<lambda>c. do_fs (iput c) k3)) (\<lambda>k4.
            andThen (do_fs end_op k4) (\<lambda>k5.
            let k6 = flush_wakeups (my_update (\<lambda>x. x\<lparr>p_cwd := None\<rparr>) k5);
                k7 = wakeup1 (map_option ChanProc (p_parent (myproc k6))) k6;
                k8 = reparent NPROC 0 k7
            in sched (my_update (\<lambda>x. x\<lparr>p_state := ZOMBIE\<rparr>) k8))))))"

text \<open>One scan of the table by \<^verbatim>\<open>wait\<close>: the first zombie child, if any, and whether there are children.\<close>

fun wait_scan :: "nat \<Rightarrow> nat \<Rightarrow> nat \<Rightarrow> (nat \<Rightarrow> kproc) \<Rightarrow> bool \<Rightarrow> nat option \<times> bool" where
  "wait_scan 0 p me t havekids = (None, havekids)"
| "wait_scan (Suc n) p me t havekids =
     (if p_parent (t p) \<noteq> Some me then wait_scan n (p + 1) me t havekids
      else if p_state (t p) = ZOMBIE then (Some p, True)
      else wait_scan n (p + 1) me t True)"

text \<open>The result is the value returned, or nothing when the process has gone to sleep.\<close>

definition wait :: "'a kernel_scheme \<Rightarrow> (cint option \<times> 'a kernel_scheme) res" where
  "wait k =
     (case wait_scan NPROC 0 (cur k) (procs k) False of
        (Some c, _) \<Rightarrow>
          andThen (do_km (kfree (p_kstack (procs k c))) k) (\<lambda>k1.
          andThen (do_km (freevm (p_pgdir (procs k1 c))) k1) (\<lambda>k2.
          Inr (Some (p_pid (procs k c)), proc_update c (\<lambda>x. x\<lparr>p_kstack := 0, p_pid := 0, p_parent := None, p_name := [],
                 p_killed := False, p_state := UNUSED\<rparr>) k2)))
      | (None, havekids) \<Rightarrow>
          if \<not> havekids \<or> p_killed (myproc k) then Inr (Some (-1), k)
          else andThen (sleep (ChanProc (cur k)) k) (\<lambda>k1. Inr (None, k1)))"

end
