(* ===== verification/Syscall.thy ===== *)
theory Syscall
  imports Proc
begin

text \<open>
  The arguments of system calls (\<^verbatim>\<open>syscall.c\<close>). A fetch gives the value, or \<open>None\<close> where the C function
  returns -1; a page fault while the kernel reads the user's memory is a failure. A fetched string is
  the bytes before the terminating zero. The result of a system call is the C return value, or
  \<open>None\<close> when the process has given up the processor inside the call.
\<close>

definition fetchint :: "uint \<Rightarrow> kernel \<Rightarrow> cint option res" where
  "fetchint addr k =
     (let sz = p_sz (myproc k)
      in if addr \<ge> sz \<or> addr + 4 > sz then Inr None
         else case user_read 4 (mmu_pgdir k) addr (km k) of
                None \<Rightarrow> stuck ''fetchint: page fault''
              | Some bs \<Rightarrow> Inr (Some (get32 bs 0)))"

text \<open>At most \<open>n\<close> bytes are left before the end of the address space.\<close>

fun scan_str :: "nat \<Rightarrow> uint \<Rightarrow> uint \<Rightarrow> kmem \<Rightarrow> byte list option res" where
  "scan_str 0 pgdir s k = Inr None"
| "scan_str (Suc n) pgdir s k =
     (case user_byte k pgdir s of
        None \<Rightarrow> stuck ''fetchstr: page fault''
      | Some b \<Rightarrow> if b = 0 then Inr (Some [])
                  else andThen (scan_str n pgdir (s + 1) k) (\<lambda>r. Inr (map_option (Cons b) r)))"

definition fetchstr :: "uint \<Rightarrow> kernel \<Rightarrow> byte list option res" where
  "fetchstr addr k =
     (let sz = p_sz (myproc k)
      in if addr \<ge> sz then Inr None else scan_str (unat (sz - addr)) (mmu_pgdir k) addr (km k))"

definition argint :: "nat \<Rightarrow> kernel \<Rightarrow> cint option res" where
  "argint n k = fetchint (tf_esp (p_tf (myproc k)) + 4 + 4 * of_nat n) k"

definition argptr :: "nat \<Rightarrow> cint \<Rightarrow> kernel \<Rightarrow> uint option res" where
  "argptr n len k =
     andThen (argint n k) (\<lambda>x.
       case x of
         None \<Rightarrow> Inr None
       | Some i \<Rightarrow> (let sz = p_sz (myproc k)
                    in if len <s 0 \<or> i \<ge> sz \<or> i + len > sz then Inr None else Inr (Some i)))"

definition argstr :: "nat \<Rightarrow> kernel \<Rightarrow> byte list option res" where
  "argstr n k = andThen (argint n k) (\<lambda>x. case x of None \<Rightarrow> Inr None | Some addr \<Rightarrow> fetchstr addr k)"

text \<open>The idiom \<^verbatim>\<open>if(arg...(n, &x) < 0) return -1;\<close>.\<close>

definition with_arg :: "'b option res \<Rightarrow> kernel \<Rightarrow> ('b \<Rightarrow> (cint option \<times> kernel) res) \<Rightarrow> (cint option \<times> kernel) res" where
  "with_arg r k f = andThen r (\<lambda>x. case x of None \<Rightarrow> Inr (Some (-1), k) | Some a \<Rightarrow> f a)"

text \<open>Stores to user memory at several places.\<close>

fun user_writes :: "(uint \<times> byte list) list \<Rightarrow> kernel \<Rightarrow> kernel res" where
  "user_writes [] k = Inr k"
| "user_writes ((va, bs) # ws) k =
     (case user_write bs (mmu_pgdir k) va (km k) of
        None \<Rightarrow> stuck ''page fault''
      | Some m \<Rightarrow> user_writes ws (k\<lparr>km := m\<rparr>))"

end
