(* ===== verification/Sysproc.thy ===== *)
theory Sysproc
  imports Syscall
begin

text \<open>
  The system calls of \<^verbatim>\<open>sysproc.c\<close>. \<^verbatim>\<open>sys_sleep\<close> is split at its call of \<^verbatim>\<open>sleep\<close>: \<open>sleep_check\<close> is one
  round of its loop, which runs again after each wakeup.
\<close>

definition sys_fork :: "kernel \<Rightarrow> (cint option \<times> kernel) res" where
  "sys_fork k = andThen (fork k) (\<lambda>(r, k1). Inr (Some r, k1))"

definition sys_exit :: "kernel \<Rightarrow> (cint option \<times> kernel) res" where
  "sys_exit k = andThen (exit k) (\<lambda>k1. Inr (None, k1))"

definition sys_wait :: "kernel \<Rightarrow> (cint option \<times> kernel) res" where
  "sys_wait k = wait k"

definition sys_kill :: "kernel \<Rightarrow> (cint option \<times> kernel) res" where
  "sys_kill k = with_arg (argint 0 k) k (\<lambda>pid. let (r, k1) = kill pid k in Inr (Some r, k1))"

definition sys_getpid :: "kernel \<Rightarrow> (cint option \<times> kernel) res" where
  "sys_getpid k = Inr (Some (p_pid (myproc k)), k)"

definition sys_sbrk :: "kernel \<Rightarrow> (cint option \<times> kernel) res" where
  "sys_sbrk k =
     with_arg (argint 0 k) k (\<lambda>n.
       let addr = p_sz (myproc k)
       in andThen (growproc n k) (\<lambda>(r, k1). Inr (Some (if r <s 0 then -1 else addr), k1)))"

definition sleep_check :: "uint \<Rightarrow> cint \<Rightarrow> kernel \<Rightarrow> (cint option \<times> kernel) res" where
  "sleep_check ticks0 n k =
     (if ticks k - ticks0 < n
      then if p_killed (myproc k) then Inr (Some (-1), k)
           else andThen (sleep ChanTicks k) (\<lambda>k1. Inr (None, k1))
      else Inr (Some 0, k))"

definition sys_sleep :: "kernel \<Rightarrow> (cint option \<times> kernel) res" where
  "sys_sleep k = with_arg (argint 0 k) k (\<lambda>n. sleep_check (ticks k) n k)"

definition sys_uptime :: "kernel \<Rightarrow> (cint option \<times> kernel) res" where
  "sys_uptime k = Inr (Some (ticks k), k)"

text \<open>
  The last test of \<^verbatim>\<open>sys_wmap\<close> compares the return value of \<^verbatim>\<open>argint\<close>, which is 0 or -1, with
  \<^verbatim>\<open>NOFILE\<close>: it never rejects.
\<close>

definition sys_wmap :: "kernel \<Rightarrow> (cint option \<times> kernel) res" where
  "sys_wmap k =
     with_arg (argint 0 k) k (\<lambda>addr. with_arg (argint 1 k) k (\<lambda>len.
     with_arg (argint 2 k) k (\<lambda>flags. with_arg (argint 3 k) k (\<lambda>fd.
       let (r, p) = wmap addr len flags fd (myproc k) in Inr (Some r, my_update (\<lambda>_. p) k)))))"

definition sys_wunmap :: "kernel \<Rightarrow> (cint option \<times> kernel) res" where
  "sys_wunmap k = with_arg (argint 0 k) k (\<lambda>addr. andThen (wunmap addr k) (\<lambda>(r, k1). Inr (Some r, k1)))"

definition sys_wremap :: "kernel \<Rightarrow> (cint option \<times> kernel) res" where
  "sys_wremap k =
     with_arg (argint 0 k) k (\<lambda>oldaddr. with_arg (argint 1 k) k (\<lambda>oldsize.
     with_arg (argint 2 k) k (\<lambda>newsize. with_arg (argint 3 k) k (\<lambda>flags.
       andThen (wremap oldaddr oldsize newsize flags k) (\<lambda>(r, k1). Inr (Some r, k1))))))"

text \<open>
  The structures the two reporting calls fill in: the fields and arrays in the order of \<^verbatim>\<open>wmap.h\<close>. The
  pointer is checked for the size of a pointer only.
\<close>

definition array_at :: "uint \<Rightarrow> uint list \<Rightarrow> (uint \<times> byte list) list" where
  "array_at base ws = map (\<lambda>i. (base + 4 * of_nat i, le32 (ws ! i))) [0..<length ws]"

definition pgdirinfo_at :: "uint \<Rightarrow> (uint \<times> uint) list \<Rightarrow> (uint \<times> byte list) list" where
  "pgdirinfo_at p ps =
     (p, le32 (of_nat (length ps))) # array_at (p + 4) (map fst ps)
       @ array_at (p + 4 + 4 * of_nat MAX_UPAGE_INFO) (map snd ps)"

definition sys_getpgdirinfo :: "kernel \<Rightarrow> (cint option \<times> kernel) res" where
  "sys_getpgdirinfo k =
     with_arg (argptr 0 4 k) k (\<lambda>p.
       andThen (user_writes (pgdirinfo_at p (getpgdirinfo k)) k) (\<lambda>k1. Inr (Some 0, k1)))"

definition wmapinfo_at :: "uint \<Rightarrow> (uint \<times> cint \<times> cint) list \<Rightarrow> (uint \<times> byte list) list" where
  "wmapinfo_at p ms =
     (p, le32 (of_nat (length ms))) # array_at (p + 4) (map fst ms)
       @ array_at (p + 4 + 4 * of_nat MAX_WMMAP_INFO) (map (fst \<circ> snd) ms)
       @ array_at (p + 4 + 8 * of_nat MAX_WMMAP_INFO) (map (snd \<circ> snd) ms)"

definition sys_getwmapinfo :: "kernel \<Rightarrow> (cint option \<times> kernel) res" where
  "sys_getwmapinfo k =
     with_arg (argptr 0 4 k) k (\<lambda>p.
       andThen (user_writes (wmapinfo_at p (getwmapinfo k)) k) (\<lambda>k1. Inr (Some 0, k1)))"

end
