(* ===== verification/Exec.thy ===== *)
theory Exec
  imports Proc
begin

text \<open>
  Loading a program (\<^verbatim>\<open>exec.c\<close>, \<^verbatim>\<open>elf.h\<close>, \<^verbatim>\<open>loaduvm\<close> of \<^verbatim>\<open>vm.c\<close>). The headers are decoded from the
  bytes of the file. \<^verbatim>\<open>argv\<close> is the list of the argument strings. The result of the parts that can go to
  the label \<^verbatim>\<open>bad\<close> is \<open>None\<close> there.
\<close>

abbreviation (input) ELF_MAGIC :: uint where "ELF_MAGIC \<equiv> 0x464C457F"
abbreviation (input) ELF_PROG_LOAD :: uint where "ELF_PROG_LOAD \<equiv> 1"
abbreviation (input) MAXARG :: nat where "MAXARG \<equiv> 32"

record elfhdr =
  e_magic :: uint
  e_entry :: uint
  e_phoff :: uint
  e_phnum :: ushort

definition get_elfhdr :: "byte list \<Rightarrow> elfhdr" where
  "get_elfhdr bs = \<lparr>e_magic = get32 bs 0, e_entry = get32 bs 24, e_phoff = get32 bs 28, e_phnum = get16 bs 44\<rparr>"

record proghdr =
  ph_type :: uint
  ph_off :: uint
  ph_vaddr :: uint
  ph_filesz :: uint
  ph_memsz :: uint

definition get_proghdr :: "byte list \<Rightarrow> proghdr" where
  "get_proghdr bs = \<lparr>ph_type = get32 bs 0, ph_off = get32 bs 4, ph_vaddr = get32 bs 8, ph_filesz = get32 bs 16,
     ph_memsz = get32 bs 20\<rparr>"

definition kreadi :: "nat \<Rightarrow> uint \<Rightarrow> uint \<Rightarrow> kernel \<Rightarrow> ((cint \<times> byte list) \<times> kernel) res" where
  "kreadi ip off n k = on_fs (\<lambda>s. andThen (readi ip off n s) (\<lambda>(r, bs, s1). Inr ((r, bs), s1))) k"

fun loaduvm_loop :: "nat \<Rightarrow> uint \<Rightarrow> uint \<Rightarrow> nat \<Rightarrow> uint \<Rightarrow> uint \<Rightarrow> uint \<Rightarrow> kernel \<Rightarrow> (cint \<times> kernel) res" where
  "loaduvm_loop 0 pgdir addr ip offset sz i k = stuck ''loaduvm''"
| "loaduvm_loop (Suc fuel) pgdir addr ip offset sz i k =
     (if i < sz
      then let (pte, _) = walkpgdir pgdir (addr + i) False (km k)
           in if pte = 0 then panic ''loaduvm: address should exist''
              else let pa = PTE_ADDR (pte_read (km k) pte); n = (if sz - i < PGSIZE then sz - i else PGSIZE)
                   in andThen (kreadi ip (offset + i) n k) (\<lambda>((r, bs), k1).
                        let k2 = k1\<lparr>km := (km k1)\<lparr>pmem := poke (pmem (km k1)) pa bs\<rparr>\<rparr>
                        in if r \<noteq> n then Inr (-1, k2) else loaduvm_loop fuel pgdir addr ip offset sz (i + PGSIZE) k2)
      else Inr (0, k))"

definition loaduvm :: "uint \<Rightarrow> uint \<Rightarrow> nat \<Rightarrow> uint \<Rightarrow> uint \<Rightarrow> kernel \<Rightarrow> (cint \<times> kernel) res" where
  "loaduvm pgdir addr ip offset sz k =
     (if addr mod PGSIZE \<noteq> 0 then panic ''loaduvm: addr must be page aligned''
      else loaduvm_loop page_fuel pgdir addr ip offset sz 0 k)"

text \<open>The program headers: \<open>n\<close> of them are left, the next one is at \<open>off\<close>. The result is the size.\<close>

fun load_segments :: "nat \<Rightarrow> uint \<Rightarrow> uint \<Rightarrow> uint \<Rightarrow> nat \<Rightarrow> kernel \<Rightarrow> (uint option \<times> kernel) res" where
  "load_segments 0 off sz pgdir ip k = Inr (Some sz, k)"
| "load_segments (Suc n) off sz pgdir ip k =
     andThen (kreadi ip off 32 k) (\<lambda>((r, bs), k1).
       if r \<noteq> 32 then Inr (None, k1)
       else let ph = get_proghdr bs
            in if ph_type ph \<noteq> ELF_PROG_LOAD then load_segments n (off + 32) sz pgdir ip k1
               else if ph_memsz ph < ph_filesz ph then Inr (None, k1)
               else if ph_vaddr ph + ph_memsz ph < ph_vaddr ph then Inr (None, k1)
               else andThen (on_km (allocuvm pgdir sz (ph_vaddr ph + ph_memsz ph)) k1) (\<lambda>(sz1, k2).
                 if sz1 = 0 then Inr (None, k2)
                 else if ph_vaddr ph mod PGSIZE \<noteq> 0 then Inr (None, k2)
                 else andThen (loaduvm pgdir (ph_vaddr ph) ip (ph_off ph) (ph_filesz ph) k2) (\<lambda>(r2, k3).
                   if r2 <s 0 then Inr (None, k3) else load_segments n (off + 32) sz1 pgdir ip k3)))"

text \<open>The argument strings: the stack pointer after them and their addresses.\<close>

fun push_args :: "byte list list \<Rightarrow> nat \<Rightarrow> uint \<Rightarrow> uint \<Rightarrow> kmem \<Rightarrow> ((uint \<times> uint list) option \<times> kmem) res" where
  "push_args [] argc pgdir sp k = Inr (Some (sp, []), k)"
| "push_args (a # argv) argc pgdir sp k =
     (if argc \<ge> MAXARG then Inr (None, k)
      else let sp1 = (sp - (of_nat (length a) + 1)) AND NOT 3
           in andThen (copyout pgdir sp1 (a @ [0]) k) (\<lambda>(r, k1).
                if r <s 0 then Inr (None, k1)
                else andThen (push_args argv (argc + 1) pgdir sp1 k1) (\<lambda>(q, k2).
                       Inr (map_option (\<lambda>(sp2, us). (sp2, sp1 # us)) q, k2))))"

definition ustack :: "uint \<Rightarrow> uint list \<Rightarrow> uint list" where
  "ustack sp args =
     (let argc = of_nat (length args) in [0xffffffff, argc, sp - (argc + 1) * 4] @ args @ [0])"

text \<open>The user stack: guard page, strings and \<^verbatim>\<open>ustack\<close>. The result is the new size and stack pointer.\<close>

definition exec_stack :: "uint \<Rightarrow> uint \<Rightarrow> byte list list \<Rightarrow> kernel \<Rightarrow> ((uint \<times> uint) option \<times> kernel) res" where
  "exec_stack pgdir sz0 argv k =
     (let sz1 = PGROUNDUP sz0
      in andThen (on_km (allocuvm pgdir sz1 (sz1 + 2 * PGSIZE)) k) (\<lambda>(sz, k1).
           if sz = 0 then Inr (None, k1)
           else andThen (do_km (clearpteu pgdir (sz - 2 * PGSIZE)) k1) (\<lambda>k2.
                andThen (on_km (push_args argv 0 pgdir sz) k2) (\<lambda>(q, k3).
                  case q of
                    None \<Rightarrow> Inr (None, k3)
                  | Some (sp, args) \<Rightarrow>
                      (let us = ustack sp args; sp1 = sp - 4 * of_nat (length us)
                       in andThen (on_km (copyout pgdir sp1 (concat (map le32 us))) k3) (\<lambda>(r, k4).
                            Inr (if r <s 0 then None else Some (sz, sp1), k4)))))))"

definition last_element :: "byte list \<Rightarrow> byte list" where
  "last_element path = rev (takeWhile (\<lambda>c. c \<noteq> slash) (rev path))"

definition exec_commit :: "byte list \<Rightarrow> uint \<Rightarrow> uint \<Rightarrow> uint \<Rightarrow> uint \<Rightarrow> kernel \<Rightarrow> (cint \<times> kernel) res" where
  "exec_commit path pgdir sz sp entry k =
     (let oldpgdir = p_pgdir (myproc k);
          k1 = my_update (\<lambda>p. p\<lparr>p_name := take 15 (last_element path), p_pgdir := pgdir, p_sz := sz,
                 p_tf := (p_tf p)\<lparr>tf_eip := entry, tf_esp := sp\<rparr>\<rparr>) k
      in andThen (switchuvm (cur k1) k1) (\<lambda>k2. andThen (do_km (freevm oldpgdir) k2) (\<lambda>k3. Inr (0, k3))))"

text \<open>The label \<^verbatim>\<open>bad\<close>: \<open>pgdir\<close> is the directory to free, if any, \<open>ip\<close> the inode still held.\<close>

definition exec_bad :: "uint option \<Rightarrow> nat option \<Rightarrow> kernel \<Rightarrow> (cint \<times> kernel) res" where
  "exec_bad pgdir ip k =
     andThen (case pgdir of None \<Rightarrow> Inr k | Some d \<Rightarrow> do_km (freevm d) k) (\<lambda>k1.
     andThen (case ip of None \<Rightarrow> Inr k1 | Some i \<Rightarrow> andThen (do_fs (iunlockput i) k1) (do_fs end_op)) (\<lambda>k2. Inr (-1, k2)))"

text \<open>From the locked inode on.\<close>

definition exec_image :: "byte list \<Rightarrow> byte list list \<Rightarrow> nat \<Rightarrow> kernel \<Rightarrow> (cint \<times> kernel) res" where
  "exec_image path argv ip k =
     andThen (kreadi ip 0 52 k) (\<lambda>((r, bs), k1).
       let elf = get_elfhdr bs
       in if r \<noteq> 52 then exec_bad None (Some ip) k1
          else if e_magic elf \<noteq> ELF_MAGIC then exec_bad None (Some ip) k1
          else andThen (on_km setupkvm k1) (\<lambda>(pgdir, k2).
            if pgdir = 0 then exec_bad None (Some ip) k2
            else andThen (load_segments (unat (e_phnum elf)) (e_phoff elf) 0 pgdir ip k2) (\<lambda>(q, k3).
              case q of
                None \<Rightarrow> exec_bad (Some pgdir) (Some ip) k3
              | Some sz \<Rightarrow>
                  andThen (do_fs (iunlockput ip) k3) (\<lambda>k4.
                  andThen (do_fs end_op k4) (\<lambda>k5.
                  andThen (exec_stack pgdir sz argv k5) (\<lambda>(t, k6).
                    case t of
                      None \<Rightarrow> exec_bad (Some pgdir) None k6
                    | Some (sz1, sp) \<Rightarrow> exec_commit path pgdir sz1 sp (e_entry elf) k6))))))"

definition exec :: "byte list \<Rightarrow> byte list list \<Rightarrow> kernel \<Rightarrow> (cint \<times> kernel) res" where
  "exec path argv k =
     andThen (do_fs begin_op k) (\<lambda>k1.
     andThen (my_cwd k1) (\<lambda>cwd.
     andThen (on_fs (namei cwd path) k1) (\<lambda>(r, k2).
       case r of
         None \<Rightarrow> andThen (do_fs end_op k2) (\<lambda>k3.
                 andThen (kprint (cstr ''exec: fail'' @ [0x0a]) [] k3) (\<lambda>k4. Inr (-1, k4)))
       | Some ip \<Rightarrow> andThen (do_fs (ilock ip) k2) (exec_image path argv ip))))"

end
