(* ===== verification/Sysfile.thy ===== *)
theory Sysfile
  imports Syscall Exec
begin

text \<open>
  The file system calls (\<^verbatim>\<open>sysfile.c\<close>). The part of a call that works on the file system alone is a
  function on the file system's state, with the current directory as an argument; every return inside
  a transaction ends it.
\<close>

abbreviation (input) O_RDONLY :: cint where "O_RDONLY \<equiv> 0"
abbreviation (input) O_WRONLY :: cint where "O_WRONLY \<equiv> 1"
abbreviation (input) O_RDWR :: cint where "O_RDWR \<equiv> 2"
abbreviation (input) O_CREATE :: cint where "O_CREATE \<equiv> 0x200"

subsection \<open>Descriptors\<close>

definition argfd :: "nat \<Rightarrow> kernel \<Rightarrow> (nat \<times> nat) option res" where
  "argfd n k =
     andThen (argint n k) (\<lambda>x. Inr (case x of
       None \<Rightarrow> None
     | Some fd \<Rightarrow> if fd <s 0 \<or> 16 \<le>s fd then None
                  else map_option (\<lambda>f. (unat fd, f)) (p_ofile (myproc k) ! unat fd)))"

fun free_fd :: "nat \<Rightarrow> nat \<Rightarrow> 'a option list \<Rightarrow> nat option" where
  "free_fd 0 fd ofile = None"
| "free_fd (Suc n) fd ofile = (if ofile ! fd = None then Some fd else free_fd n (fd + 1) ofile)"

definition fdalloc :: "nat \<Rightarrow> kernel \<Rightarrow> nat option \<times> kernel" where
  "fdalloc f k =
     (case free_fd NOFILE 0 (p_ofile (myproc k)) of
        None \<Rightarrow> (None, k)
      | Some fd \<Rightarrow> (Some fd, my_update (\<lambda>p. p\<lparr>p_ofile := (p_ofile p)[fd := Some f]\<rparr>) k))"

definition sys_dup :: "kernel \<Rightarrow> (cint option \<times> kernel) res" where
  "sys_dup k =
     with_arg (argfd 0 k) k (\<lambda>(_, f).
       case fdalloc f k of
         (None, k1) \<Rightarrow> Inr (Some (-1), k1)
       | (Some fd, k1) \<Rightarrow> andThen (filedup f k1) (\<lambda>(_, k2). Inr (Some (of_nat fd), k2)))"

definition sys_read :: "kernel \<Rightarrow> (cint option \<times> kernel) res" where
  "sys_read k =
     with_arg (argfd 0 k) k (\<lambda>(_, f). with_arg (argint 2 k) k (\<lambda>n. with_arg (argptr 1 n k) k (\<lambda>p.
       let killed = p_killed (myproc k); k0 = k\<lparr>fs := (fs k)\<lparr>con := (con (fs k))\<lparr>rkilled := killed\<rparr>\<rparr>\<rparr>
       in andThen (fileread killed f n k0) (\<lambda>(r, bs, k1).
          andThen (user_writes [(p, bs)] k1) (\<lambda>k2. Inr (Some r, k2))))))"

text \<open>The bytes at \<open>p\<close> are read only when the file is writable.\<close>

definition sys_write :: "kernel \<Rightarrow> (cint option \<times> kernel) res" where
  "sys_write k =
     with_arg (argfd 0 k) k (\<lambda>(_, f). with_arg (argint 2 k) k (\<lambda>n. with_arg (argptr 1 n k) k (\<lambda>p.
       andThen (if \<not> fwritable (ftable k f) then Inr []
                else case user_read (unat n) (mmu_pgdir k) p (km k) of
                       None \<Rightarrow> stuck ''write: page fault'' | Some bs \<Rightarrow> Inr bs) (\<lambda>bs.
       andThen (filewrite (p_killed (myproc k)) f bs k) (\<lambda>(r, k1). Inr (Some r, k1))))))"

definition sys_close :: "kernel \<Rightarrow> (cint option \<times> kernel) res" where
  "sys_close k =
     with_arg (argfd 0 k) k (\<lambda>(fd, f).
       andThen (fileclose f (my_update (\<lambda>p. p\<lparr>p_ofile := (p_ofile p)[fd := None]\<rparr>) k)) (\<lambda>k1. Inr (Some 0, k1)))"

text \<open>\<^verbatim>\<open>struct stat\<close> in the user's memory.\<close>

definition stat_at :: "uint \<Rightarrow> stat \<Rightarrow> (uint \<times> byte list) list" where
  "stat_at p st = [(p + 4, le32 (st_dev st)), (p + 8, le32 (st_ino st)), (p, le16 (st_type st)), (p + 12, le16 (st_nlink st)),
     (p + 16, le32 (st_size st))]"

definition sys_fstat :: "kernel \<Rightarrow> (cint option \<times> kernel) res" where
  "sys_fstat k =
     with_arg (argfd 0 k) k (\<lambda>(_, f). with_arg (argptr 1 20 k) k (\<lambda>p.
       andThen (filestat f k) (\<lambda>(r, k1).
         case r of
           None \<Rightarrow> Inr (Some (-1), k1)
         | Some st \<Rightarrow> andThen (user_writes (stat_at p st) k1) (\<lambda>k2. Inr (Some 0, k2)))))"

subsection \<open>Names\<close>

definition fail_op :: "'a logst_scheme \<Rightarrow> (cint \<times> 'a logst_scheme) res" where
  "fail_op s = andThen (end_op s) (\<lambda>s1. Inr (-1, s1))"

definition put_fail :: "nat \<Rightarrow> 'a fsys_scheme \<Rightarrow> (cint \<times> 'a fsys_scheme) res" where
  "put_fail ip s = andThen (iunlockput ip s) fail_op"

definition add_nlink :: "ushort \<Rightarrow> nat \<Rightarrow> 'a fsys_scheme \<Rightarrow> 'a fsys_scheme res" where
  "add_nlink d ip s = iupdate ip (inode_update ip (\<lambda>i. i\<lparr>inlink := inlink i + d\<rparr>) s)"

definition link_bad :: "nat \<Rightarrow> 'a fsys_scheme \<Rightarrow> (cint \<times> 'a fsys_scheme) res" where
  "link_bad ip s = andThen (ilock ip s) (\<lambda>s1. andThen (add_nlink (-1) ip s1) (put_fail ip))"

definition link_fs :: "nat \<Rightarrow> byte list \<Rightarrow> byte list \<Rightarrow> 'a fsys_scheme \<Rightarrow> (cint \<times> 'a fsys_scheme) res" where
  "link_fs cwd old new s =
     andThen (begin_op s) (\<lambda>s1. andThen (namei cwd old s1) (\<lambda>(r, s2).
       case r of
         None \<Rightarrow> fail_op s2
       | Some ip \<Rightarrow> andThen (ilock ip s2) (\<lambda>s3.
           if itype (icache s3 ip) = T_DIR then put_fail ip s3
           else andThen (add_nlink 1 ip s3) (\<lambda>s4. andThen (iunlock ip s4) (\<lambda>s5.
                andThen (nameiparent cwd new s5) (\<lambda>(q, s6).
                  case q of
                    None \<Rightarrow> link_bad ip s6
                  | Some (dp, name) \<Rightarrow> andThen (ilock dp s6) (\<lambda>s7.
                      andThen (if idev (icache s7 dp) \<noteq> idev (icache s7 ip) then Inr (-1, s7)
                               else dirlink dp name (inum (icache s7 ip)) s7) (\<lambda>(d, s8).
                        if d <s 0 then andThen (iunlockput dp s8) (link_bad ip)
                        else andThen (iunlockput dp s8) (\<lambda>s9. andThen (iput ip s9) (\<lambda>s10.
                             andThen (end_op s10) (\<lambda>s11. Inr (0, s11))))))))))))"

definition in_cwd :: "(nat \<Rightarrow> fsys \<Rightarrow> (cint \<times> fsys) res) \<Rightarrow> kernel \<Rightarrow> (cint option \<times> kernel) res" where
  "in_cwd f k = andThen (my_cwd k) (\<lambda>cwd. andThen (on_fs (f cwd) k) (\<lambda>(r, k1). Inr (Some r, k1)))"

definition sys_link :: "kernel \<Rightarrow> (cint option \<times> kernel) res" where
  "sys_link k =
     with_arg (argstr 0 k) k (\<lambda>old. with_arg (argstr 1 k) k (\<lambda>new. in_cwd (\<lambda>cwd. link_fs cwd old new) k))"

fun isdirempty_loop :: "nat \<Rightarrow> uint \<Rightarrow> nat \<Rightarrow> 'a fsys_scheme \<Rightarrow> (bool \<times> 'a fsys_scheme) res" where
  "isdirempty_loop 0 off dp s = Inr (True, s)"
| "isdirempty_loop (Suc n) off dp s =
     (if off < isize (icache s dp)
      then andThen (readi dp off 16 s) (\<lambda>(r, bs, s1).
             if r \<noteq> 16 then panic ''isdirempty: readi''
             else if get16 bs 0 \<noteq> 0 then Inr (False, s1)
             else isdirempty_loop n (off + 16) dp s1)
      else Inr (True, s))"

text \<open>A directory of \<^verbatim>\<open>size\<close> bytes has at most \<^verbatim>\<open>size / 16 + 1\<close> entries to look at.\<close>

definition isdirempty :: "nat \<Rightarrow> 'a fsys_scheme \<Rightarrow> (bool \<times> 'a fsys_scheme) res" where
  "isdirempty dp s = isdirempty_loop (dir_entries (isize (icache s dp))) 32 dp s"

definition unlink_entry :: "nat \<Rightarrow> nat \<Rightarrow> uint \<Rightarrow> 'a fsys_scheme \<Rightarrow> (cint \<times> 'a fsys_scheme) res" where
  "unlink_entry dp ip off s =
     andThen (writei dp (replicate 16 0) off s) (\<lambda>(r, s1).
       if r \<noteq> 16 then panic ''unlink: writei''
       else andThen (if itype (icache s1 ip) = T_DIR then add_nlink (-1) dp s1 else Inr s1) (\<lambda>s2.
            andThen (iunlockput dp s2) (\<lambda>s3. andThen (add_nlink (-1) ip s3) (\<lambda>s4.
            andThen (iunlockput ip s4) (\<lambda>s5. andThen (end_op s5) (\<lambda>s6. Inr (0, s6)))))))"

definition unlink_fs :: "nat \<Rightarrow> byte list \<Rightarrow> 'a fsys_scheme \<Rightarrow> (cint \<times> 'a fsys_scheme) res" where
  "unlink_fs cwd path s =
     andThen (begin_op s) (\<lambda>s1. andThen (nameiparent cwd path s1) (\<lambda>(q, s2).
       case q of
         None \<Rightarrow> fail_op s2
       | Some (dp, name) \<Rightarrow> andThen (ilock dp s2) (\<lambda>s3.
           if namecmp name [0x2e] = 0 \<or> namecmp name [0x2e, 0x2e] = 0 then put_fail dp s3
           else andThen (dirlookup dp name s3) (\<lambda>(d, s4).
             case d of
               None \<Rightarrow> put_fail dp s4
             | Some (ip, off) \<Rightarrow> andThen (ilock ip s4) (\<lambda>s5.
                 if inlink (icache s5 ip) <s 1 then panic ''unlink: nlink < 1''
                 else andThen (if itype (icache s5 ip) = T_DIR then isdirempty ip s5 else Inr (True, s5)) (\<lambda>(e, s6).
                   if e then unlink_entry dp ip off s6
                   else andThen (iunlockput ip s6) (put_fail dp)))))))"

definition sys_unlink :: "kernel \<Rightarrow> (cint option \<times> kernel) res" where
  "sys_unlink k = with_arg (argstr 0 k) k (\<lambda>path. in_cwd (\<lambda>cwd. unlink_fs cwd path) k)"

subsection \<open>Creating and opening\<close>

definition make_dots :: "nat \<Rightarrow> nat \<Rightarrow> 'a fsys_scheme \<Rightarrow> 'a fsys_scheme res" where
  "make_dots dp ip s =
     andThen (add_nlink 1 dp s) (\<lambda>s1.
     andThen (dirlink ip [0x2e] (inum (icache s1 ip)) s1) (\<lambda>(r1, s2).
       if r1 <s 0 then panic ''create dots''
       else andThen (dirlink ip [0x2e, 0x2e] (inum (icache s2 dp)) s2) (\<lambda>(r2, s3).
              if r2 <s 0 then panic ''create dots'' else Inr s3)))"

definition create_new :: "nat \<Rightarrow> byte list \<Rightarrow> ushort \<Rightarrow> ushort \<Rightarrow> ushort \<Rightarrow> 'a fsys_scheme \<Rightarrow> (nat option \<times> 'a fsys_scheme) res" where
  "create_new dp name type major minor s =
     andThen (ialloc (idev (icache s dp)) type s) (\<lambda>(ip, s1).
     andThen (ilock ip s1) (\<lambda>s2.
     andThen (iupdate ip (inode_update ip (\<lambda>i. i\<lparr>imajor := major, iminor := minor, inlink := 1\<rparr>) s2)) (\<lambda>s3.
     andThen (if type = T_DIR then make_dots dp ip s3 else Inr s3) (\<lambda>s4.
     andThen (dirlink dp name (inum (icache s4 ip)) s4) (\<lambda>(r, s5).
       if r <s 0 then panic ''create: dirlink''
       else andThen (iunlockput dp s5) (\<lambda>s6. Inr (Some ip, s6)))))))"

definition create :: "nat \<Rightarrow> byte list \<Rightarrow> ushort \<Rightarrow> ushort \<Rightarrow> ushort \<Rightarrow> 'a fsys_scheme \<Rightarrow> (nat option \<times> 'a fsys_scheme) res" where
  "create cwd path type major minor s =
     andThen (nameiparent cwd path s) (\<lambda>(q, s1).
       case q of
         None \<Rightarrow> Inr (None, s1)
       | Some (dp, name) \<Rightarrow> andThen (ilock dp s1) (\<lambda>s2. andThen (dirlookup dp name s2) (\<lambda>(d, s3).
           case d of
             Some (ip, _) \<Rightarrow> andThen (iunlockput dp s3) (\<lambda>s4. andThen (ilock ip s4) (\<lambda>s5.
               if type = T_FILE \<and> itype (icache s5 ip) = T_FILE then Inr (Some ip, s5)
               else andThen (iunlockput ip s5) (\<lambda>s6. Inr (None, s6))))
           | None \<Rightarrow> create_new dp name type major minor s3)))"

text \<open>The inode that \<^verbatim>\<open>sys_open\<close> opens, locked, inside the transaction; on failure the transaction has ended.\<close>

definition open_inode :: "nat \<Rightarrow> byte list \<Rightarrow> cint \<Rightarrow> 'a fsys_scheme \<Rightarrow> (nat option \<times> 'a fsys_scheme) res" where
  "open_inode cwd path omode s =
     andThen (begin_op s) (\<lambda>s1.
       if omode AND O_CREATE \<noteq> 0
       then andThen (create cwd path T_FILE 0 0 s1) (\<lambda>(r, s2).
              case r of None \<Rightarrow> andThen (end_op s2) (\<lambda>s3. Inr (None, s3)) | Some ip \<Rightarrow> Inr (Some ip, s2))
       else andThen (namei cwd path s1) (\<lambda>(r, s2).
              case r of
                None \<Rightarrow> andThen (end_op s2) (\<lambda>s3. Inr (None, s3))
              | Some ip \<Rightarrow> andThen (ilock ip s2) (\<lambda>s3.
                  if itype (icache s3 ip) = T_DIR \<and> omode \<noteq> O_RDONLY
                  then andThen (iunlockput ip s3) (\<lambda>s4. andThen (end_op s4) (\<lambda>s5. Inr (None, s5)))
                  else Inr (Some ip, s3))))"

definition open_fail :: "nat option \<Rightarrow> nat \<Rightarrow> kernel \<Rightarrow> (cint option \<times> kernel) res" where
  "open_fail f ip k =
     andThen (case f of None \<Rightarrow> Inr k | Some g \<Rightarrow> fileclose g k) (\<lambda>k1.
     andThen (on_fs (put_fail ip) k1) (\<lambda>(r, k2). Inr (Some r, k2)))"

definition open_file :: "nat \<Rightarrow> cint \<Rightarrow> kernel \<Rightarrow> (cint option \<times> kernel) res" where
  "open_file ip omode k =
     (case filealloc k of
        (None, k1) \<Rightarrow> open_fail None ip k1
      | (Some f, k1) \<Rightarrow>
          (case fdalloc f k1 of
             (None, k2) \<Rightarrow> open_fail (Some f) ip k2
           | (Some fd, k2) \<Rightarrow>
               andThen (do_fs (iunlock ip) k2) (\<lambda>k3. andThen (do_fs end_op k3) (\<lambda>k4.
               Inr (Some (of_nat fd), file_update f (\<lambda>x. x\<lparr>ftype := FD_INODE, fip := ip, foff := 0,
                 freadable := omode AND O_WRONLY = 0,
                 fwritable := (omode AND O_WRONLY \<noteq> 0 \<or> omode AND O_RDWR \<noteq> 0)\<rparr>) k4)))))"

definition sys_open :: "kernel \<Rightarrow> (cint option \<times> kernel) res" where
  "sys_open k =
     with_arg (argstr 0 k) k (\<lambda>path. with_arg (argint 1 k) k (\<lambda>omode.
       andThen (my_cwd k) (\<lambda>cwd. andThen (on_fs (open_inode cwd path omode) k) (\<lambda>(r, k1).
         case r of None \<Rightarrow> Inr (Some (-1), k1) | Some ip \<Rightarrow> open_file ip omode k1))))"

text \<open>\<^verbatim>\<open>sys_mkdir\<close> and \<^verbatim>\<open>sys_mknod\<close> fetch their arguments inside the transaction.\<close>

definition make_node :: "byte list option \<Rightarrow> ushort \<Rightarrow> ushort \<Rightarrow> ushort \<Rightarrow> nat \<Rightarrow> 'a fsys_scheme \<Rightarrow> (cint \<times> 'a fsys_scheme) res" where
  "make_node path type major minor cwd s =
     andThen (begin_op s) (\<lambda>s1.
       case path of
         None \<Rightarrow> fail_op s1
       | Some p \<Rightarrow> andThen (create cwd p type major minor s1) (\<lambda>(r, s2).
           case r of
             None \<Rightarrow> fail_op s2
           | Some ip \<Rightarrow> andThen (iunlockput ip s2) (\<lambda>s3. andThen (end_op s3) (\<lambda>s4. Inr (0, s4)))))"

definition sys_mkdir :: "kernel \<Rightarrow> (cint option \<times> kernel) res" where
  "sys_mkdir k = andThen (argstr 0 k) (\<lambda>path. in_cwd (make_node path T_DIR 0 0) k)"

definition sys_mknod :: "kernel \<Rightarrow> (cint option \<times> kernel) res" where
  "sys_mknod k =
     andThen (argstr 0 k) (\<lambda>path. andThen (if path = None then Inr None else argint 1 k) (\<lambda>major.
     andThen (if major = None then Inr None else argint 2 k) (\<lambda>minor.
       case (major, minor) of
         (Some ma, Some mi) \<Rightarrow> in_cwd (make_node path T_DEV (ucast ma) (ucast mi)) k
       | _ \<Rightarrow> in_cwd (make_node None T_DEV 0 0) k)))"

text \<open>The new current directory, inside the transaction; on failure the transaction has ended.\<close>

definition chdir_fs :: "byte list option \<Rightarrow> nat \<Rightarrow> 'a fsys_scheme \<Rightarrow> (nat option \<times> 'a fsys_scheme) res" where
  "chdir_fs path cwd s =
     andThen (begin_op s) (\<lambda>s1.
     andThen (case path of None \<Rightarrow> Inr (None, s1) | Some p \<Rightarrow> namei cwd p s1) (\<lambda>(r, s2).
       case r of
         None \<Rightarrow> andThen (end_op s2) (\<lambda>s3. Inr (None, s3))
       | Some ip \<Rightarrow> andThen (ilock ip s2) (\<lambda>s3.
           if itype (icache s3 ip) \<noteq> T_DIR
           then andThen (iunlockput ip s3) (\<lambda>s4. andThen (end_op s4) (\<lambda>s5. Inr (None, s5)))
           else andThen (iunlock ip s3) (\<lambda>s4. andThen (iput cwd s4) (\<lambda>s5. andThen (end_op s5) (\<lambda>s6. Inr (Some ip, s6)))))))"

definition sys_chdir :: "kernel \<Rightarrow> (cint option \<times> kernel) res" where
  "sys_chdir k =
     andThen (argstr 0 k) (\<lambda>path. andThen (my_cwd k) (\<lambda>cwd.
     andThen (on_fs (chdir_fs path cwd) k) (\<lambda>(r, k1).
       case r of
         None \<Rightarrow> Inr (Some (-1), k1)
       | Some ip \<Rightarrow> Inr (Some 0, my_update (\<lambda>p. p\<lparr>p_cwd := Some ip\<rparr>) k1))))"

subsection \<open>exec and pipe\<close>

text \<open>\<open>n\<close> entries of the array \<^verbatim>\<open>argv\<close> are left from index \<open>i\<close> on.\<close>

fun fetch_argv :: "nat \<Rightarrow> nat \<Rightarrow> uint \<Rightarrow> kernel \<Rightarrow> byte list list option res" where
  "fetch_argv 0 i uargv k = Inr None"
| "fetch_argv (Suc n) i uargv k =
     andThen (fetchint (uargv + 4 * of_nat i) k) (\<lambda>x.
       case x of
         None \<Rightarrow> Inr None
       | Some uarg \<Rightarrow>
           if uarg = 0 then Inr (Some [])
           else andThen (fetchstr uarg k) (\<lambda>y.
             case y of
               None \<Rightarrow> Inr None
             | Some a \<Rightarrow> andThen (fetch_argv n (i + 1) uargv k) (\<lambda>r. Inr (map_option (Cons a) r))))"

definition sys_exec :: "kernel \<Rightarrow> (cint option \<times> kernel) res" where
  "sys_exec k =
     with_arg (argstr 0 k) k (\<lambda>path. with_arg (argint 1 k) k (\<lambda>uargv. with_arg (fetch_argv MAXARG 0 uargv k) k (\<lambda>argv.
       andThen (exec path argv k) (\<lambda>(r, k1). Inr (Some r, k1)))))"

definition clear_fd :: "nat \<Rightarrow> kernel \<Rightarrow> kernel" where
  "clear_fd fd = my_update (\<lambda>p. p\<lparr>p_ofile := (p_ofile p)[fd := None]\<rparr>)"

definition close_both :: "nat \<Rightarrow> nat \<Rightarrow> kernel \<Rightarrow> (cint option \<times> kernel) res" where
  "close_both pr pw k = andThen (fileclose pr k) (\<lambda>k1. andThen (fileclose pw k1) (\<lambda>k2. Inr (Some (-1), k2)))"

definition sys_pipe :: "kernel \<Rightarrow> (cint option \<times> kernel) res" where
  "sys_pipe k =
     with_arg (argptr 0 8 k) k (\<lambda>fd. andThen (pipealloc k) (\<lambda>(r, k1).
       case r of
         None \<Rightarrow> Inr (Some (-1), k1)
       | Some (pr, pw) \<Rightarrow>
           (case fdalloc pr k1 of
              (None, k2) \<Rightarrow> close_both pr pw k2
            | (Some fd0, k2) \<Rightarrow>
                (case fdalloc pw k2 of
                   (None, k3) \<Rightarrow> close_both pr pw (clear_fd fd0 k3)
                 | (Some fd1, k3) \<Rightarrow>
                     andThen (user_writes [(fd, le32 (of_nat fd0)), (fd + 4, le32 (of_nat fd1))] k3) (\<lambda>k4. Inr (Some 0, k4))))))"

end
