(* ===== verification/Trap.thy ===== *)
theory Trap
  imports Sysproc Sysfile
begin

text \<open>
  The system call dispatcher (\<^verbatim>\<open>syscall\<close>, \<^verbatim>\<open>syscall.h\<close>) and the trap handler (\<^verbatim>\<open>trap.c\<close>). The processor's
  number, whether it runs a process (\<^verbatim>\<open>myproc() == 0\<close> otherwise) and the faulting address \<^verbatim>\<open>rcr2()\<close> are
  arguments. Acknowledging the interrupt controller is not modelled, and \<^verbatim>\<open>procdump\<close> only prints.
  The wakeups that a call asks for take effect before it returns to user mode.
\<close>

abbreviation (input) T_PGFLT :: uint where "T_PGFLT \<equiv> 14"
abbreviation (input) T_SYSCALL :: uint where "T_SYSCALL \<equiv> 64"
abbreviation (input) T_IRQ0 :: uint where "T_IRQ0 \<equiv> 32"
abbreviation (input) IRQ_TIMER :: uint where "IRQ_TIMER \<equiv> 0"
abbreviation (input) IRQ_KBD :: uint where "IRQ_KBD \<equiv> 1"
abbreviation (input) IRQ_COM1 :: uint where "IRQ_COM1 \<equiv> 4"
abbreviation (input) IRQ_IDE :: uint where "IRQ_IDE \<equiv> 14"
abbreviation (input) IRQ_SPURIOUS :: uint where "IRQ_SPURIOUS \<equiv> 31"

definition syscalls :: "(kernel \<Rightarrow> (cint option \<times> kernel) res) list" where
  "syscalls = [sys_fork, sys_exit, sys_wait, sys_pipe, sys_read, sys_kill, sys_exec, sys_fstat, sys_chdir, sys_dup,
     sys_getpid, sys_sbrk, sys_sleep, sys_uptime, sys_open, sys_write, sys_mknod, sys_unlink, sys_link, sys_mkdir,
     sys_close, sys_wmap, sys_wunmap, sys_wremap, sys_getpgdirinfo, sys_getwmapinfo]"

definition set_eax :: "cint \<Rightarrow> kernel \<Rightarrow> kernel" where
  "set_eax v = my_update (\<lambda>p. p\<lparr>p_tf := (p_tf p)\<lparr>tf_eax := v\<rparr>\<rparr>)"

text \<open>The first component says whether the call has returned.\<close>

definition syscall :: "kernel \<Rightarrow> (bool \<times> kernel) res" where
  "syscall k =
     (let num = tf_eax (p_tf (myproc k))
      in if 0 <s num \<and> sint num \<le> int (length syscalls)
         then andThen ((syscalls ! (unat num - 1)) k) (\<lambda>(r, k1).
                let k2 = flush_wakeups k1
                in Inr (case r of None \<Rightarrow> (False, k2) | Some v \<Rightarrow> (True, set_eax v k2)))
         else andThen (kprint (cstr ''%d %s: unknown sys call %d'' @ [0x0a])
                         [ArgInt (p_pid (myproc k)), ArgStr (Some (p_name (myproc k))), ArgInt num] k)
                (\<lambda>k1. Inr (True, set_eax (-1) k1)))"

definition killed_exit :: "bool \<Rightarrow> trapframe \<Rightarrow> kernel \<Rightarrow> (kernel \<Rightarrow> kernel res) \<Rightarrow> kernel res" where
  "killed_exit busy tf k go =
     (if busy \<and> p_killed (myproc k) \<and> tf_cs tf AND 3 = DPL_USER then exit k else go k)"

definition trap_syscall :: "trapframe \<Rightarrow> kernel \<Rightarrow> kernel res" where
  "trap_syscall tf k =
     (if p_killed (myproc k) then exit k
      else andThen (syscall (my_update (\<lambda>p. p\<lparr>p_tf := tf\<rparr>) k)) (\<lambda>(ret, k1).
             if ret \<and> p_killed (myproc k1) then exit k1 else Inr k1))"

definition timer_tick :: "cint \<Rightarrow> kernel \<Rightarrow> kernel" where
  "timer_tick cpu k = (if cpu = 0 then wakeup ChanTicks (k\<lparr>ticks := ticks k + 1\<rparr>) else k)"

definition con_intr :: "(console \<Rightarrow> (bool \<times> bool \<times> console) res) \<Rightarrow> kernel \<Rightarrow> kernel res" where
  "con_intr intr k =
     andThen (intr (con (fs k))) (\<lambda>(dump, wake, c).
       let k1 = k\<lparr>fs := (fs k)\<lparr>con := c\<rparr>\<rparr> in Inr (if wake then wakeup ChanInput k1 else k1))"

text \<open>The \<^verbatim>\<open>default\<close> case.\<close>

definition trap_other :: "cint \<Rightarrow> bool \<Rightarrow> uint \<Rightarrow> trapframe \<Rightarrow> kernel \<Rightarrow> kernel res" where
  "trap_other cpu busy cr2 tf k =
     (if \<not> busy \<or> tf_cs tf AND 3 = 0
      then andThen (kprint (cstr ''unexpected trap %d from cpu %d eip %x (cr2=0x%x)'' @ [0x0a])
                      [ArgInt (tf_trapno tf), ArgInt cpu, ArgInt (tf_eip tf), ArgInt cr2] k) (\<lambda>_. panic ''trap'')
      else andThen (kprint (cstr ''pid %d %s: trap %d err %d on cpu %d eip 0x%x addr 0x%x--kill proc'' @ [0x0a])
                      [ArgInt (p_pid (myproc k)), ArgStr (Some (p_name (myproc k))), ArgInt (tf_trapno tf),
                       ArgInt (tf_err tf), ArgInt cpu, ArgInt (tf_eip tf), ArgInt cr2] k)
             (\<lambda>k1. Inr (my_update (\<lambda>p. p\<lparr>p_killed := True\<rparr>) k1)))"

text \<open>The checks after the switch, up to a yield and after it.\<close>

definition trap_return :: "bool \<Rightarrow> trapframe \<Rightarrow> kernel \<Rightarrow> kernel res" where
  "trap_return busy tf k =
     killed_exit busy tf k (\<lambda>k1.
       if busy \<and> p_state (myproc k1) = RUNNING \<and> tf_trapno tf = T_IRQ0 + IRQ_TIMER then yield k1
       else killed_exit busy tf k1 Inr)"

definition trap_resume :: "trapframe \<Rightarrow> kernel \<Rightarrow> kernel res" where
  "trap_resume tf k = killed_exit True tf k Inr"

definition trap :: "cint \<Rightarrow> bool \<Rightarrow> uint \<Rightarrow> trapframe \<Rightarrow> kernel \<Rightarrow> kernel res" where
  "trap cpu busy cr2 tf k =
     (let no = tf_trapno tf
      in if no = T_SYSCALL then trap_syscall tf k
         else if no = T_IRQ0 + IRQ_TIMER then trap_return busy tf (timer_tick cpu k)
         else if no = T_IRQ0 + IRQ_IDE then andThen (do_fs ideintr k) (trap_return busy tf)
         else if no = T_IRQ0 + IRQ_IDE + 1 then trap_return busy tf k
         else if no = T_IRQ0 + IRQ_KBD then andThen (con_intr kbdintr k) (trap_return busy tf)
         else if no = T_IRQ0 + IRQ_COM1 then andThen (con_intr uartintr k) (trap_return busy tf)
         else if no = T_PGFLT
         then if \<not> busy then stuck ''trap: no process''
              else andThen (handle_pagefault (PGROUNDDOWN cr2) k) (\<lambda>(r, k1).
                     if r \<noteq> 0 then trap_return busy tf k1
                     else andThen (kprint (cstr ''Segmentation Fault'' @ [0x0a]) [] k1) exit)
         else if no = T_IRQ0 + 7 \<or> no = T_IRQ0 + IRQ_SPURIOUS
         then andThen (kprint (cstr ''cpu%d: spurious interrupt at %x:%x'' @ [0x0a])
                         [ArgInt cpu, ArgInt (ucast (tf_cs tf)), ArgInt (tf_eip tf)] k) (trap_return busy tf)
         else andThen (trap_other cpu busy cr2 tf k) (trap_return busy tf))"

end
