(* ===== verification/Vm_Spec.thy ===== *)
theory Vm_Spec
  imports Vm
begin

text \<open>
  What the page-table code of \<open>Vm\<close> computes, stated on the address space as a map from pages
  to page-table entries (\<open>pte_of\<close>). \<open>aspace\<close> is the invariant of a page directory together
  with the free list: the directory and its tables are distinct valid pages, none of them
  free.
\<close>

subsection \<open>Indices\<close>

definition vpn :: "uint \<Rightarrow> nat" where
  "vpn va = unat va div 4096"

lemma unat_PDX: "unat (PDX va) = unat va div 2 ^ 22"
proof -
  have m: "(0x3FF :: uint) = mask 10" by (simp add: mask_eq_exp_minus_1)
  have "unat (PDX va) = unat va div 2 ^ 22 mod 2 ^ 10"
    unfolding PDX_def m take_bit_eq_mask [symmetric]
    by (subst unsigned_take_bit_eq) (simp add: take_bit_eq_mod unsigned_drop_bit_eq drop_bit_eq_div unat_div)
  moreover have "unat va div 2 ^ 22 < 2 ^ 10"
    using unat_lt32 [of va] by (simp add: div_less_iff_less_mult)
  ultimately show ?thesis by simp
qed

lemma unat_PTX: "unat (PTX va) = unat va div 4096 mod 1024"
proof -
  have m: "(0x3FF :: uint) = mask 10" by (simp add: mask_eq_exp_minus_1)
  show ?thesis
    unfolding PTX_def m take_bit_eq_mask [symmetric]
    by (subst unsigned_take_bit_eq) (simp add: take_bit_eq_mod unsigned_drop_bit_eq drop_bit_eq_div unat_div)
qed

lemma PDX_less [simp]: "PDX va < 1024"
  using unat_lt32 [of va] by (simp add: word_less_nat_alt unat_PDX div_less_iff_less_mult)

lemma PTX_less [simp]: "PTX va < 1024"
  by (simp add: word_less_nat_alt unat_PTX)

lemma vpn_split: "vpn x div 1024 = unat (PDX x)" "vpn x mod 1024 = unat (PTX x)"
  by (simp_all add: vpn_def unat_PDX unat_PTX div_mult2_eq [symmetric])

lemma same_entry_iff: "PDX a = PDX b \<and> PTX a = PTX b \<longleftrightarrow> vpn a = vpn b"
proof
  assume "PDX a = PDX b \<and> PTX a = PTX b"
  then show "vpn a = vpn b"
    using vpn_split [of a] vpn_split [of b] by (metis div_mult_mod_eq)
next
  assume "vpn a = vpn b"
  then show "PDX a = PDX b \<and> PTX a = PTX b"
    using vpn_split [of a] vpn_split [of b] by (simp add: word_unat_eq_iff)
qed

text \<open>The byte offset of entry \<open>i\<close> of a table.\<close>

lemma unat_entry:
  fixes i :: uint
  assumes "i < 1024"
  shows "unat (4 * i) = 4 * unat i" and "unat (4 * i) < 4096" and "unat (4 * i) mod 4 = 0"
proof -
  have "unat i < 1024" using assms by (simp add: word_less_nat_alt)
  then show "unat (4 * i) = 4 * unat i" by (simp add: unat_word_ariths)
  with \<open>unat i < 1024\<close> show "unat (4 * i) < 4096" "unat (4 * i) mod 4 = 0" by simp_all
qed

lemma entry_inject:
  fixes i j :: uint
  assumes "i < 1024" "j < 1024"
  shows "4 * i = 4 * j \<longleftrightarrow> i = j"
  using unat_entry(1) [OF assms(1)] unat_entry(1) [OF assms(2)] by (auto simp: word_unat_eq_iff)

subsection \<open>Entries\<close>

lemma V2P_add: "V2P (p + x) = V2P p + x"
  by (simp add: V2P_def)

lemma V2P_P2V_add [simp]: "V2P (P2V a + x) = a + x"
  by (simp add: V2P_def P2V_def)

definition pde_of :: "mem \<Rightarrow> uint \<Rightarrow> uint \<Rightarrow> uint" where
  "pde_of m pgdir i = load32 m (V2P pgdir + 4 * i)"

definition pte_of :: "mem \<Rightarrow> uint \<Rightarrow> uint \<Rightarrow> uint" where
  "pte_of m pgdir va =
     (let pde = pde_of m pgdir (PDX va)
      in if pde AND PTE_P \<noteq> 0 then load32 m (PTE_ADDR pde + 4 * PTX va) else 0)"

lemma pte_of_same_page: "vpn a = vpn b \<Longrightarrow> pte_of m pgdir a = pte_of m pgdir b"
  using same_entry_iff [of a b] by (simp add: pte_of_def Let_def)

text \<open>An entry built from an aligned address and flags gives both back.\<close>

lemma aligned_bit_zero:
  fixes a :: uint
  assumes "unat a mod 4096 = 0" and "n < 12"
  shows "\<not> bit a n"
proof -
  have "unat (take_bit 12 a) = 0"
    by (subst unsigned_take_bit_eq) (simp add: take_bit_eq_mod assms(1))
  then have "take_bit 12 a = 0" by (simp add: unsigned_eq_0_iff)
  then have "\<not> bit (take_bit 12 a) n" by simp
  with assms(2) show ?thesis by (simp add: bit_take_bit_iff)
qed

lemma PTE_ADDR_or:
  fixes a f :: uint
  assumes "unat a mod 4096 = 0" and "f AND NOT 0xFFF = 0"
  shows "PTE_ADDR (a OR f) = a"
proof (rule bit_word_eqI)
  fix n assume n: "n < LENGTH(32)"
  have m: "(0xFFF :: uint) = mask 12" by (simp add: mask_eq_exp_minus_1)
  have f: "bit f n \<Longrightarrow> n < 12"
    using arg_cong [OF assms(2) [unfolded m], of "\<lambda>w. bit w n"] n by (auto simp: bit_simps)
  show "bit (PTE_ADDR (a OR f)) n = bit a n"
    unfolding PTE_ADDR_def m using f n aligned_bit_zero [OF assms(1), of n]
    by (auto simp: bit_simps)
qed

subsection \<open>The invariant\<close>

definition pde_present :: "mem \<Rightarrow> uint \<Rightarrow> uint \<Rightarrow> bool" where
  "pde_present m pgdir i \<longleftrightarrow> i < 1024 \<and> pde_of m pgdir i AND PTE_P \<noteq> 0"

definition table_of :: "mem \<Rightarrow> uint \<Rightarrow> uint \<Rightarrow> uint" where
  "table_of m pgdir i = P2V (PTE_ADDR (pde_of m pgdir i))"

definition pt_pages :: "mem \<Rightarrow> uint \<Rightarrow> uint set" where
  "pt_pages m pgdir = insert pgdir {table_of m pgdir i | i. pde_present m pgdir i}"

definition pgdir_ok :: "kmem \<Rightarrow> uint \<Rightarrow> bool" where
  "pgdir_ok k pgdir \<longleftrightarrow>
     (\<forall>p \<in> pt_pages (pmem k) pgdir. kpage k p) \<and>
     (\<forall>i. pde_present (pmem k) pgdir i \<longrightarrow> table_of (pmem k) pgdir i \<noteq> pgdir) \<and>
     (\<forall>i j. pde_present (pmem k) pgdir i \<and> pde_present (pmem k) pgdir j \<and>
        table_of (pmem k) pgdir i = table_of (pmem k) pgdir j \<longrightarrow> i = j)"

definition aspace :: "kmem \<Rightarrow> uint \<Rightarrow> uint list \<Rightarrow> bool" where
  "aspace k pgdir xs \<longleftrightarrow> pgdir_ok k pgdir \<and> free_pages k xs \<and> pt_pages (pmem k) pgdir \<inter> set xs = {}"

lemma pgdir_ok_pages:
  assumes "pgdir_ok k pgdir"
  shows "kpage k pgdir" and "pde_present (pmem k) pgdir i \<Longrightarrow> kpage k (table_of (pmem k) pgdir i)"
  using assms by (auto simp: pgdir_ok_def pt_pages_def)

text \<open>Writes to one page leave the entries held in other pages alone.\<close>

lemma page_load_unchanged:
  assumes "agree_off (V2P q) m m'" "kpage k q" "kpage k p" "p \<noteq> q" "i < 1024"
  shows "load32 m' (V2P p + 4 * i) = load32 m (V2P p + 4 * i)"
  using assms unat_entry [OF assms(5)] kpage_bounds(1) by (intro load32_agree_off) auto

lemma pde_of_unchanged:
  assumes "agree_off (V2P q) m m'" "kpage k q" "kpage k pgdir" "pgdir \<noteq> q" "i < 1024"
  shows "pde_of m' pgdir i = pde_of m pgdir i"
  using page_load_unchanged [OF assms] by (simp add: pde_of_def)

lemma pt_unchanged:
  assumes "agree_off (V2P q) m m'" "kpage k q" "kpage k pgdir" "pgdir \<noteq> q"
  shows "pde_present m' pgdir i = pde_present m pgdir i"
    and "i < 1024 \<Longrightarrow> table_of m' pgdir i = table_of m pgdir i"
    and "pt_pages m' pgdir = pt_pages m pgdir"
proof -
  show pres: "pde_present m' pgdir i = pde_present m pgdir i" for i
    using pde_of_unchanged [OF assms, of i] by (auto simp: pde_present_def)
  show tab: "i < 1024 \<Longrightarrow> table_of m' pgdir i = table_of m pgdir i" for i
    using pde_of_unchanged [OF assms, of i] by (simp add: table_of_def)
  have "table_of m' pgdir i = table_of m pgdir i" if "pde_present m pgdir i" for i
    using that tab by (simp add: pde_present_def)
  then show "pt_pages m' pgdir = pt_pages m pgdir"
    unfolding pt_pages_def pres by (metis (no_types, lifting))
qed

lemma pte_of_table:
  "pte_of m pgdir va =
     (if pde_present m pgdir (PDX va) then load32 m (V2P (table_of m pgdir (PDX va)) + 4 * PTX va) else 0)"
  by (simp add: pte_of_def pde_present_def table_of_def Let_def)

subsection \<open>Writing an entry\<close>

lemma entry_aligned:
  assumes "kpage k p" "i < 1024"
  shows "unat (V2P p + 4 * i) mod 4 = 0"
proof -
  have "unat (V2P p + 4 * i) = unat (V2P p) + unat (4 * i)"
    using unat_page_add [OF kpage_bounds(1) [OF assms(1)] unat_entry(2) [OF assms(2)]] .
  moreover have "unat (V2P p) mod 4 = 0"
    using kpage_bounds(1) [OF assms(1)] mod_mod_cancel [of 4 4096 "unat (V2P p)"] by simp
  ultimately show ?thesis
    using unat_entry(3) [OF assms(2)] by (simp add: mod_add_cong [of _ 4 0 _ 0, simplified])
qed

text \<open>The table at \<open>p\<close> is an array of 1024 entries.\<close>

lemma load_store_entry:
  assumes "kpage k p" "i < 1024" "j < 1024"
  shows "load32 (store32 m (V2P p + 4 * i) v) (V2P p + 4 * j) =
    (if j = i then v else load32 m (V2P p + 4 * j))"
proof (cases "j = i")
  case False
  then have "V2P p + 4 * i \<noteq> V2P p + 4 * j" using entry_inject [OF assms(2,3)] by auto
  then show ?thesis
    using False load32_store32_other [OF entry_aligned [OF assms(1,2)] entry_aligned [OF assms(1,3)]] by simp
qed simp

lemma free_pages_pmem:
  assumes "free_pages k xs" "agree_off (V2P q) (pmem k) m'" "kpage k q" "q \<notin> set xs"
  shows "free_pages (k\<lparr>pmem := m'\<rparr>) xs"
  using assms chain_agree_off [OF assms(2,3,4)]
  by (simp add: free_pages_def kpage_def)

lemma pte_write_aspace:
  assumes sp: "aspace k pgdir xs" and pres: "pde_present (pmem k) pgdir (PDX va)"
    and pte: "pte = table_of (pmem k) pgdir (PDX va) + 4 * PTX va"
  shows "aspace (pte_write pte v k) pgdir xs"
    and "pte_of (pmem (pte_write pte v k)) pgdir va' =
           (if vpn va' = vpn va then v else pte_of (pmem k) pgdir va')"
    and "agree_off (V2P (table_of (pmem k) pgdir (PDX va))) (pmem k) (pmem (pte_write pte v k))"
proof -
  let ?t = "table_of (pmem k) pgdir (PDX va)"
  let ?m = "store32 (pmem k) (V2P ?t + 4 * PTX va) v"
  from sp have ok: "pgdir_ok k pgdir" and fr: "free_pages k xs"
    and sep: "pt_pages (pmem k) pgdir \<inter> set xs = {}" by (simp_all add: aspace_def)
  have kp: "kpage k pgdir" "kpage k ?t" using pgdir_ok_pages [OF ok] pres by auto
  have ne: "pgdir \<noteq> ?t" using ok pres by (auto simp: pgdir_ok_def)
  have tin: "?t \<notin> set xs" using sep pres by (auto simp: pt_pages_def)
  have m: "pmem (pte_write pte v k) = ?m" by (simp add: pte_write_def pte V2P_add)
  have off: "agree_off (V2P ?t) (pmem k) ?m"
    using unat_entry [OF PTX_less] by (intro store32_agree_off)
  then show "agree_off (V2P ?t) (pmem k) (pmem (pte_write pte v k))" by (simp add: m)
  note same = pt_unchanged [OF off kp(2,1) ne]
  have kpg: "kpage (pte_write pte v k) = kpage k" by (simp add: kpage_def fun_eq_iff pte_write_def)
  have tab: "table_of ?m pgdir i = table_of (pmem k) pgdir i" if "pde_present ?m pgdir i" for i
    using that same(2) by (simp add: pde_present_def)
  have "pgdir_ok (pte_write pte v k) pgdir"
    using ok unfolding pgdir_ok_def kpg m same(3)
    by (auto simp: same(1) tab)
  moreover have "free_pages (pte_write pte v k) xs"
    using free_pages_pmem [OF fr off kp(2) tin] by (simp add: pte_write_def pte V2P_add)
  ultimately show "aspace (pte_write pte v k) pgdir xs"
    using sep by (simp add: aspace_def m same(3))
  show "pte_of (pmem (pte_write pte v k)) pgdir va' =
      (if vpn va' = vpn va then v else pte_of (pmem k) pgdir va')"
  proof (cases "PDX va' = PDX va")
    case True
    have "load32 ?m (V2P ?t + 4 * PTX va') =
        (if PTX va' = PTX va then v else load32 (pmem k) (V2P ?t + 4 * PTX va'))"
      by (rule load_store_entry [OF kp(2) PTX_less PTX_less])
    then show ?thesis
      using True pres same(1) same(2) [OF PDX_less] same_entry_iff [of va' va] by (simp add: m pte_of_table)
  next
    case False
    then have "vpn va' \<noteq> vpn va" using same_entry_iff by blast
    moreover have "load32 ?m (V2P (table_of (pmem k) pgdir (PDX va')) + 4 * PTX va')
        = load32 (pmem k) (V2P (table_of (pmem k) pgdir (PDX va')) + 4 * PTX va')"
      if p': "pde_present (pmem k) pgdir (PDX va')"
    proof -
      have "table_of (pmem k) pgdir (PDX va') \<noteq> ?t"
        using ok p' pres False by (auto simp: pgdir_ok_def)
      moreover have "kpage k (table_of (pmem k) pgdir (PDX va'))" using pgdir_ok_pages(2) [OF ok p'] .
      ultimately show ?thesis using page_load_unchanged [OF off kp(2)] PTX_less by blast
    qed
    ultimately show ?thesis
      using same(1) same(2) [OF PDX_less, of va'] by (auto simp: m pte_of_table)
  qed
qed

subsection \<open>walkpgdir\<close>

text \<open>The page at \<open>q\<close> holds the same bytes in both memories.\<close>

definition page_same :: "uint \<Rightarrow> mem \<Rightarrow> mem \<Rightarrow> bool" where
  "page_same q m m' \<longleftrightarrow> (\<forall>a. unat (a - V2P q) < 4096 \<longrightarrow> m' a = m a)"

lemma page_same_refl [simp]: "page_same q m m"
  by (simp add: page_same_def)

lemma page_same_trans: "page_same q m m' \<Longrightarrow> page_same q m' m'' \<Longrightarrow> page_same q m m''"
  by (simp add: page_same_def)

lemma agree_off_page_same:
  assumes "agree_off (V2P p) m m'" "kpage k p" "kpage k q" "q \<noteq> p"
  shows "page_same q m m'"
  unfolding page_same_def
proof (intro allI impI)
  fix a assume "unat (a - V2P q) < 4096"
  then have "4096 \<le> unat (a - V2P p)"
    using pages_disjoint [OF kpage_bounds(1) [OF assms(3)] kpage_bounds(1) [OF assms(2)]] assms(4) by simp
  then show "m' a = m a" using assms(1) by (simp add: agree_off_def)
qed

lemma entry_ptr_nonnull:
  assumes "kpage k p" "i < 1024"
  shows "p + 4 * i \<noteq> 0"
proof
  assume "p + 4 * i = 0"
  moreover have "unat (p + 4 * i) = unat p + unat (4 * i)"
    using kpage_bounds(2,3) [OF assms(1)] unat_entry(2) [OF assms(2)] by (simp add: unat_plus_if')
  ultimately show False using kpage_bounds(3) [OF assms(1)] by simp
qed

lemma pte_read_pde: "pte_read k (pgdir + 4 * i) = pde_of (pmem k) pgdir i"
  by (simp add: pte_read_def pde_of_def V2P_add)

lemma walkpgdir_hit:
  assumes "pde_present (pmem k) pgdir (PDX va)"
  shows "walkpgdir pgdir va alloc k = (table_of (pmem k) pgdir (PDX va) + 4 * PTX va, k)"
  using assms by (simp add: walkpgdir_def Let_def pte_read_pde pde_present_def table_of_def)

lemma walkpgdir_miss:
  assumes "\<not> pde_present (pmem k) pgdir (PDX va)"
  shows "walkpgdir pgdir va False k = (0, k)"
  using assms by (simp add: walkpgdir_def Let_def pte_read_pde pde_present_def)

lemma pte_read_table:
  assumes "pde_present (pmem k) pgdir (PDX va)"
  shows "pte_read k (table_of (pmem k) pgdir (PDX va) + 4 * PTX va) = pte_of (pmem k) pgdir va"
  using assms by (simp add: pte_read_def pte_of_table V2P_add)

lemma table_entry:
  assumes "kpage k t"
  shows "PTE_ADDR (V2P t OR PTE_P OR PTE_W OR PTE_U) = V2P t"
    and "(V2P t OR PTE_P OR PTE_W OR PTE_U) AND PTE_P \<noteq> 0"
proof -
  show "PTE_ADDR (V2P t OR PTE_P OR PTE_W OR PTE_U) = V2P t"
    using PTE_ADDR_or [OF kpage_bounds(1) [OF assms], of 7] by (simp add: or.assoc)
  have "bit ((V2P t OR PTE_P OR PTE_W OR PTE_U) AND PTE_P) 0"
    by (simp add: bit_simps)
  then show "(V2P t OR PTE_P OR PTE_W OR PTE_U) AND PTE_P \<noteq> 0" by auto
qed

text \<open>Adding an entry to the directory adds its table to the pages of the directory.\<close>

lemma pgdir_insert:
  assumes ok: "pgdir_ok k pgdir" and t: "kpage k t" "t \<notin> pt_pages (pmem k) pgdir"
    and j: "j < 1024" "\<not> pde_present (pmem k) pgdir j"
    and e: "PTE_ADDR e = V2P t" "e AND PTE_P \<noteq> 0"
    and pde: "\<forall>i < 1024. pde_of (pmem k') pgdir i = (if i = j then e else pde_of (pmem k) pgdir i)"
    and kp: "kpage k' = kpage k"
  shows "pde_present (pmem k') pgdir i \<longleftrightarrow> i = j \<or> pde_present (pmem k) pgdir i"
    and "i < 1024 \<Longrightarrow> table_of (pmem k') pgdir i = (if i = j then t else table_of (pmem k) pgdir i)"
    and "pt_pages (pmem k') pgdir = insert t (pt_pages (pmem k) pgdir)"
    and "pgdir_ok k' pgdir"
proof -
  show tab: "i < 1024 \<Longrightarrow> table_of (pmem k') pgdir i = (if i = j then t else table_of (pmem k) pgdir i)" for i
    using pde e(1) by (simp add: table_of_def)
  show pres: "pde_present (pmem k') pgdir i \<longleftrightarrow> i = j \<or> pde_present (pmem k) pgdir i" for i
    using pde e(2) j by (cases "i = j"; cases "i < 1024") (simp_all add: pde_present_def)
  have new: "i = j \<and> table_of (pmem k') pgdir i = t \<or>
      i \<noteq> j \<and> pde_present (pmem k) pgdir i \<and> table_of (pmem k') pgdir i = table_of (pmem k) pgdir i"
    if "pde_present (pmem k') pgdir i" for i
    using that tab pres [of i] by (cases "i = j") (simp_all add: pde_present_def)
  have old: "i \<noteq> j \<and> table_of (pmem k') pgdir i = table_of (pmem k) pgdir i"
    if "pde_present (pmem k) pgdir i" for i
    using that tab [of i] j(2) by (auto simp: pde_present_def)
  show pages: "pt_pages (pmem k') pgdir = insert t (pt_pages (pmem k) pgdir)"
  proof (intro equalityI subsetI)
    fix x assume "x \<in> pt_pages (pmem k') pgdir"
    then show "x \<in> insert t (pt_pages (pmem k) pgdir)"
      using new by (fastforce simp: pt_pages_def)
  next
    fix x assume "x \<in> insert t (pt_pages (pmem k) pgdir)"
    then consider "x = t" | "x = pgdir" | i where "x = table_of (pmem k) pgdir i" "pde_present (pmem k) pgdir i"
      by (auto simp: pt_pages_def)
    then show "x \<in> pt_pages (pmem k') pgdir"
    proof cases
      case 1
      then have "x = table_of (pmem k') pgdir j" using tab j(1) by simp
      then show ?thesis using pres by (auto simp: pt_pages_def)
    next
      case (3 i)
      then have "x = table_of (pmem k') pgdir i" using old by simp
      then show ?thesis using 3 pres by (auto simp: pt_pages_def)
    qed (simp add: pt_pages_def)
  qed
  have out: "table_of (pmem k) pgdir i \<noteq> t" if "pde_present (pmem k) pgdir i" for i
    using that t(2) by (auto simp: pt_pages_def)
  have "t \<noteq> pgdir" using t(2) by (auto simp: pt_pages_def)
  then have away: "table_of (pmem k') pgdir i \<noteq> pgdir" if "pde_present (pmem k') pgdir i" for i
    using new [OF that] ok by (auto simp: pgdir_ok_def)
  have inj: "i = i'" if "pde_present (pmem k') pgdir i" "pde_present (pmem k') pgdir i'"
      "table_of (pmem k') pgdir i = table_of (pmem k') pgdir i'" for i i'
    using new [OF that(1)] new [OF that(2)] that(3) out [of i] out [of i'] ok
    unfolding pgdir_ok_def by metis
  show "pgdir_ok k' pgdir"
    unfolding pgdir_ok_def kp pages using ok t(1) away inj by (auto simp: pgdir_ok_def)
qed

text \<open>
  \<^verbatim>\<open>walkpgdir(pgdir, va, 1)\<close> on a missing table takes the first free page as a zeroed table:
  no entry of the address space changes.
\<close>

lemma walkpgdir_new:
  assumes sp: "aspace k pgdir (t # xs)" and miss: "\<not> pde_present (pmem k) pgdir (PDX va)"
  obtains k' where "walkpgdir pgdir va True k = (t + 4 * PTX va, k')"
    and "aspace k' pgdir xs" and "kpage k' = kpage k"
    and "pde_present (pmem k') pgdir (PDX va)" and "table_of (pmem k') pgdir (PDX va) = t"
    and "\<And>v. pte_of (pmem k') pgdir v = pte_of (pmem k) pgdir v"
    and "\<And>q. kpage k q \<Longrightarrow> q \<noteq> t \<Longrightarrow> q \<noteq> pgdir \<Longrightarrow> page_same q (pmem k) (pmem k')"
    and "pt_pages (pmem k') pgdir = insert t (pt_pages (pmem k) pgdir)"
proof -
  let ?k1 = "k\<lparr>freelist := load32 (pmem k) (V2P t)\<rparr>"
  let ?m2 = "memset (V2P t) 0 PGSIZE (pmem k)"
  define e where "e = V2P t OR PTE_P OR PTE_W OR PTE_U"
  let ?m3 = "store32 ?m2 (V2P pgdir + 4 * PDX va) e"
  let ?k' = "?k1\<lparr>pmem := ?m3\<rparr>"
  from sp have ok: "pgdir_ok k pgdir" and fr: "free_pages k (t # xs)"
    and sep: "pt_pages (pmem k) pgdir \<inter> set (t # xs) = {}" by (simp_all add: aspace_def)
  have kp: "kpage k pgdir" "kpage k t"
    using pgdir_ok_pages(1) [OF ok] fr by (simp_all add: free_pages_def)
  have ne: "pgdir \<noteq> t" and pgx: "pgdir \<notin> set xs" using sep by (auto simp: pt_pages_def)
  have off2: "agree_off (V2P t) (pmem k) ?m2" by (rule agree_off_memset)
  have off3: "agree_off (V2P pgdir) ?m2 ?m3"
    using unat_entry [OF PDX_less] by (intro store32_agree_off)
  note same2 = pt_unchanged [OF off2 kp(2,1) ne]
  have walk: "walkpgdir pgdir va True k = (t + 4 * PTX va, ?k')"
    using miss kalloc_cons(1) [OF fr] kpage_bounds(4) [OF kp(2)]
    by (simp add: walkpgdir_def Let_def pte_read_pde pde_present_def pte_write_def V2P_add e_def)
  have e: "PTE_ADDR e = V2P t" "e AND PTE_P \<noteq> 0"
    unfolding e_def by (rule table_entry [OF kp(2)])+
  have pde3: "pde_of ?m3 pgdir i = (if i = PDX va then e else pde_of (pmem k) pgdir i)" if "i < 1024" for i
    using load_store_entry [OF kp(1) PDX_less that, of ?m2 va e] pde_of_unchanged [OF off2 kp(2,1) ne that]
    by (simp add: pde_of_def)
  have kpg: "kpage ?k' = kpage k" "kpage ?k1 = kpage k" by (simp_all add: kpage_def fun_eq_iff)
  have tpt: "t \<notin> pt_pages (pmem k) pgdir" using sep by auto
  have pm: "pmem ?k' = ?m3" by simp
  have "\<forall>i < 1024. pde_of (pmem ?k') pgdir i = (if i = PDX va then e else pde_of (pmem k) pgdir i)"
    using pde3 by simp
  note ins = pgdir_insert [OF ok kp(2) tpt PDX_less miss e this kpg(1), unfolded pm]
  have "t \<notin> set xs" using fr by (simp add: free_pages_def)
  with kalloc_cons(2) [OF fr] off2 kp have f2: "free_pages (?k1\<lparr>pmem := ?m2\<rparr>) xs"
    by (intro free_pages_pmem [where q = t]) (simp_all add: kpg)
  have "kpage (?k1\<lparr>pmem := ?m2\<rparr>) = kpage k" by (simp add: kpage_def fun_eq_iff)
  then have fr': "free_pages ?k' xs"
    using free_pages_pmem [OF f2, of pgdir ?m3] off3 kp(1) pgx by simp
  have "pgdir_ok ?k' pgdir" by (rule ins(4))
  moreover have "pt_pages ?m3 pgdir \<inter> set xs = {}"
    using sep \<open>t \<notin> set xs\<close> by (auto simp: ins(3))
  ultimately have sp': "aspace ?k' pgdir xs" using fr' by (simp add: aspace_def)
  have ptes: "pte_of ?m3 pgdir v = pte_of (pmem k) pgdir v" for v
  proof (cases "PDX v = PDX va")
    case True
    have "load32 ?m3 (V2P t + 4 * PTX v) = load32 ?m2 (V2P t + 4 * PTX v)"
      using page_load_unchanged [OF off3 kp _ PTX_less] ne by blast
    then show ?thesis
      using True miss ins(1) ins(2) [OF PDX_less] load32_memset_zero unat_entry [OF PTX_less]
      by (simp add: pte_of_table)
  next
    case False
    have "load32 ?m3 (V2P (table_of (pmem k) pgdir (PDX v)) + 4 * PTX v)
        = load32 (pmem k) (V2P (table_of (pmem k) pgdir (PDX v)) + 4 * PTX v)"
      if "pde_present (pmem k) pgdir (PDX v)"
    proof -
      have "table_of (pmem k) pgdir (PDX v) \<noteq> t" using that tpt by (auto simp: pt_pages_def)
      moreover have "table_of (pmem k) pgdir (PDX v) \<noteq> pgdir" using ok that by (simp add: pgdir_ok_def)
      ultimately show ?thesis
        using page_load_unchanged [OF off3 kp(1) pgdir_ok_pages(2) [OF ok that] _ PTX_less]
          page_load_unchanged [OF off2 kp(2) pgdir_ok_pages(2) [OF ok that] _ PTX_less] by simp
    qed
    then show ?thesis
      using False ins(1) ins(2) [OF PDX_less] by (simp add: pte_of_table)
  qed
  show ?thesis
  proof (rule that [OF walk sp' kpg(1)])
    show "pde_present (pmem ?k') pgdir (PDX va)" "table_of (pmem ?k') pgdir (PDX va) = t"
      using ins(1) ins(2) [OF PDX_less] by simp_all
    show "pte_of (pmem ?k') pgdir v = pte_of (pmem k) pgdir v" for v
      using ptes by simp
    show "page_same q (pmem k) (pmem ?k')" if "kpage k q" "q \<noteq> t" "q \<noteq> pgdir" for q
      using agree_off_page_same [OF off2 kp(2) that(1,2)] agree_off_page_same [OF off3 kp(1) that(1,3)]
      by (auto intro: page_same_trans)
    show "pt_pages (pmem ?k') pgdir = insert t (pt_pages (pmem k) pgdir)"
      using ins(3) by simp
  qed
qed

text \<open>\<^verbatim>\<open>walkpgdir(pgdir, va, 1)\<close> with the table there or a free page to make it from.\<close>

lemma walkpgdir_alloc:
  assumes sp: "aspace k pgdir xs" and room: "pde_present (pmem k) pgdir (PDX va) \<or> xs \<noteq> []"
  obtains k' ys where "walkpgdir pgdir va True k = (table_of (pmem k') pgdir (PDX va) + 4 * PTX va, k')"
    and "aspace k' pgdir ys" and "length xs \<le> Suc (length ys)" and "set ys \<subseteq> set xs" and "kpage k' = kpage k"
    and "pde_present (pmem k') pgdir (PDX va)"
    and "table_of (pmem k') pgdir (PDX va) \<in> pt_pages (pmem k) pgdir \<union> set xs"
    and "\<And>v. pte_of (pmem k') pgdir v = pte_of (pmem k) pgdir v"
    and "\<And>q. kpage k q \<Longrightarrow> q \<notin> set xs \<Longrightarrow> q \<notin> pt_pages (pmem k) pgdir \<Longrightarrow> page_same q (pmem k) (pmem k')"
    and "pt_pages (pmem k') pgdir \<subseteq> pt_pages (pmem k) pgdir \<union> set xs"
proof (cases "pde_present (pmem k) pgdir (PDX va)")
  case True
  then have "table_of (pmem k) pgdir (PDX va) \<in> pt_pages (pmem k) pgdir" by (auto simp: pt_pages_def)
  with True that [of k xs] walkpgdir_hit [OF True] sp show ?thesis by simp
next
  case False
  with room obtain t ys where xs: "xs = t # ys" by (cases xs) auto
  from walkpgdir_new [OF sp [unfolded xs] False] obtain k' where k':
    "walkpgdir pgdir va True k = (t + 4 * PTX va, k')" "aspace k' pgdir ys" "kpage k' = kpage k"
    "pde_present (pmem k') pgdir (PDX va)" "table_of (pmem k') pgdir (PDX va) = t"
    "\<And>v. pte_of (pmem k') pgdir v = pte_of (pmem k) pgdir v"
    "\<And>q. kpage k q \<Longrightarrow> q \<noteq> t \<Longrightarrow> q \<noteq> pgdir \<Longrightarrow> page_same q (pmem k) (pmem k')"
    "pt_pages (pmem k') pgdir = insert t (pt_pages (pmem k) pgdir)" by blast
  have "page_same q (pmem k) (pmem k')" if "kpage k q" "q \<notin> set xs" "q \<notin> pt_pages (pmem k) pgdir" for q
    using k'(7) [OF that(1)] that(2,3) xs by (auto simp: pt_pages_def)
  with that [of k' ys] k' xs show ?thesis by auto
qed

subsection \<open>mappages\<close>

lemma vpn_add:
  assumes "unat a mod 4096 = 0"
  shows "vpn (a + of_nat j * PGSIZE) = (vpn a + j) mod 2 ^ 20"
proof -
  have "a + of_nat j * PGSIZE = a + of_nat (j * 4096)" by simp
  then have "unat (a + of_nat j * PGSIZE) = (unat a + j * 4096) mod 2 ^ 32"
    by (simp only:) (simp add: unat_word_ariths unsigned_of_nat take_bit_eq_mod,
        metis mod_add_right_eq mod_mult_left_eq)
  also have "unat a + j * 4096 = 4096 * (vpn a + j)"
    using assms mult_div_mod_eq [of 4096 "unat a"] by (simp add: vpn_def distrib_left)
  also have "(4096 * (vpn a + j)) mod 2 ^ 32 = 4096 * ((vpn a + j) mod 2 ^ 20)"
    using mult_mod_right [of 4096 "vpn a + j" "2 ^ 20"] by simp
  finally show ?thesis by (simp add: vpn_def)
qed

lemma vpn_less: "vpn a < 2 ^ 20"
  using unat_lt32 [of a] by (simp add: vpn_def div_less_iff_less_mult)

lemma vpn_add_neq:
  assumes "unat a mod 4096 = 0" "0 < j" "j < 2 ^ 20"
  shows "vpn (a + of_nat j * PGSIZE) \<noteq> vpn a"
proof
  assume "vpn (a + of_nat j * PGSIZE) = vpn a"
  then have eq: "(vpn a + j) mod 2 ^ 20 = vpn a"
    using vpn_add [OF assms(1), of j] by simp
  show False
  proof (cases "vpn a + j < 2 ^ 20")
    case True
    with eq assms(2) show ?thesis by simp
  next
    case False
    then have "(vpn a + j) mod 2 ^ 20 = vpn a + j - 2 ^ 20"
      using vpn_less [of a] assms(3) by (simp add: le_mod_geq)
    with eq assms(3) False show ?thesis by simp
  qed
qed

lemma mappages_step:
  assumes sp: "aspace k pgdir xs" and room: "pde_present (pmem k) pgdir (PDX a) \<or> xs \<noteq> []"
    and np: "pte_of (pmem k) pgdir a AND PTE_P = 0"
  obtains k' ys where
    "\<And>fuel lastp. mappages_loop (Suc fuel) pgdir a lastp pa perm k =
       (if a = lastp then Inr (0, k') else mappages_loop fuel pgdir (a + PGSIZE) lastp (pa + PGSIZE) perm k')"
    and "aspace k' pgdir ys" and "length xs \<le> Suc (length ys)" and "set ys \<subseteq> set xs" and "kpage k' = kpage k"
    and "\<And>v. pte_of (pmem k') pgdir v = (if vpn v = vpn a then pa OR perm OR PTE_P else pte_of (pmem k) pgdir v)"
    and "\<And>q. kpage k q \<Longrightarrow> q \<notin> set xs \<Longrightarrow> q \<notin> pt_pages (pmem k) pgdir \<Longrightarrow> page_same q (pmem k) (pmem k')"
    and "pt_pages (pmem k') pgdir \<subseteq> pt_pages (pmem k) pgdir \<union> set xs"
proof -
  from walkpgdir_alloc [OF sp room] obtain k1 ys where k1:
    "walkpgdir pgdir a True k = (table_of (pmem k1) pgdir (PDX a) + 4 * PTX a, k1)"
    "aspace k1 pgdir ys" "length xs \<le> Suc (length ys)" "set ys \<subseteq> set xs" "kpage k1 = kpage k"
    "pde_present (pmem k1) pgdir (PDX a)"
    "table_of (pmem k1) pgdir (PDX a) \<in> pt_pages (pmem k) pgdir \<union> set xs"
    "\<And>v. pte_of (pmem k1) pgdir v = pte_of (pmem k) pgdir v"
    "\<And>q. kpage k q \<Longrightarrow> q \<notin> set xs \<Longrightarrow> q \<notin> pt_pages (pmem k) pgdir \<Longrightarrow> page_same q (pmem k) (pmem k1)"
    "pt_pages (pmem k1) pgdir \<subseteq> pt_pages (pmem k) pgdir \<union> set xs"
    by blast
  let ?p = "table_of (pmem k1) pgdir (PDX a) + 4 * PTX a"
  let ?k' = "pte_write ?p (pa OR perm OR PTE_P) k1"
  have kt: "kpage k1 (table_of (pmem k1) pgdir (PDX a))"
    using k1(2,6) pgdir_ok_pages(2) by (auto simp: aspace_def)
  note wr = pte_write_aspace [OF k1(2,6) refl, of "pa OR perm OR PTE_P"]
  show ?thesis
  proof (rule that)
    show "mappages_loop (Suc fuel) pgdir a lastp pa perm k =
       (if a = lastp then Inr (0, ?k') else mappages_loop fuel pgdir (a + PGSIZE) lastp (pa + PGSIZE) perm ?k')" for fuel lastp
      using k1(1) np entry_ptr_nonnull [OF kt PTX_less] pte_read_table [OF k1(6)] k1(8) by (simp add: Let_def)
    show "aspace ?k' pgdir ys" by (rule wr(1))
    show "kpage ?k' = kpage k" using k1(5) by (simp add: kpage_def fun_eq_iff pte_write_def)
    show "pte_of (pmem ?k') pgdir v = (if vpn v = vpn a then pa OR perm OR PTE_P else pte_of (pmem k) pgdir v)" for v
      using wr(2) [of v] k1(8) by simp
    show "page_same q (pmem k) (pmem ?k')" if "kpage k q" "q \<notin> set xs" "q \<notin> pt_pages (pmem k) pgdir" for q
      using k1(9) [OF that] agree_off_page_same [OF wr(3) kt, of q] that k1(5,7) page_same_trans by auto
    have "kpage k1 pgdir" "pgdir \<noteq> table_of (pmem k1) pgdir (PDX a)"
      using k1(2,6) pgdir_ok_pages(1) by (auto simp: aspace_def pgdir_ok_def)
    then show "pt_pages (pmem ?k') pgdir \<subseteq> pt_pages (pmem k) pgdir \<union> set xs"
      using pt_unchanged(3) [OF wr(3) kt] k1(10) by simp
  qed (use k1 in simp_all)
qed

end
