(* ===== verification/Vm_Map.thy ===== *)
theory Vm_Map
  imports Vm_Spec
begin

text \<open>
  Ranges of pages: what \<^verbatim>\<open>mappages\<close> does to a whole address space.
\<close>

lemma mappages_loop_range:
  assumes "aspace k pgdir xs" and "unat a mod 4096 = 0" and "n < 2 ^ 20" and "n < fuel"
    and "\<forall>j \<le> n. pte_of (pmem k) pgdir (a + of_nat j * PGSIZE) AND PTE_P = 0" and "n < length xs"
  shows "\<exists>k' ys. mappages_loop fuel pgdir a (a + of_nat n * PGSIZE) pa perm k = Inr (0, k') \<and>
    aspace k' pgdir ys \<and> length xs \<le> length ys + Suc n \<and> set ys \<subseteq> set xs \<and> kpage k' = kpage k \<and>
    (\<forall>j \<le> n. pte_of (pmem k') pgdir (a + of_nat j * PGSIZE) = (pa + of_nat j * PGSIZE) OR perm OR PTE_P) \<and>
    (\<forall>v. (\<forall>j \<le> n. vpn v \<noteq> vpn (a + of_nat j * PGSIZE)) \<longrightarrow> pte_of (pmem k') pgdir v = pte_of (pmem k) pgdir v)"
  using assms
proof (induction n arbitrary: a pa k xs fuel)
  case 0
  then obtain f where f: "fuel = Suc f" by (cases fuel) auto
  from 0 have first: "pte_of (pmem k) pgdir a AND PTE_P = 0" and ne: "xs \<noteq> []" by auto
  obtain k' ys where k':
    "\<And>fuel lastp. mappages_loop (Suc fuel) pgdir a lastp pa perm k =
       (if a = lastp then Inr (0, k') else mappages_loop fuel pgdir (a + PGSIZE) lastp (pa + PGSIZE) perm k')"
    "aspace k' pgdir ys" "length xs \<le> Suc (length ys)" "set ys \<subseteq> set xs" "kpage k' = kpage k"
    "\<And>v. pte_of (pmem k') pgdir v = (if vpn v = vpn a then pa OR perm OR PTE_P else pte_of (pmem k) pgdir v)"
    "\<And>q. kpage k q \<Longrightarrow> q \<notin> set xs \<Longrightarrow> q \<notin> pt_pages (pmem k) pgdir \<Longrightarrow> page_same q (pmem k) (pmem k')"
    by (rule mappages_step [OF "0.prems"(1) disjI2 [OF ne] first, where pa = pa and perm = perm]) (rule that, assumption+)
  from k'(1) [of f a] have "mappages_loop fuel pgdir a (a + of_nat 0 * PGSIZE) pa perm k = Inr (0, k')"
    by (simp add: f)
  with k'(2-6) show ?case by (intro exI [of _ k'] exI [of _ ys]) auto
next
  case (Suc n)
  then obtain f where f: "fuel = Suc f" by (cases fuel) auto
  have first: "pte_of (pmem k) pgdir a AND PTE_P = 0" using Suc.prems(5) by (auto dest: spec [of _ 0])
  have ne: "xs \<noteq> []" using Suc.prems(6) by auto
  obtain k1 ys where k1:
    "\<And>fuel lastp. mappages_loop (Suc fuel) pgdir a lastp pa perm k =
       (if a = lastp then Inr (0, k1) else mappages_loop fuel pgdir (a + PGSIZE) lastp (pa + PGSIZE) perm k1)"
    "aspace k1 pgdir ys" "length xs \<le> Suc (length ys)" "set ys \<subseteq> set xs" "kpage k1 = kpage k"
    "\<And>v. pte_of (pmem k1) pgdir v = (if vpn v = vpn a then pa OR perm OR PTE_P else pte_of (pmem k) pgdir v)"
    "\<And>q. kpage k q \<Longrightarrow> q \<notin> set xs \<Longrightarrow> q \<notin> pt_pages (pmem k) pgdir \<Longrightarrow> page_same q (pmem k) (pmem k1)"
    by (rule mappages_step [OF Suc.prems(1) disjI2 [OF ne] first, where pa = pa and perm = perm]) (rule that, assumption+)
  let ?b = "a + PGSIZE"
  have shift: "a + of_nat (Suc j) * PGSIZE = ?b + of_nat j * PGSIZE" for j by (simp add: algebra_simps)
  have shiftp: "pa + of_nat (Suc j) * PGSIZE = pa + PGSIZE + of_nat j * PGSIZE" for j by (simp add: algebra_simps)
  have apart: "vpn (?b + of_nat j * PGSIZE) \<noteq> vpn a" if "j \<le> n" for j
    unfolding shift [symmetric] using vpn_add_neq [OF Suc.prems(2), of "Suc j"] that Suc.prems(3) by simp
  have "unat ?b mod 4096 = 0"
    using Suc.prems(2) by (simp add: unat_word_ariths mod_mod_cancel)
  moreover have "\<forall>j \<le> n. pte_of (pmem k1) pgdir (?b + of_nat j * PGSIZE) AND PTE_P = 0"
  proof (intro allI impI)
    fix j assume j: "j \<le> n"
    show "pte_of (pmem k1) pgdir (?b + of_nat j * PGSIZE) AND PTE_P = 0"
      using Suc.prems(5) [rule_format, of "Suc j"] apart [OF j] j by (simp only: k1(6) shift if_False Suc_le_mono)
  qed
  ultimately obtain k' zs where k':
    "mappages_loop f pgdir ?b (?b + of_nat n * PGSIZE) (pa + PGSIZE) perm k1 = Inr (0, k')"
    "aspace k' pgdir zs" "length ys \<le> length zs + Suc n" "set zs \<subseteq> set ys" "kpage k' = kpage k1"
    "\<forall>j \<le> n. pte_of (pmem k') pgdir (?b + of_nat j * PGSIZE) = (pa + PGSIZE + of_nat j * PGSIZE) OR perm OR PTE_P"
    "\<forall>v. (\<forall>j \<le> n. vpn v \<noteq> vpn (?b + of_nat j * PGSIZE)) \<longrightarrow> pte_of (pmem k') pgdir v = pte_of (pmem k1) pgdir v"
    using Suc.IH [OF k1(2), of ?b f "pa + PGSIZE"] Suc.prems(3,4,6) k1(3) f by auto
  have "a \<noteq> a + of_nat (Suc n) * PGSIZE"
    using vpn_add_neq [OF Suc.prems(2), of "Suc n"] Suc.prems(3) by (metis zero_less_Suc)
  then have loop: "mappages_loop fuel pgdir a (a + of_nat (Suc n) * PGSIZE) pa perm k = Inr (0, k')"
    using k1(1) [of f "a + of_nat (Suc n) * PGSIZE"] k'(1) by (simp only: f shift if_False)
  have at: "pte_of (pmem k') pgdir (a + of_nat j * PGSIZE) = (pa + of_nat j * PGSIZE) OR perm OR PTE_P" if "j \<le> Suc n" for j
  proof (cases j)
    case 0
    then show ?thesis using k'(7) [rule_format, of a] apart k1(6) [of a] by force
  next
    case (Suc i)
    then show ?thesis using k'(6) that by (simp only: shift shiftp Suc_le_mono)
  qed
  have rest: "pte_of (pmem k') pgdir v = pte_of (pmem k) pgdir v"
    if v: "\<forall>j \<le> Suc n. vpn v \<noteq> vpn (a + of_nat j * PGSIZE)" for v
  proof -
    have "\<forall>j \<le> n. vpn v \<noteq> vpn (?b + of_nat j * PGSIZE)" using v shift by (metis Suc_le_mono)
    moreover have "vpn v \<noteq> vpn a" using v by (auto dest: spec [of _ 0])
    ultimately show ?thesis using k'(7) k1(6) by simp
  qed
  show ?case
    using loop k'(2,3,4,5) k1(3,4,5) at rest by (intro exI [of _ k'] exI [of _ zs]) auto
qed

lemma PGROUNDDOWN_aligned: "unat (PGROUNDDOWN a) mod 4096 = 0"
  unfolding unat_PGROUNDDOWN by (simp add: minus_mod_eq_mult_div)

lemma PGROUNDDOWN_range:
  assumes "vpn va \<le> vpn vb"
  shows "PGROUNDDOWN vb = PGROUNDDOWN va + of_nat (vpn vb - vpn va) * PGSIZE"
proof -
  have "unat (PGROUNDDOWN vb) = unat (PGROUNDDOWN va) + (vpn vb - vpn va) * 4096"
    unfolding unat_PGROUNDDOWN minus_mod_eq_mult_div using assms by (simp add: vpn_def diff_mult_distrib)
  then have "(of_nat (unat (PGROUNDDOWN vb)) :: uint) = of_nat (unat (PGROUNDDOWN va) + (vpn vb - vpn va) * 4096)"
    by simp
  then show ?thesis by simp
qed

lemma vpn_PGROUNDDOWN [simp]: "vpn (PGROUNDDOWN a) = vpn a"
  by (simp add: vpn_def unat_PGROUNDDOWN minus_mod_eq_mult_div)

text \<open>C2: with no page of the range mapped yet and a free page for every table that may be
  needed, \<^verbatim>\<open>mappages(pgdir, va, size, pa, perm)\<close> returns 0; page \<open>j\<close> of the range then has the
  entry \<open>(pa + j * PGSIZE) | perm | PTE_P\<close>, every other page of the address space keeps its
  entry, and the page directory is still well formed.\<close>

theorem mappages_maps_range:
  assumes "aspace k pgdir xs" and "vpn va \<le> vpn (va + sz - 1)" and "n = vpn (va + sz - 1) - vpn va"
    and "\<forall>j \<le> n. pte_of (pmem k) pgdir (PGROUNDDOWN va + of_nat j * PGSIZE) AND PTE_P = 0"
    and "n < length xs"
  shows "\<exists>k' ys. mappages pgdir va sz pa perm k = Inr (0, k') \<and> aspace k' pgdir ys \<and> set ys \<subseteq> set xs \<and>
    (\<forall>v. pte_of (pmem k') pgdir v =
      (if vpn va \<le> vpn v \<and> vpn v \<le> vpn va + n
       then (pa + of_nat (vpn v - vpn va) * PGSIZE) OR perm OR PTE_P else pte_of (pmem k) pgdir v))"
proof -
  let ?a = "PGROUNDDOWN va"
  have n: "n < 2 ^ 20" using assms(3) vpn_less [of "va + sz - 1"] by simp
  then have fuel: "n < page_fuel" unfolding page_fuel_def by linarith
  have vpn: "vpn (?a + of_nat j * PGSIZE) = vpn va + j" if "j \<le> n" for j
    using vpn_add [OF PGROUNDDOWN_aligned, of va j] vpn_less [of "va + sz - 1"] assms(2,3) that by simp
  obtain k' ys where k': "mappages_loop page_fuel pgdir ?a (?a + of_nat n * PGSIZE) pa perm k = Inr (0, k')"
    "aspace k' pgdir ys" "set ys \<subseteq> set xs"
    "\<forall>j \<le> n. pte_of (pmem k') pgdir (?a + of_nat j * PGSIZE) = (pa + of_nat j * PGSIZE) OR perm OR PTE_P"
    "\<forall>v. (\<forall>j \<le> n. vpn v \<noteq> vpn (?a + of_nat j * PGSIZE)) \<longrightarrow> pte_of (pmem k') pgdir v = pte_of (pmem k) pgdir v"
    using mappages_loop_range [OF assms(1) PGROUNDDOWN_aligned n fuel assms(4,5), of pa perm] by blast
  have "pte_of (pmem k') pgdir v = (if vpn va \<le> vpn v \<and> vpn v \<le> vpn va + n
      then (pa + of_nat (vpn v - vpn va) * PGSIZE) OR perm OR PTE_P else pte_of (pmem k) pgdir v)" for v
  proof (cases "vpn va \<le> vpn v \<and> vpn v \<le> vpn va + n")
    case True
    then obtain j where j: "vpn v = vpn va + j" "j \<le> n" by (metis le_Suc_ex nat_add_left_cancel_le)
    then have "pte_of (pmem k') pgdir v = pte_of (pmem k') pgdir (?a + of_nat j * PGSIZE)"
      by (intro pte_of_same_page) (simp add: vpn)
    with j k'(4) show ?thesis by simp
  next
    case False
    then have "\<forall>j \<le> n. vpn v \<noteq> vpn (?a + of_nat j * PGSIZE)" using vpn by auto
    with k'(5) show ?thesis unfolding if_not_P [OF False] by blast
  qed
  moreover have "mappages pgdir va sz pa perm k = Inr (0, k')"
    using k'(1) PGROUNDDOWN_range [OF assms(2)] by (simp only: mappages_def assms(3))
  ultimately show ?thesis using k'(2,3) by (intro exI [of _ k'] exI [of _ ys]) blast
qed

lemma kmem_sample_pde: "pde_of (pmem kmem_sample) d i = 0"
  by (simp add: pde_of_def kmem_sample_def load32_def)

lemma kmem_sample_aspace: "aspace kmem_sample 0x80201000 [0x80200000]"
proof -
  have none: "\<not> pde_present (pmem kmem_sample) 0x80201000 i" for i
    by (simp add: pde_present_def kmem_sample_pde)
  moreover have "kpage kmem_sample 0x80201000" by (simp add: kpage_def kmem_sample_def V2P_def)
  ultimately show ?thesis
    using kmem_sample_free by (simp add: aspace_def pgdir_ok_def pt_pages_def)
qed

theorem mappages_maps_range_witness:
  "\<exists>k' ys. mappages 0x80201000 0x4000 4096 0x300000 (PTE_W OR PTE_U) kmem_sample = Inr (0, k') \<and>
     aspace k' 0x80201000 ys \<and> pte_of (pmem k') 0x80201000 0x4123 = 0x300007 \<and> pte_of (pmem k') 0x80201000 0x5000 = 0"
proof -
  have unmapped: "pte_of (pmem kmem_sample) 0x80201000 v = 0" for v
    by (simp add: pte_of_def kmem_sample_pde)
  have n: "0 = vpn (0x4000 + 4096 - 1) - vpn (0x4000 :: uint)" by (simp add: vpn_def)
  have "\<exists>k' ys. mappages 0x80201000 0x4000 4096 0x300000 (PTE_W OR PTE_U) kmem_sample = Inr (0, k') \<and>
     aspace k' 0x80201000 ys \<and> set ys \<subseteq> set [0x80200000] \<and>
    (\<forall>v. pte_of (pmem k') 0x80201000 v = (if vpn 0x4000 \<le> vpn v \<and> vpn v \<le> vpn 0x4000 + 0
       then (0x300000 + of_nat (vpn v - vpn 0x4000) * PGSIZE) OR (PTE_W OR PTE_U) OR PTE_P
       else pte_of (pmem kmem_sample) 0x80201000 v))"
    by (rule mappages_maps_range [OF kmem_sample_aspace _ n]) (simp_all add: vpn_def unmapped)
  then obtain k' ys where "mappages 0x80201000 0x4000 4096 0x300000 (PTE_W OR PTE_U) kmem_sample = Inr (0, k')"
    "aspace k' 0x80201000 ys"
    "\<And>v. pte_of (pmem k') 0x80201000 v = (if vpn 0x4000 \<le> vpn v \<and> vpn v \<le> vpn 0x4000 + 0
       then (0x300000 + of_nat (vpn v - vpn 0x4000) * PGSIZE) OR (PTE_W OR PTE_U) OR PTE_P else 0)"
    unfolding unmapped by blast
  then show ?thesis by (intro exI [of _ k'] exI [of _ ys]) (simp add: vpn_def)
qed

text \<open>A page that is already mapped is never silently remapped: \<^verbatim>\<open>mappages\<close> panics with
  \<^verbatim>\<open>remap\<close> when the first page of the range is present.\<close>

lemma mappages_remap_panics:
  assumes "aspace k pgdir xs" and "pte_of (pmem k) pgdir va AND PTE_P \<noteq> 0"
  shows "mappages pgdir va sz pa perm k = panic ''remap''"
proof -
  have pres: "pde_present (pmem k) pgdir (PDX (PGROUNDDOWN va))"
  proof (rule ccontr)
    assume "\<not> ?thesis"
    then have "pte_of (pmem k) pgdir (PGROUNDDOWN va) = 0" by (simp add: pte_of_table)
    with assms(2) show False using pte_of_same_page [of "PGROUNDDOWN va" va] by simp
  qed
  have hit: "walkpgdir pgdir (PGROUNDDOWN va) True k =
      (table_of (pmem k) pgdir (PDX (PGROUNDDOWN va)) + 4 * PTX (PGROUNDDOWN va), k)"
    using walkpgdir_hit pres assms(1) by (simp add: aspace_def)
  obtain f where f: "page_fuel = Suc f" by (simp add: page_fuel_def)
  have "kpage k (table_of (pmem k) pgdir (PDX (PGROUNDDOWN va)))"
    using assms(1) pres pgdir_ok_pages(2) by (simp add: aspace_def)
  then have "table_of (pmem k) pgdir (PDX (PGROUNDDOWN va)) + 4 * PTX (PGROUNDDOWN va) \<noteq> 0"
    by (rule entry_ptr_nonnull) (rule PTX_less)
  with hit pres assms(2) pte_of_same_page [of "PGROUNDDOWN va" va] show ?thesis
    by (simp add: mappages_def f pte_read_table)
qed

end
