(* ===== verification/Vm_User.thy ===== *)
theory Vm_User
  imports Vm_Map
begin

text \<open>
  Ownership of user memory: the pages that the user half of a page table maps are pages of the
  allocator, each mapped once, none of them free and none of them part of the table. Unmapping a page
  gives it back to the allocator and keeps this.
\<close>

definition mapped :: "mem \<Rightarrow> uint \<Rightarrow> uint \<Rightarrow> bool" where
  "mapped m pgdir va \<longleftrightarrow> pte_of m pgdir va AND PTE_P \<noteq> 0"

definition frame :: "mem \<Rightarrow> uint \<Rightarrow> uint \<Rightarrow> uint" where
  "frame m pgdir va = P2V (PTE_ADDR (pte_of m pgdir va))"

definition uspace :: "kmem \<Rightarrow> uint \<Rightarrow> uint list \<Rightarrow> bool" where
  "uspace k pgdir xs \<longleftrightarrow> aspace k pgdir xs \<and>
     (\<forall>va. unat va < 0x80000000 \<longrightarrow> mapped (pmem k) pgdir va \<longrightarrow>
        kpage k (frame (pmem k) pgdir va) \<and> frame (pmem k) pgdir va \<notin> set xs \<and>
        frame (pmem k) pgdir va \<notin> pt_pages (pmem k) pgdir) \<and>
     (\<forall>va vb. unat va < 0x80000000 \<longrightarrow> unat vb < 0x80000000 \<longrightarrow> mapped (pmem k) pgdir va \<longrightarrow> mapped (pmem k) pgdir vb \<longrightarrow>
        frame (pmem k) pgdir va = frame (pmem k) pgdir vb \<longrightarrow> vpn va = vpn vb)"

lemma uspaceD:
  assumes "uspace k pgdir xs"
  shows "aspace k pgdir xs"
    and "unat va < 0x80000000 \<Longrightarrow> mapped (pmem k) pgdir va \<Longrightarrow> kpage k (frame (pmem k) pgdir va)"
    and "unat va < 0x80000000 \<Longrightarrow> mapped (pmem k) pgdir va \<Longrightarrow> frame (pmem k) pgdir va \<notin> set xs"
    and "unat va < 0x80000000 \<Longrightarrow> mapped (pmem k) pgdir va \<Longrightarrow> frame (pmem k) pgdir va \<notin> pt_pages (pmem k) pgdir"
    and "unat va < 0x80000000 \<Longrightarrow> unat vb < 0x80000000 \<Longrightarrow> mapped (pmem k) pgdir va \<Longrightarrow> mapped (pmem k) pgdir vb \<Longrightarrow>
        frame (pmem k) pgdir va = frame (pmem k) pgdir vb \<Longrightarrow> vpn va = vpn vb"
  using assms unfolding uspace_def by blast+

lemma mapped_present: "mapped m pgdir va \<Longrightarrow> pde_present m pgdir (PDX va)"
  by (rule ccontr) (simp add: mapped_def pte_of_table)

lemma mapped_same_page: "vpn a = vpn b \<Longrightarrow> mapped m pgdir a = mapped m pgdir b"
  using pte_of_same_page [of a b m pgdir] by (simp add: mapped_def)

text \<open>Writes to a page that is neither free nor part of the table leave the table alone.\<close>

lemma table_unchanged:
  assumes ok: "pgdir_ok k pgdir" and v: "kpage k v" "v \<notin> pt_pages (pmem k) pgdir"
    and off: "agree_off (V2P v) (pmem k) (pmem k1)" and kp: "kpage k1 = kpage k"
  shows "pgdir_ok k1 pgdir" and "pte_of (pmem k1) pgdir va = pte_of (pmem k) pgdir va"
    and "pt_pages (pmem k1) pgdir = pt_pages (pmem k) pgdir"
    and "table_of (pmem k1) pgdir (PDX va) = table_of (pmem k) pgdir (PDX va)"
    and "pde_present (pmem k1) pgdir (PDX va) = pde_present (pmem k) pgdir (PDX va)"
proof -
  have pg: "kpage k pgdir" "pgdir \<noteq> v" using pgdir_ok_pages(1) [OF ok] v(2) by (auto simp: pt_pages_def)
  note same = pt_unchanged [OF off v(1) pg]
  have tab: "table_of (pmem k1) pgdir i = table_of (pmem k) pgdir i" if "pde_present (pmem k1) pgdir i" for i
    using that same(2) by (simp add: pde_present_def)
  show "pgdir_ok k1 pgdir"
    using ok unfolding pgdir_ok_def kp same(3) by (auto simp: same(1) tab)
  show "pt_pages (pmem k1) pgdir = pt_pages (pmem k) pgdir"
    "table_of (pmem k1) pgdir (PDX va) = table_of (pmem k) pgdir (PDX va)"
    "pde_present (pmem k1) pgdir (PDX va) = pde_present (pmem k) pgdir (PDX va)"
    using same(1,3) same(2) [OF PDX_less] by auto
  show "pte_of (pmem k1) pgdir va = pte_of (pmem k) pgdir va"
  proof (cases "pde_present (pmem k) pgdir (PDX va)")
    case True
    let ?t = "table_of (pmem k) pgdir (PDX va)"
    have "kpage k ?t" "?t \<noteq> v" using pgdir_ok_pages(2) [OF ok True] True v(2) by (auto simp: pt_pages_def)
    then have "load32 (pmem k1) (V2P ?t + 4 * PTX va) = load32 (pmem k) (V2P ?t + 4 * PTX va)"
      using page_load_unchanged [OF off v(1)] PTX_less by blast
    then show ?thesis using True same(1) same(2) [OF PDX_less] by (simp add: pte_of_table)
  next
    case False
    then show ?thesis using same(1) by (simp add: pte_of_table)
  qed
qed

lemma kfree_keeps_table:
  assumes sp: "aspace k pgdir xs" and v: "kpage k v" "v \<notin> set xs" "v \<notin> pt_pages (pmem k) pgdir"
  obtains k1 where "kfree v k = Inr k1" and "aspace k1 pgdir (v # xs)" and "kpage k1 = kpage k"
    and "\<And>va. pte_of (pmem k1) pgdir va = pte_of (pmem k) pgdir va"
    and "pt_pages (pmem k1) pgdir = pt_pages (pmem k) pgdir"
    and "\<And>va. table_of (pmem k1) pgdir (PDX va) = table_of (pmem k) pgdir (PDX va)"
    and "\<And>va. pde_present (pmem k1) pgdir (PDX va) = pde_present (pmem k) pgdir (PDX va)"
proof -
  from sp have ok: "pgdir_ok k pgdir" and fr: "free_pages k xs" and sep: "pt_pages (pmem k) pgdir \<inter> set xs = {}"
    by (simp_all add: aspace_def)
  obtain k1 where k1: "kfree v k = Inr k1" "free_pages k1 (v # xs)" "kpage k1 = kpage k"
    using kfree_push [OF fr v(1,2)] by blast
  note T = table_unchanged [OF ok v(1,3) kfree_agree_off [OF k1(1)] k1(3)]
  have "aspace k1 pgdir (v # xs)"
    using T(1) k1(2) sep v(3) by (simp add: aspace_def T(3))
  then show thesis by (rule that [OF k1(1) _ k1(3) T(2-5)])
qed

lemma uspace_write_page:
  assumes us: "uspace k pgdir xs" and v: "kpage k v" "v \<notin> set xs" "v \<notin> pt_pages (pmem k) pgdir"
    and off: "agree_off (V2P v) (pmem k) m"
  shows "uspace (k\<lparr>pmem := m\<rparr>) pgdir xs" and "pte_of m pgdir va = pte_of (pmem k) pgdir va"
proof -
  let ?k = "k\<lparr>pmem := m\<rparr>"
  have ok: "pgdir_ok k pgdir" and fr: "free_pages k xs" and sep: "pt_pages (pmem k) pgdir \<inter> set xs = {}"
    using uspaceD(1) [OF us] by (simp_all add: aspace_def)
  have kp: "kpage ?k = kpage k" by (simp add: kpage_def fun_eq_iff)
  have off': "agree_off (V2P v) (pmem k) (pmem ?k)" using off by simp
  have pm: "pmem ?k = m" by simp
  note T = table_unchanged [OF ok v(1,3) off' kp, unfolded pm]
  have as: "aspace ?k pgdir xs"
    unfolding aspace_def pm T(3) using T(1) sep free_pages_pmem [OF fr off v(1,2)] by blast
  have "mapped m pgdir w = mapped (pmem k) pgdir w" "frame m pgdir w = frame (pmem k) pgdir w" for w
    unfolding mapped_def frame_def T(2) by (rule refl)+
  note same = this
  show "uspace ?k pgdir xs"
    using us as unfolding uspace_def pm kp T(3) same by blast
  show "pte_of m pgdir va = pte_of (pmem k) pgdir va" by (rule T(2))
qed

text \<open>A page taken from the allocator is fresh.\<close>

lemma uspace_kalloc:
  assumes us: "uspace k pgdir (f # xs)"
  obtains k1 where "kalloc k = (f, k1)" and "uspace k1 pgdir xs" and "pmem k1 = pmem k" and "kpage k1 = kpage k"
    and "kpage k f" and "f \<noteq> 0" and "f \<notin> set xs" and "f \<notin> pt_pages (pmem k) pgdir"
    and "\<forall>v. unat v < 0x80000000 \<longrightarrow> mapped (pmem k) pgdir v \<longrightarrow> frame (pmem k) pgdir v \<noteq> f"
proof -
  let ?k = "k\<lparr>freelist := load32 (pmem k) (V2P f)\<rparr>"
  have as: "aspace k pgdir (f # xs)" by (rule uspaceD(1) [OF us])
  then have fr: "free_pages k (f # xs)" by (simp add: aspace_def)
  have kp: "kpage ?k = kpage k" by (simp add: kpage_def fun_eq_iff)
  have pm: "pmem ?k = pmem k" by simp
  have "pgdir_ok ?k pgdir" using as unfolding aspace_def pgdir_ok_def kp pm by blast
  then have as': "aspace ?k pgdir xs"
    using as kalloc_cons(2) [OF fr] unfolding aspace_def pm by auto
  have us': "uspace ?k pgdir xs"
    using us as' unfolding uspace_def kp pm by (meson list.set_intros(2))
  have f: "kpage k f" "f \<notin> set xs" using fr by (simp_all add: free_pages_def)
  have pt: "f \<notin> pt_pages (pmem k) pgdir" using as by (auto simp: aspace_def)
  have nm: "\<forall>v. unat v < 0x80000000 \<longrightarrow> mapped (pmem k) pgdir v \<longrightarrow> frame (pmem k) pgdir v \<noteq> f"
  proof (intro allI impI)
    fix v assume "unat v < 0x80000000" "mapped (pmem k) pgdir v"
    from uspaceD(3) [OF us this] show "frame (pmem k) pgdir v \<noteq> f" by simp
  qed
  show thesis
    by (rule that [OF kalloc_cons(1) [OF fr] us' pm kp f(1) kpage_bounds(4) [OF f(1)] f(2) pt nm])
qed

text \<open>One page given back: free it, clear its entry.\<close>

lemma unmap_step:
  assumes us: "uspace k pgdir xs" and va: "unat va < 0x80000000" "mapped (pmem k) pgdir va"
    and pte: "pte = table_of (pmem k) pgdir (PDX va) + 4 * PTX va"
  obtains k1 where "kfree (frame (pmem k) pgdir va) k = Inr k1"
    and "uspace (pte_write pte 0 k1) pgdir (frame (pmem k) pgdir va # xs)"
    and "kpage (pte_write pte 0 k1) = kpage k"
    and "\<And>v. pte_of (pmem (pte_write pte 0 k1)) pgdir v = (if vpn v = vpn va then 0 else pte_of (pmem k) pgdir v)"
proof -
  let ?f = "frame (pmem k) pgdir va"
  note U = uspaceD [OF us]
  have pres: "pde_present (pmem k) pgdir (PDX va)" by (rule mapped_present [OF va(2)])
  obtain k1 where k1: "kfree ?f k = Inr k1" "aspace k1 pgdir (?f # xs)" "kpage k1 = kpage k"
    "\<And>v. pte_of (pmem k1) pgdir v = pte_of (pmem k) pgdir v"
    "pt_pages (pmem k1) pgdir = pt_pages (pmem k) pgdir"
    "\<And>v. table_of (pmem k1) pgdir (PDX v) = table_of (pmem k) pgdir (PDX v)"
    "\<And>v. pde_present (pmem k1) pgdir (PDX v) = pde_present (pmem k) pgdir (PDX v)"
    using kfree_keeps_table [OF U(1) U(2) [OF va] U(3) [OF va] U(4) [OF va]] by blast
  let ?k = "pte_write pte 0 k1"
  have p1: "pde_present (pmem k1) pgdir (PDX va)" "pte = table_of (pmem k1) pgdir (PDX va) + 4 * PTX va"
    using pres pte by (simp_all add: k1(6,7))
  note W = pte_write_aspace [OF k1(2) p1, of 0]
  have pt: "pte_of (pmem ?k) pgdir v = (if vpn v = vpn va then 0 else pte_of (pmem k) pgdir v)" for v
    by (simp add: W(2) k1(4))
  have kp: "kpage ?k = kpage k" using k1(3) by (simp add: kpage_def fun_eq_iff pte_write_def)
  have tk: "kpage k1 (table_of (pmem k1) pgdir (PDX va))" "kpage k1 pgdir"
    "pgdir \<noteq> table_of (pmem k1) pgdir (PDX va)"
    using k1(2) pgdir_ok_pages [of k1 pgdir] p1(1) by (auto simp: aspace_def pgdir_ok_def)
  have pp: "pt_pages (pmem ?k) pgdir = pt_pages (pmem k) pgdir"
    using pt_unchanged(3) [OF W(3) tk] k1(5) by simp
  have mp: "mapped (pmem ?k) pgdir v \<longleftrightarrow> vpn v \<noteq> vpn va \<and> mapped (pmem k) pgdir v" for v
    by (simp add: mapped_def pt)
  have fr: "frame (pmem ?k) pgdir v = frame (pmem k) pgdir v" if "vpn v \<noteq> vpn va" for v
    using that by (simp add: frame_def pt)
  have "uspace ?k pgdir (?f # xs)"
    unfolding uspace_def
  proof (intro conjI allI impI)
    show "aspace ?k pgdir (?f # xs)" by (rule W(1))
    fix v assume v: "unat v < 0x80000000" "mapped (pmem ?k) pgdir v"
    then have n: "vpn v \<noteq> vpn va" and m: "mapped (pmem k) pgdir v" using mp by auto
    show "kpage ?k (frame (pmem ?k) pgdir v)" using U(2) [OF v(1) m] by (simp add: kp fr [OF n])
    show "frame (pmem ?k) pgdir v \<notin> set (?f # xs)"
      using U(3) [OF v(1) m] U(5) [OF v(1) va(1) m va(2)] n by (auto simp: fr [OF n])
    show "frame (pmem ?k) pgdir v \<notin> pt_pages (pmem ?k) pgdir"
      using U(4) [OF v(1) m] by (simp add: pp fr [OF n])
  next
    fix v w assume v: "unat v < 0x80000000" "unat w < 0x80000000" "mapped (pmem ?k) pgdir v" "mapped (pmem ?k) pgdir w"
      "frame (pmem ?k) pgdir v = frame (pmem ?k) pgdir w"
    then show "vpn v = vpn w" using U(5) [OF v(1,2)] by (auto simp: mp fr)
  qed
  then show thesis using that [OF k1(1) _ kp] pt by blast
qed

text \<open>A fresh page mapped at a user address that is not mapped yet.\<close>

lemma map_user_page:
  assumes us: "uspace k pgdir xs" and room: "pde_present (pmem k) pgdir (PDX va) \<or> xs \<noteq> []"
    and va: "unat va < 0x80000000" "unat va mod 4096 = 0" "\<not> mapped (pmem k) pgdir va"
    and f: "kpage k f" "f \<notin> set xs" "f \<notin> pt_pages (pmem k) pgdir"
      "\<forall>v. unat v < 0x80000000 \<longrightarrow> mapped (pmem k) pgdir v \<longrightarrow> frame (pmem k) pgdir v \<noteq> f"
  obtains k' ys where "mappages pgdir va PGSIZE (V2P f) (PTE_U OR PTE_W) k = Inr (0, k')" and "uspace k' pgdir ys"
    and "set ys \<subseteq> set xs" and "length xs \<le> Suc (length ys)" and "kpage k' = kpage k"
    and "\<And>v. pte_of (pmem k') pgdir v = (if vpn v = vpn va then V2P f OR 7 else pte_of (pmem k) pgdir v)"
    and "frame (pmem k') pgdir va = f" and "page_same f (pmem k) (pmem k')"
proof -
  note U = uspaceD [OF us]
  have np: "pte_of (pmem k) pgdir va AND PTE_P = 0" using va(3) by (simp add: mapped_def)
  have rd: "PGROUNDDOWN va = va" "PGROUNDDOWN (va + PGSIZE - 1) = va"
  proof -
    have "unat (va + PGSIZE - 1) = unat va + 4095"
    proof -
      have "va + PGSIZE - 1 = va + 4095" by simp
      then show ?thesis using va(1) by (simp add: unat_plus_if')
    qed
    moreover have "(unat va + 4095) mod 4096 = 4095" using va(2) by (simp add: mod_add_left_eq [symmetric])
    ultimately show "PGROUNDDOWN (va + PGSIZE - 1) = va" "PGROUNDDOWN va = va"
      using va(2) by (simp_all add: word_unat_eq_iff unat_PGROUNDDOWN)
  qed
  obtain k' ys where k':
    "\<And>fuel lastp. mappages_loop (Suc fuel) pgdir va lastp (V2P f) (PTE_U OR PTE_W) k =
       (if va = lastp then Inr (0, k') else mappages_loop fuel pgdir (va + PGSIZE) lastp (V2P f + PGSIZE) (PTE_U OR PTE_W) k')"
    "aspace k' pgdir ys" "length xs \<le> Suc (length ys)" "set ys \<subseteq> set xs" "kpage k' = kpage k"
    "\<And>v. pte_of (pmem k') pgdir v = (if vpn v = vpn va then V2P f OR (PTE_U OR PTE_W) OR PTE_P else pte_of (pmem k) pgdir v)"
    "\<And>q. kpage k q \<Longrightarrow> q \<notin> set xs \<Longrightarrow> q \<notin> pt_pages (pmem k) pgdir \<Longrightarrow> page_same q (pmem k) (pmem k')"
    "pt_pages (pmem k') pgdir \<subseteq> pt_pages (pmem k) pgdir \<union> set xs"
    by (rule mappages_step [OF U(1) room np, where pa = "V2P f" and perm = "PTE_U OR PTE_W"]) (rule that, assumption+)
  have pf: "page_fuel = Suc (2 ^ 20)" by (simp add: page_fuel_def)
  have map: "mappages pgdir va PGSIZE (V2P f) (PTE_U OR PTE_W) k = Inr (0, k')"
    using k'(1) [of "2 ^ 20" va] by (simp only: mappages_def rd pf simp_thms if_True)
  have seven: "V2P f OR (PTE_U OR PTE_W) OR PTE_P = V2P f OR 7" by (simp add: or.assoc)
  have pt: "pte_of (pmem k') pgdir v = (if vpn v = vpn va then V2P f OR 7 else pte_of (pmem k) pgdir v)" for v
    using k'(6) [of v] by (simp only: seven)
  have "PTE_ADDR (V2P f OR 7) = V2P f" using PTE_ADDR_or [OF kpage_bounds(1) [OF f(1)], of 7] by simp
  then have fr: "frame (pmem k') pgdir v = (if vpn v = vpn va then f else frame (pmem k) pgdir v)" for v
    by (simp add: frame_def pt)
  have mp: "mapped (pmem k') pgdir v \<Longrightarrow> vpn v \<noteq> vpn va \<Longrightarrow> mapped (pmem k) pgdir v" for v
    by (simp add: mapped_def pt)
  have fresh: "f \<notin> set ys" "f \<notin> pt_pages (pmem k') pgdir" using f(2,3) k'(4,8) by auto
  have us': "uspace k' pgdir ys"
    unfolding uspace_def
  proof (intro conjI allI impI)
    show "aspace k' pgdir ys" by (rule k'(2))
    fix v assume v: "unat v < 0x80000000" "mapped (pmem k') pgdir v"
    show "kpage k' (frame (pmem k') pgdir v)"
      using U(2) [OF v(1) mp [OF v(2)]] f(1) by (simp add: fr k'(5))
    show "frame (pmem k') pgdir v \<notin> set ys"
      using U(3) [OF v(1) mp [OF v(2)]] k'(4) fresh by (auto simp: fr)
    show "frame (pmem k') pgdir v \<notin> pt_pages (pmem k') pgdir"
      using U(3,4) [OF v(1) mp [OF v(2)]] k'(8) fresh by (auto simp: fr)
  next
    fix v w assume v: "unat v < 0x80000000" "unat w < 0x80000000" "mapped (pmem k') pgdir v" "mapped (pmem k') pgdir w"
      "frame (pmem k') pgdir v = frame (pmem k') pgdir w"
    show "vpn v = vpn w"
    proof (cases "vpn v = vpn va \<or> vpn w = vpn va")
      case True
      then show ?thesis using v f(4) mp by (auto simp: fr split: if_splits)
    next
      case False
      then show ?thesis using U(5) [OF v(1,2)] v(3,4,5) mp by (simp add: fr)
    qed
  qed
  show thesis
    by (rule that [OF map us' k'(4,3,5) pt _ k'(7) [OF f(1,2,3)]]) (simp add: fr)
qed

end
