(* ===== verification/Sample.thy ===== *)
theory Sample
  imports Kernel Vm_User
begin

text \<open>
  A small concrete kernel state, at which the theorems are instantiated: an empty disk of the layout
  that \<^verbatim>\<open>mkfs\<close> makes, an empty buffer and inode cache, a process table whose first entry runs and owns an
  empty page directory, and a memory with three free pages.
\<close>

definition buf_empty :: "nat \<Rightarrow> buf" where
  "buf_empty i = \<lparr>bvalid = False, bdirty = False, bdev = 0, blockno = 0, block = initsleeplock, refcnt = 0,
     prev = (if i = 0 then 30 else i - 1), next = (if i = 30 then 0 else i + 1), data = replicate 512 0\<rparr>"

definition inode_empty :: inode where
  "inode_empty = \<lparr>idev = 0, inum = 0, iref = 0, ilck = initsleeplock, ivalid = False, itype = 0, imajor = 0, iminor = 0,
     inlink = 0, isize = 0, iaddrs = replicate 13 0\<rparr>"

definition console_empty :: console where
  "console_empty = \<lparr>panicked = False, uart = True, serial = [], crt = (\<lambda>_. 0), cursor = 0, kbd_data = [], uart_data = [],
     kbd_shift = 0, ibuf = replicate 128 0, in_r = 0, in_w = 0, in_e = 0, rkilled = False\<rparr>"

definition sb_sample :: superblock where
  "sb_sample = \<lparr>sb_size = 1000, nblocks = 941, ninodes = 200, nlog = 30, logstart = 2, inodestart = 32, bmapstart = 58\<rparr>"

definition fs_sample :: fsys where
  "fs_sample = \<lparr>mypid = 1, disk = (\<lambda>_ _. replicate 512 0), derr = (\<lambda>_ _. False), dwrites = [], havedisk1 = True,
     idequeue = [], bufs = buf_empty, lstart = 2, lsize = 30, outstanding = 0, committing = False, ldev = 1,
     lh_n = 0, lh_block = replicate 30 0, sb = sb_sample, icache = (\<lambda>_. inode_empty),
     dev_read = (\<lambda>_. None), dev_write = (\<lambda>_. None), con = console_empty\<rparr>"

definition file_empty :: kfile where
  "file_empty = \<lparr>ftype = FD_NONE, fref = 0, freadable = False, fwritable = False, fpipe = 0, fip = 0, foff = 0\<rparr>"

definition tf_empty :: trapframe where
  "tf_empty = \<lparr>tf_edi = 0, tf_esi = 0, tf_ebp = 0, tf_ebx = 0, tf_edx = 0, tf_ecx = 0, tf_eax = 0, tf_es = 0, tf_ds = 0,
     tf_trapno = 0, tf_err = 0, tf_eip = 0, tf_cs = 0, tf_eflags = 0, tf_esp = 0, tf_ss = 0\<rparr>"

definition mapping_empty :: mapping where
  "mapping_empty = \<lparr>maddr = 0, mlength = 0, mflags = 0, mfd = 0, num_pages_loaded = 0\<rparr>"

definition proc_unused :: kproc where
  "proc_unused = \<lparr>p_sz = 0, p_pgdir = 0, p_kstack = 0, p_state = UNUSED, p_pid = 0, p_parent = None, p_tf = tf_empty,
     p_chan = None, p_killed = False, p_ofile = replicate 16 None, p_cwd = None, p_name = [],
     mappings = replicate 16 mapping_empty, num_mappings = 0\<rparr>"

definition proc_sample :: kproc where
  "proc_sample = proc_unused\<lparr>p_sz := 0, p_pgdir := 0x80201000, p_kstack := 0x80203000, p_state := RUNNING, p_pid := 1,
     p_cwd := Some 0\<rparr>"

definition mem_sample :: kmem where
  "mem_sample = \<lparr>pmem = store32 (store32 (\<lambda>_. 0) 0x200000 0x80202000) 0x202000 0x80204000, freelist = 0x80200000,
     use_lock = True, kend = 0x80115000, kdata = 0x80108000\<rparr>"

definition kernel_sample :: kernel where
  "kernel_sample = \<lparr>km = mem_sample, fs = fs_sample, ftable = (\<lambda>_. file_empty), pipes = (\<lambda>_. pipe_init (replicate 512 0)),
     woken = [], procs = (\<lambda>i. if i = 0 then proc_sample else proc_unused), nextpid = 2, initproc = Some 0, cur = 0,
     cr3 = 0x201000, ticks = 0, first = False, trapret = 0x80105000, forkret_addr = 0x80103000, oob_mapping = mapping_empty\<rparr>"

lemma mem_sample_free: "free_pages mem_sample [0x80200000, 0x80202000, 0x80204000]"
  by (simp add: free_pages_def mem_sample_def kpage_def V2P_def load32_def store32_def)

lemma mem_sample_pde: "pde_present (pmem mem_sample) 0x80201000 i = False"
proof (cases "i < 1024")
  case True
  note e = unat_entry(2,3) [OF True]
  have st: "load32 (store32 m q v) (0x201000 + 4 * i) = load32 m (0x201000 + 4 * i)"
    if "unat q mod 4096 = 0" "q \<noteq> 0x201000" for m q v
    using load32_agree_off [OF store32_agree_off [of 0 q m v, simplified] _ that(1) _ e] that(2) by simp
  have "load32 (pmem mem_sample) (V2P 0x80201000 + 4 * i) = 0"
    by (simp add: mem_sample_def V2P_def st) (simp add: load32_def)
  then show ?thesis by (simp add: pde_present_def pde_of_def)
qed (simp add: pde_present_def)

lemma mem_sample_unmapped: "pte_of (pmem mem_sample) 0x80201000 va = 0"
  by (simp add: pte_of_table mem_sample_pde)

lemma mem_sample_uspace: "uspace mem_sample 0x80201000 [0x80200000, 0x80202000, 0x80204000]"
proof -
  have pt: "pt_pages (pmem mem_sample) 0x80201000 = {0x80201000}" by (simp add: pt_pages_def mem_sample_pde)
  have "kpage mem_sample 0x80201000" by (simp add: kpage_def mem_sample_def V2P_def)
  then have "pgdir_ok mem_sample 0x80201000" by (simp add: pgdir_ok_def pt mem_sample_pde)
  then have "aspace mem_sample 0x80201000 [0x80200000, 0x80202000, 0x80204000]"
    using mem_sample_free by (simp add: aspace_def pt)
  then show ?thesis by (simp add: uspace_def mapped_def mem_sample_unmapped)
qed

lemma kernel_sample_simps [simp]:
  "myproc kernel_sample = proc_sample" "km kernel_sample = mem_sample" "cur kernel_sample = 0" "fs kernel_sample = fs_sample"
  by (simp_all add: kernel_sample_def myproc_def)

end
