(* ===== verification/Wmap_Spec.thy ===== *)
theory Wmap_Spec
  imports Wmap Sample "HOL-Library.Multiset"
begin

text \<open>
  Correctness of the mapping table (\<^verbatim>\<open>wmap.c\<close>): the sort, the choice of an address, and the invariant
  of the table that \<^verbatim>\<open>wmap\<close> and \<^verbatim>\<open>wunmap\<close> keep.
\<close>

subsection \<open>Selection sort\<close>

lemma sel_min_range: "sel_min k j i arr = i \<or> (j \<le> sel_min k j i arr \<and> sel_min k j i arr < j + k)"
proof (induction k arbitrary: j i)
  case (Suc k)
  define i1 where "i1 = (if maddr (arr ! j) < maddr (arr ! i) then j else i)"
  have "i1 = i \<or> i1 = j" and "sel_min (Suc k) j i arr = sel_min k (j + 1) i1 arr"
    by (simp_all add: i1_def)
  then show ?case
    using Suc [of "j + 1" i1] by (elim disjE) simp_all
qed simp

lemma sel_min_le:
  "maddr (arr ! sel_min k j i arr) \<le> maddr (arr ! i) \<and>
   (\<forall>x. j \<le> x \<longrightarrow> x < j + k \<longrightarrow> maddr (arr ! sel_min k j i arr) \<le> maddr (arr ! x))"
proof (induction k arbitrary: j i)
  case 0
  then show ?case by simp
next
  case (Suc k)
  let ?i = "if maddr (arr ! j) < maddr (arr ! i) then j else i"
  have s: "sel_min (Suc k) j i arr = sel_min k (j + 1) ?i arr"
    by simp
  have m: "maddr (arr ! ?i) \<le> maddr (arr ! i)" "maddr (arr ! ?i) \<le> maddr (arr ! j)"
    by auto
  show ?case
  proof (intro conjI allI impI)
    show "maddr (arr ! sel_min (Suc k) j i arr) \<le> maddr (arr ! i)"
      unfolding s using Suc [of "j + 1" ?i] m by (meson order_trans)
    fix x assume "j \<le> x" "x < j + Suc k"
    then consider "x = j" | "j + 1 \<le> x" "x < j + 1 + k" by linarith
    then show "maddr (arr ! sel_min (Suc k) j i arr) \<le> maddr (arr ! x)"
      unfolding s using Suc [of "j + 1" ?i] m by cases (meson order_trans, blast)
  qed
qed

text \<open>Exchanging two elements of a prefix permutes the prefix and keeps the rest.\<close>

lemma swap_prefix:
  assumes "i < n" "m < n" "n \<le> length xs"
  shows "mset (take n (xs[i := xs ! m, m := xs ! i])) = mset (take n xs)"
    and "drop n (xs[i := xs ! m, m := xs ! i]) = drop n xs"
  using assms mset_swap [of m "take n xs" i] by (simp_all add: take_update_swap min_def)

text \<open>After the first \<open>i\<close> rounds the first \<open>i\<close> elements are sorted and below the others.\<close>

definition sel_inv :: "nat \<Rightarrow> nat \<Rightarrow> mapping list \<Rightarrow> bool" where
  "sel_inv i n xs \<longleftrightarrow> (\<forall>a b. a < i \<longrightarrow> a < b \<longrightarrow> b < n \<longrightarrow> maddr (xs ! a) \<le> maddr (xs ! b))"

lemma sel_inv_step:
  assumes "sel_inv i n xs" and "i < n" and "n \<le> length xs" and m: "m = sel_min (n - (i + 1)) (i + 1) i xs"
  shows "sel_inv (i + 1) n (xs[i := xs ! m, m := xs ! i])" and "i \<le> m" and "m < n"
proof -
  show mi: "i \<le> m" "m < n"
    using sel_min_range [of "n - (i + 1)" "i + 1" i xs] assms(2) m by auto
  have le: "maddr (xs ! m) \<le> maddr (xs ! b)" if "i \<le> b" "b < n" for b
    using sel_min_le [of xs "n - (i + 1)" "i + 1" i] that assms(2) unfolding m
    by (cases "b = i") (auto simp: Suc_le_eq)
  show "sel_inv (i + 1) n (xs[i := xs ! m, m := xs ! i])"
    unfolding sel_inv_def
  proof (intro allI impI)
    fix a b assume ab: "a < i + 1" "a < b" "b < n"
    then consider "a < i" | "a = i" by linarith
    then show "maddr (xs[i := xs ! m, m := xs ! i] ! a) \<le> maddr (xs[i := xs ! m, m := xs ! i] ! b)"
    proof cases
      case 1
      then show ?thesis
        using assms(1,3) ab mi unfolding sel_inv_def by (auto simp: nth_list_update)
    next
      case 2
      then show ?thesis
        using le mi ab assms(3) by (auto simp: nth_list_update)
    qed
  qed
qed

lemma sel_loop_sorts:
  assumes "sel_inv i n xs" and "i + k + 1 = n \<or> n \<le> i + 1 \<and> k = 0" and "n \<le> length xs"
  shows "mset (take n (sel_loop k i n xs)) = mset (take n xs) \<and> drop n (sel_loop k i n xs) = drop n xs \<and>
         length (sel_loop k i n xs) = length xs \<and> sel_inv n n (sel_loop k i n xs)"
  using assms
proof (induction k arbitrary: i xs)
  case 0
  then show ?case by (auto simp: sel_inv_def)
next
  case (Suc k)
  define m where "m = sel_min (n - (i + 1)) (i + 1) i xs"
  define ys where "ys = xs[i := xs ! m, m := xs ! i]"
  have i: "i < n" using Suc.prems by simp
  note st = sel_inv_step [OF Suc.prems(1) i Suc.prems(3) m_def]
  have ih: "mset (take n (sel_loop k (i + 1) n ys)) = mset (take n ys) \<and> drop n (sel_loop k (i + 1) n ys) = drop n ys \<and>
         length (sel_loop k (i + 1) n ys) = length ys \<and> sel_inv n n (sel_loop k (i + 1) n ys)"
    using Suc.IH [of "i + 1" ys] st(1) Suc.prems(2,3) by (simp add: ys_def)
  have "sel_loop (Suc k) i n xs = sel_loop k (i + 1) n ys"
    by (simp add: ys_def m_def Let_def)
  then show ?case
    using ih swap_prefix [OF i st(3) Suc.prems(3)] by (simp add: ys_def)
qed

lemma selectionSort_sorts:
  assumes "n \<le> length xs"
  shows "mset (take n (selectionSort xs n)) = mset (take n xs)"
    and "drop n (selectionSort xs n) = drop n xs"
    and "length (selectionSort xs n) = length xs"
    and "sorted (map maddr (take n (selectionSort xs n)))"
proof -
  have "sel_inv 0 n xs" by (simp add: sel_inv_def)
  moreover have "0 + (n - 1) + 1 = n \<or> n \<le> 0 + 1 \<and> n - 1 = 0" by linarith
  ultimately
  have s: "mset (take n (selectionSort xs n)) = mset (take n xs) \<and> drop n (selectionSort xs n) = drop n xs \<and>
         length (selectionSort xs n) = length xs \<and> sel_inv n n (selectionSort xs n)"
    unfolding selectionSort_def using assms by (rule sel_loop_sorts)
  then show "mset (take n (selectionSort xs n)) = mset (take n xs)" "drop n (selectionSort xs n) = drop n xs"
    "length (selectionSort xs n) = length xs" by auto
  show "sorted (map maddr (take n (selectionSort xs n)))"
    using s assms unfolding sel_inv_def sorted_iff_nth_mono_less by auto
qed

subsection \<open>The table\<close>

text \<open>
  A mapping in use starts on a page of the mapping area, is not empty and ends in the area. The table is
  sorted, and one mapping ends before the next begins.
\<close>

definition map_start :: "mapping \<Rightarrow> nat" where
  "map_start m = unat (maddr m)"

definition map_stop :: "mapping \<Rightarrow> nat" where
  "map_stop m = unat (maddr m) + unat (mlength m)"

definition map_ok :: "mapping \<Rightarrow> bool" where
  "map_ok m \<longleftrightarrow> 0x60000000 \<le> map_start m \<and> map_start m mod 4096 = 0 \<and> map_start m < map_stop m \<and> map_stop m \<le> 0x80000000"

definition before :: "mapping \<Rightarrow> mapping \<Rightarrow> bool" where
  "before a b \<longleftrightarrow> map_stop a \<le> map_start b"

definition maps_ok :: "kproc \<Rightarrow> bool" where
  "maps_ok p \<longleftrightarrow> length (mappings p) = MAX_WMMAP_INFO \<and> num_mappings p \<le> MAX_WMMAP_INFO \<and>
     (\<forall>m \<in> set (in_use p). map_ok m) \<and> sorted_wrt before (in_use p)"

definition apart :: "mapping \<Rightarrow> mapping \<Rightarrow> bool" where
  "apart a b \<longleftrightarrow> before a b \<or> before b a"

lemma apart_sym: "apart a b \<Longrightarrow> apart b a"
  by (auto simp: apart_def)

lemma sorted_wrt_perm:
  assumes s: "\<And>a b. R a b \<Longrightarrow> R b a" and m: "mset xs = mset ys" and x: "sorted_wrt R xs"
  shows "sorted_wrt R ys"
  using m x
proof (induction xs arbitrary: ys)
  case (Cons a xs)
  then have "a \<in> set ys" by (metis list.set_intros(1) set_mset_mset)
  then obtain us vs where ys: "ys = us @ a # vs" by (auto dest: split_list)
  have m: "mset xs = mset (us @ vs)" using Cons.prems(1) ys by simp
  then have "set xs = set us \<union> set vs" by (metis set_append set_mset_mset)
  then have a: "\<forall>b \<in> set us \<union> set vs. R a b" using Cons.prems(2) by simp
  have "sorted_wrt R (us @ vs)" using Cons.IH [OF m] Cons.prems(2) by simp
  then show ?case using a unfolding ys sorted_wrt_append by (simp add: s)
qed simp

text \<open>A table that is sorted by address and whose mappings lie apart is ordered.\<close>

lemma sorted_before:
  assumes "sorted (map maddr ms)" "sorted_wrt apart ms" "\<forall>m \<in> set ms. map_ok m"
  shows "sorted_wrt before ms"
  using assms
proof (induction ms)
  case (Cons a ms)
  have "before a b" if "b \<in> set ms" for b
  proof -
    have "map_start a \<le> map_start b" "apart a b" "map_ok a" "map_ok b"
      using Cons.prems that by (auto simp: map_start_def word_le_nat_alt)
    then show ?thesis by (auto simp: apart_def before_def map_ok_def)
  qed
  then show ?case using Cons by simp
qed simp

lemma word_end: "unat (addr :: uint) + unat (len :: uint) < 2 ^ 32 \<Longrightarrow> unat (addr + len) = unat addr + unat len"
  by (simp add: unat_plus_if')

lemma word_last:
  assumes "unat (addr :: uint) + unat (len :: uint) \<le> 2 ^ 32 - 1" "0 < unat len"
  shows "unat (addr + len - 1) = unat addr + unat len - 1"
proof -
  have e: "unat (addr + len) = unat addr + unat len"
    by (rule word_end) (use assms in simp)
  then have "1 \<le> addr + len"
    using assms by (simp add: word_le_nat_alt)
  then show ?thesis
    using e by (simp add: unat_sub)
qed

lemma unat_mapping_end: "map_ok m \<Longrightarrow> unat (mapping_end m) = map_stop m"
  unfolding mapping_end_def map_stop_def
  by (rule word_end) (simp add: map_ok_def map_stop_def)

text \<open>The four comparisons of the source miss no overlap.\<close>

lemma no_overlap_apart:
  assumes "map_ok m" and "\<not> overlaps addr len m" and "0 < unat len" and "unat addr + unat len \<le> 2 ^ 32 - 1"
  shows "unat addr + unat len \<le> map_start m \<or> map_stop m \<le> unat addr"
  using assms(2)
  unfolding overlaps_def word_le_nat_alt word_less_nat_alt unat_mapping_end [OF assms(1)] word_last [OF assms(4,3)]
    map_start_def [symmetric]
  using assms(1,3) unfolding map_ok_def by linarith

lemma round_up_end:
  assumes "map_ok m"
  shows "map_stop m \<le> unat (PGROUNDUP (mapping_end m))" and "unat (PGROUNDUP (mapping_end m)) \<le> 0x80000000"
    and "unat (PGROUNDUP (mapping_end m)) mod 4096 = 0"
proof -
  have s: "map_stop m \<le> 0x80000000" using assms by (simp add: map_ok_def)
  then have u: "unat (PGROUNDUP (mapping_end m)) = (map_stop m + 4095) div 4096 * 4096"
    using unat_PGROUNDUP [of "mapping_end m"] by (simp add: unat_mapping_end [OF assms])
  show "map_stop m \<le> unat (PGROUNDUP (mapping_end m))" unfolding u by linarith
  have "(map_stop m + 4095) div 4096 \<le> (0x80000000 + 4095) div 4096"
    using s by (intro div_le_mono) simp
  then show "unat (PGROUNDUP (mapping_end m)) \<le> 0x80000000" unfolding u by simp
  show "unat (PGROUNDUP (mapping_end m)) mod 4096 = 0" unfolding u by simp
qed

subsection \<open>Choosing an address\<close>

lemma place_origin: "place ms len a = a \<or> (\<exists>m \<in> set ms. place ms len a = PGROUNDUP (mapping_end m))"
proof (induction ms arbitrary: a)
  case (Cons m ms)
  then show ?case
    using Cons [of "if overlaps a len m then PGROUNDUP (mapping_end m) else a"] by (auto split: if_splits)
qed simp

text \<open>What a single pass over the ordered table guarantees of the address it ends with.\<close>

definition free_for :: "nat \<Rightarrow> nat \<Rightarrow> mapping \<Rightarrow> bool" where
  "free_for a n m \<longleftrightarrow> a + n \<le> map_start m \<or> map_stop m \<le> a"

lemma place_finds:
  assumes "sorted_wrt before ms" "\<forall>m \<in> set ms. map_ok m" "unat a mod 4096 = 0" "unat a \<le> 0x80000000"
    and len: "0 < unat len" "unat len < 0x80000000"
  shows "unat a \<le> unat (place ms len a) \<and> unat (place ms len a) \<le> 0x80000000 \<and> unat (place ms len a) mod 4096 = 0 \<and>
         (\<forall>m \<in> set ms. free_for (unat (place ms len a)) (unat len) m)"
  using assms(1-4)
proof (induction ms arbitrary: a)
  case (Cons m ms)
  define a1 where "a1 = (if overlaps a len m then PGROUNDUP (mapping_end m) else a)"
  define r where "r = place ms len a1"
  have m: "map_ok m" using Cons.prems by simp
  have fr: "free_for (unat a) (unat len) m" if "\<not> overlaps a len m"
    unfolding free_for_def using no_overlap_apart [OF m that len(1)] Cons.prems(4) len by simp
  have grow: "unat a \<le> unat (PGROUNDUP (mapping_end m))" if "overlaps a len m"
  proof -
    have "map_start m < unat a + unat len"
      using that len Cons.prems(4) m word_last [of a len]
      unfolding overlaps_def word_le_nat_alt word_less_nat_alt unat_mapping_end [OF m] map_ok_def
      by (auto simp: map_start_def)
    moreover have "unat a \<le> map_stop m"
      using that len Cons.prems(4) m word_last [of a len]
      unfolding overlaps_def word_le_nat_alt word_less_nat_alt unat_mapping_end [OF m] map_ok_def
      by (auto simp: map_start_def)
    ultimately show ?thesis using round_up_end(1) [OF m] by linarith
  qed
  have a1: "unat a1 mod 4096 = 0" "unat a1 \<le> 0x80000000" "unat a \<le> unat a1"
    using round_up_end [OF m] grow Cons.prems by (auto simp: a1_def)
  have ih: "unat a1 \<le> unat r" "unat r \<le> 0x80000000" "unat r mod 4096 = 0" "\<forall>m \<in> set ms. free_for (unat r) (unat len) m"
    using Cons.IH [OF _ _ a1(1,2)] Cons.prems(1,2) by (auto simp: r_def)
  have "free_for (unat r) (unat len) m"
  proof (cases "r = a \<and> \<not> overlaps a len m")
    case True
    then show ?thesis using fr by simp
  next
    case False
    have "map_stop m \<le> unat r"
    proof (cases "overlaps a len m")
      case True
      then show ?thesis using ih(1) round_up_end(1) [OF m] by (simp add: a1_def)
    next
      case not: False
      then obtain m' where "m' \<in> set ms" "r = PGROUNDUP (mapping_end m')"
        using False place_origin [of ms len a1] by (auto simp: r_def a1_def)
      moreover from this have "map_stop m \<le> map_start m'" "map_ok m'"
        using Cons.prems(1,2) by (auto simp: before_def)
      ultimately show ?thesis
        using round_up_end(1) [of m'] by (auto simp: map_ok_def)
    qed
    then show ?thesis by (simp add: free_for_def)
  qed
  moreover have "place (m # ms) len a = r" by (simp add: r_def a1_def)
  ultimately show ?case using ih a1 by simp
qed simp

subsection \<open>Adding a mapping\<close>

lemma in_use_add:
  assumes "maps_ok p" and "num_mappings p < MAX_WMMAP_INFO"
  shows "mset (in_use (add_mapping m p)) = add_mset m (mset (in_use p))"
    and "sorted (map maddr (in_use (add_mapping m p)))"
    and "length (mappings (add_mapping m p)) = MAX_WMMAP_INFO"
    and "num_mappings (add_mapping m p) = num_mappings p + 1"
proof -
  let ?n = "num_mappings p"
  let ?xs = "(mappings p)[?n := m]"
  have l: "?n + 1 \<le> length ?xs" using assms by (simp add: maps_ok_def)
  note s = selectionSort_sorts [OF l]
  have "take (?n + 1) ?xs = in_use p @ [m]"
    using l upd_conv_take_nth_drop [of ?n "mappings p" m] by (simp add: in_use_def)
  then show "mset (in_use (add_mapping m p)) = add_mset m (mset (in_use p))"
    using s(1) by (simp add: in_use_def add_mapping_def Let_def)
  show "sorted (map maddr (in_use (add_mapping m p)))"
    using s(4) by (simp add: in_use_def add_mapping_def Let_def)
  show "length (mappings (add_mapping m p)) = MAX_WMMAP_INFO" "num_mappings (add_mapping m p) = ?n + 1"
    using s(3) assms(1) by (simp_all add: maps_ok_def add_mapping_def Let_def)
qed

lemma add_mapping_ok:
  assumes "maps_ok p" "num_mappings p < MAX_WMMAP_INFO" "map_ok m" "\<forall>q \<in> set (in_use p). apart m q"
  shows "maps_ok (add_mapping m p)"
proof -
  note a = in_use_add [OF assms(1,2), of m]
  have "set (in_use (add_mapping m p)) = insert m (set (in_use p))"
    using arg_cong [OF a(1), of set_mset] by simp
  moreover have "\<forall>q \<in> set (in_use p). map_ok q" and s: "sorted_wrt before (in_use p)"
    using assms(1) by (simp_all add: maps_ok_def)
  ultimately have ok: "\<forall>q \<in> set (in_use (add_mapping m p)). map_ok q"
    using assms(3) by simp
  have "sorted_wrt apart (in_use p)"
    using s by (rule sorted_wrt_mono_rel [rotated]) (simp add: apart_def)
  then have ap: "sorted_wrt apart (m # in_use p)" using assms(4) by simp
  have "mset (m # in_use p) = mset (in_use (add_mapping m p))" using a(1) by simp
  from sorted_wrt_perm [OF apart_sym this ap] have "sorted_wrt apart (in_use (add_mapping m p))" .
  then have "sorted_wrt before (in_use (add_mapping m p))"
    by (rule sorted_before [OF a(2) _ ok])
  then show ?thesis
    using a(3,4) ok assms(2) by (simp add: maps_ok_def)
qed

text \<open>Every request that \<^verbatim>\<open>wmap\<close> grants, as one mapping added to the table.\<close>

definition granted :: "uint \<Rightarrow> cint \<Rightarrow> cint \<Rightarrow> cint \<Rightarrow> mapping" where
  "granted a len flags fd = \<lparr>maddr = a, mlength = len, mflags = flags, mfd = fd, num_pages_loaded = 0\<rparr>"

lemma wmap_cases:
  obtains "wmap addr len flags fd p = (WFAILED, p)"
  | a where "wmap addr len flags fd p = (a, add_mapping (granted a len flags fd) p)"
      "num_mappings p < MAX_WMMAP_INFO" "0 < unat len" "unat len < 0x80000000"
      "flags AND MAP_FIXED \<noteq> 0" "a = addr" "0x60000000 \<le> unat a" "unat a < 0x80000000" "unat a mod 4096 = 0"
      "\<forall>m \<in> set (in_use p). \<not> overlaps a len m"
  | a where "wmap addr len flags fd p = (a, add_mapping (granted a len flags fd) p)"
      "num_mappings p < MAX_WMMAP_INFO" "0 < unat len" "unat len < 0x80000000"
      "flags AND MAP_FIXED = 0" "a = place (in_use p) len WMAP_BASE" "unat (a + len - 1) < 0x80000000"
proof -
  let ?bad = "num_mappings p \<ge> MAX_WMMAP_INFO \<or> len \<le>s 0 \<or> (flags AND MAP_PRIVATE \<noteq> 0 \<and> flags AND MAP_SHARED \<noteq> 0)"
  show thesis
  proof (cases ?bad)
    case True
    then show ?thesis by (intro that(1)) (simp add: wmap_def)
  next
    case ok: False
    then have len: "num_mappings p < MAX_WMMAP_INFO" "0 < unat len" "unat len < 0x80000000"
      using signed_pos [of len] by auto
    show ?thesis
    proof (cases "flags AND MAP_FIXED \<noteq> 0")
      case f: True
      let ?out = "addr < 0x60000000 \<or> addr \<ge> 0x80000000 \<or> addr mod PGSIZE \<noteq> 0 \<or> list_ex (overlaps addr len) (in_use p)"
      show ?thesis
      proof (cases ?out)
        case True
        then show ?thesis using ok f by (intro that(1)) (auto simp: wmap_def)
      next
        case False
        then have "0x60000000 \<le> unat addr" "unat addr < 0x80000000"
          by (auto simp: word_less_nat_alt not_le not_less)
        moreover have "unat (addr mod PGSIZE) = unat addr mod 4096"
          by (simp add: unat_mod)
        moreover have "addr mod PGSIZE = 0" using False by blast
        ultimately show ?thesis
          using False ok f len by (intro that(2) [of addr]) (auto simp: wmap_def granted_def list_ex_iff)
      qed
    next
      case f: False
      let ?a = "place (in_use p) len WMAP_BASE"
      show ?thesis
      proof (cases "?a + len - 1 \<ge> KERNBASE")
        case True
        then show ?thesis using ok f by (intro that(1)) (auto simp: wmap_def Let_def)
      next
        case False
        then have "unat (?a + len - 1) < 0x80000000"
          by (simp add: word_less_nat_alt not_le)
        then show ?thesis
          using False ok f len by (intro that(3) [of ?a]) (auto simp: wmap_def granted_def Let_def)
      qed
    qed
  qed
qed

lemma granted_apart:
  assumes "free_for (unat a) (unat len) m"
  shows "apart (granted a len flags fd) m"
  using assms by (auto simp: free_for_def apart_def before_def granted_def map_start_def map_stop_def)


lemma proc_sample_maps [simp]: "in_use proc_sample = []" "maps_ok proc_sample" "num_mappings proc_sample = 0"
  by (simp_all add: in_use_def proc_sample_def proc_unused_def maps_ok_def)

lemma in_use_first [simp]: "in_use (add_mapping m proc_sample) = [m]" "num_mappings (add_mapping m proc_sample) = 1"
  using in_use_add [OF proc_sample_maps(2), of m] by simp_all

text \<open>13 is \<^verbatim>\<open>MAP_FIXED | MAP_ANONYMOUS | MAP_PRIVATE\<close>.\<close>

definition proc_mapped :: kproc where
  "proc_mapped = add_mapping (granted 0x60000000 8192 13 (-1)) proc_sample"

lemma wmap_sample: "wmap 0x60000000 8192 13 (-1) proc_sample = (0x60000000, proc_mapped)"
  by (simp add: wmap_def granted_def proc_mapped_def word_sle_eq)



text \<open>
  C15: a fixed request for the page right behind a mapping is refused although the two do not overlap:
  the last of the four comparisons takes the end of the old mapping for a part of it.
\<close>

theorem wmap_adjacent_refused:
  assumes "flags AND MAP_FIXED \<noteq> 0" and "m \<in> set (in_use p)" and "mapping_end m = addr" and "len \<noteq> 1"
  shows "wmap addr len flags fd p = (WFAILED, p)"
proof (rule wmap_cases [of addr len flags fd p])
  fix a assume a: "wmap addr len flags fd p = (a, add_mapping (granted a len flags fd) p)" "0 < unat len" "unat len < 0x80000000"
    "a = addr" "unat a < 0x80000000" "\<forall>m \<in> set (in_use p). \<not> overlaps a len m"
  have "unat len \<noteq> 1" using assms(4) by (metis unat_1 word_unat_eq_iff)
  then have "addr < addr + len - 1"
    using a(2-5) word_last [of addr len] by (simp add: word_less_nat_alt)
  then have "overlaps addr len m" using assms(3) by (simp add: overlaps_def)
  then show ?thesis using a(4,6) assms(2) by blast
qed (use assms(1) in simp_all)

theorem wmap_adjacent_refused_witness: "wmap 0x60002000 4096 13 (-1) proc_mapped = (WFAILED, proc_mapped)"
  by (rule wmap_adjacent_refused [of _ "granted 0x60000000 8192 13 (-1)"])
    (simp_all add: proc_mapped_def granted_def mapping_end_def)

text \<open>
  C13: \<^verbatim>\<open>selectionSort(arr, n)\<close> sorts the first \<open>n\<close> entries of the array by address, as a permutation of
  them, and does not touch the rest.
\<close>

theorem selectionSort_correct:
  assumes "n \<le> length xs"
  shows "sorted (map maddr (take n (selectionSort xs n))) \<and> mset (take n (selectionSort xs n)) = mset (take n xs) \<and>
    drop n (selectionSort xs n) = drop n xs"
  using selectionSort_sorts [OF assms] by simp

theorem selectionSort_correct_witness:
  "sorted (map maddr (selectionSort [granted 0x60002000 1 8 0, granted 0x60000000 1 8 0] 2))"
  using selectionSort_correct [of 2 "[granted 0x60002000 1 8 0, granted 0x60000000 1 8 0]"]
    selectionSort_sorts(3) [of 2 "[granted 0x60002000 1 8 0, granted 0x60000000 1 8 0]"] by simp

subsection \<open>Unmapping\<close>

text \<open>The pages of \<open>n\<close> pages from \<open>a\<close> on that are mapped, as the allocator gets them back.\<close>

definition loaded_frames :: "mem \<Rightarrow> uint \<Rightarrow> uint \<Rightarrow> nat \<Rightarrow> uint list" where
  "loaded_frames m pgdir a n = map (frame m pgdir) (filter (mapped m pgdir) (range_pages a n))"

lemma loaded_frames_Suc:
  "loaded_frames m pgdir a (Suc n) =
     (if mapped m pgdir a then frame m pgdir a # loaded_frames m pgdir (a + PGSIZE) n
      else loaded_frames m pgdir (a + PGSIZE) n)"
  by (simp add: loaded_frames_def range_pages_Suc)

lemma loaded_frames_cong:
  assumes "\<forall>v \<in> set (range_pages a n). pte_of m' pgdir v = pte_of m pgdir v"
  shows "loaded_frames m' pgdir a n = loaded_frames m pgdir a n"
proof -
  have "filter (mapped m' pgdir) (range_pages a n) = filter (mapped m pgdir) (range_pages a n)"
    using assms by (intro filter_cong) (simp_all add: mapped_def)
  then show ?thesis
    using assms unfolding loaded_frames_def by (intro map_cong) (simp_all add: frame_def)
qed

lemma range_vpn:
  assumes "v \<in> set (range_pages a n)" "unat a + n * 4096 \<le> 0x80000000" "unat a mod 4096 = 0"
  shows "vpn a \<le> vpn v" "vpn v < vpn a + n" "unat v < 0x80000000"
proof -
  from in_range_pages [OF assms(1)] assms(2) obtain i where i: "i < n" "unat v = unat a + i * 4096" by auto
  then show "vpn a \<le> vpn v" "vpn v < vpn a + n"
    by (simp_all add: vpn_def div_add1_eq [of "unat a"])
  from i(1) have "Suc i * 4096 \<le> n * 4096" by (intro mult_le_mono1) simp
  then have "i * 4096 + 4096 \<le> n * 4096" by simp
  then show "unat v < 0x80000000" using i(2) assms(2) by linarith
qed

lemma unmap_pages_frees:
  assumes "uspace k pgdir xs" "unat a mod 4096 = 0" "unat a + n * 4096 \<le> 0x80000000"
    and "unat a + n * 4096 < unat stop + 4096" "unat stop \<le> unat a + n * 4096" "n < fuel"
  shows "\<exists>k'. unmap_pages fuel pgdir a stop k = Inr k' \<and> kpage k' = kpage k \<and>
    uspace k' pgdir (rev (loaded_frames (pmem k) pgdir a n) @ xs) \<and>
    (\<forall>v. pte_of (pmem k') pgdir v =
       (if vpn a \<le> vpn v \<and> vpn v < vpn a + n \<and> mapped (pmem k) pgdir v then 0 else pte_of (pmem k) pgdir v))"
  using assms
proof (induction n arbitrary: a k xs fuel)
  case 0
  then obtain f where "fuel = Suc f" by (cases fuel) auto
  moreover have "\<not> a < stop" using 0 by (simp add: word_less_nat_alt)
  ultimately show ?case using 0 by (auto simp: loaded_frames_def range_pages_def)
next
  case (Suc n)
  then obtain f where f: "fuel = Suc f" by (cases fuel) auto
  have lt: "a < stop" using Suc.prems by (simp add: word_less_nat_alt)
  have a1: "unat (a + PGSIZE) = unat a + 4096"
    using Suc.prems(3) by (simp add: unat_plus_if')
  have va1: "vpn (a + PGSIZE) = vpn a + 1" by (simp add: vpn_def a1)
  have bound: "unat a < 0x80000000" using Suc.prems(3) by simp
  have next_prems: "unat (a + PGSIZE) mod 4096 = 0" "unat (a + PGSIZE) + n * 4096 \<le> 0x80000000"
    "unat (a + PGSIZE) + n * 4096 < unat stop + 4096" "unat stop \<le> unat (a + PGSIZE) + n * 4096" "n < f"
    using Suc.prems f by (simp_all add: a1)
  have rest: "vpn v \<noteq> vpn a" if "v \<in> set (range_pages (a + PGSIZE) n)" for v
    using range_vpn(1) [OF that next_prems(2,1)] va1 by simp
  show ?case
  proof (cases "mapped (pmem k) pgdir a")
    case True
    let ?pte = "table_of (pmem k) pgdir (PDX a) + 4 * PTX a"
    have pres: "pde_present (pmem k) pgdir (PDX a)" by (rule mapped_present [OF True])
    have "kpage k (table_of (pmem k) pgdir (PDX a))"
      using pgdir_ok_pages(2) [OF _ pres] uspaceD(1) [OF Suc.prems(1)] by (simp add: aspace_def)
    then have nz: "?pte \<noteq> 0" by (rule entry_ptr_nonnull) simp
    obtain k1 where k1: "kfree (frame (pmem k) pgdir a) k = Inr k1"
      "uspace (pte_write ?pte 0 k1) pgdir (frame (pmem k) pgdir a # xs)" "kpage (pte_write ?pte 0 k1) = kpage k"
      "\<And>v. pte_of (pmem (pte_write ?pte 0 k1)) pgdir v = (if vpn v = vpn a then 0 else pte_of (pmem k) pgdir v)"
      using unmap_step [OF Suc.prems(1) bound True refl] by blast
    let ?k = "pte_write ?pte 0 k1"
    have step: "unmap_pages fuel pgdir a stop k = unmap_pages f pgdir (a + PGSIZE) stop ?k"
      using lt nz True k1(1)
      by (simp add: f walkpgdir_hit [OF pres] pte_read_table [OF pres] mapped_def frame_def)
    have fr: "loaded_frames (pmem ?k) pgdir (a + PGSIZE) n = loaded_frames (pmem k) pgdir (a + PGSIZE) n"
      using rest by (intro loaded_frames_cong) (simp add: k1(4))
    obtain k' where k': "unmap_pages f pgdir (a + PGSIZE) stop ?k = Inr k'" "kpage k' = kpage ?k"
      "uspace k' pgdir (rev (loaded_frames (pmem ?k) pgdir (a + PGSIZE) n) @ frame (pmem k) pgdir a # xs)"
      "\<forall>v. pte_of (pmem k') pgdir v =
         (if vpn (a + PGSIZE) \<le> vpn v \<and> vpn v < vpn (a + PGSIZE) + n \<and> mapped (pmem ?k) pgdir v then 0
          else pte_of (pmem ?k) pgdir v)"
      using Suc.IH [OF k1(2) next_prems] by blast
    have "pte_of (pmem k') pgdir v =
       (if vpn a \<le> vpn v \<and> vpn v < vpn a + Suc n \<and> mapped (pmem k) pgdir v then 0 else pte_of (pmem k) pgdir v)" for v
      using k'(4) True mapped_same_page [of v a "pmem k" pgdir] by (auto simp: va1 k1(4) mapped_def)
    moreover have "uspace k' pgdir (rev (loaded_frames (pmem k) pgdir a (Suc n)) @ xs)"
      using k'(3) True by (simp add: loaded_frames_Suc fr)
    ultimately show ?thesis using k'(1,2) k1(3) step by simp
  next
    case False
    have step: "unmap_pages fuel pgdir a stop k = unmap_pages f pgdir (a + PGSIZE) stop k"
    proof (cases "pde_present (pmem k) pgdir (PDX a)")
      case True
      then show ?thesis
        using lt False by (simp add: f walkpgdir_hit [OF True] pte_read_table [OF True] mapped_def)
    next
      case no: False
      then show ?thesis using lt by (simp add: f walkpgdir_miss [OF no])
    qed
    obtain k' where k': "unmap_pages f pgdir (a + PGSIZE) stop k = Inr k'" "kpage k' = kpage k"
      "uspace k' pgdir (rev (loaded_frames (pmem k) pgdir (a + PGSIZE) n) @ xs)"
      "\<forall>v. pte_of (pmem k') pgdir v =
         (if vpn (a + PGSIZE) \<le> vpn v \<and> vpn v < vpn (a + PGSIZE) + n \<and> mapped (pmem k) pgdir v then 0
          else pte_of (pmem k) pgdir v)"
      using Suc.IH [OF Suc.prems(1) next_prems] by blast
    have "pte_of (pmem k') pgdir v =
       (if vpn a \<le> vpn v \<and> vpn v < vpn a + Suc n \<and> mapped (pmem k) pgdir v then 0 else pte_of (pmem k) pgdir v)" for v
      using k'(4) False mapped_same_page [of v a "pmem k" pgdir] by (auto simp: va1)
    moreover have "uspace k' pgdir (rev (loaded_frames (pmem k) pgdir a (Suc n)) @ xs)"
      using k'(3) False by (simp add: loaded_frames_Suc)
    ultimately show ?thesis using k'(1,2) step by simp
  qed
qed

lemma find_mapping_Some:
  "find_mapping ms addr i = Some j \<Longrightarrow> i \<le> j \<and> j - i < length ms \<and> maddr (ms ! (j - i)) = addr"
proof (induction ms arbitrary: i)
  case (Cons m ms)
  show ?case
  proof (cases "maddr m = addr")
    case False
    then have "find_mapping ms addr (i + 1) = Some j" using Cons.prems by simp
    from Cons.IH [OF this] have "i + 1 \<le> j" "j - (i + 1) < length ms" "maddr (ms ! (j - (i + 1))) = addr" by auto
    moreover from this have "j - i = Suc (j - (i + 1))" by linarith
    ultimately show ?thesis by simp
  qed (use Cons.prems in simp)
qed simp

definition remove_nth :: "nat \<Rightarrow> 'a list \<Rightarrow> 'a list" where
  "remove_nth i xs = take i xs @ drop (i + 1) xs"

lemma sorted_wrt_remove_nth:
  assumes "sorted_wrt P xs"
  shows "sorted_wrt P (remove_nth i xs)"
proof -
  have "sorted_wrt P (take i xs @ drop i xs)" using assms by simp
  then have "sorted_wrt P (take i xs)" "sorted_wrt P (drop i xs)" "\<forall>x \<in> set (take i xs). \<forall>y \<in> set (drop i xs). P x y"
    unfolding sorted_wrt_append by blast+
  moreover have "drop (i + 1) xs = drop 1 (drop i xs)" by simp
  moreover have "set (drop (i + 1) xs) \<subseteq> set (drop i xs)" by (intro set_drop_subset_set_drop) simp
  ultimately show ?thesis
    unfolding remove_nth_def sorted_wrt_append by (metis sorted_wrt_drop subset_eq)
qed

lemma set_remove_nth: "set (remove_nth i xs) \<subseteq> set xs"
  unfolding remove_nth_def using set_take_subset [of i xs] set_drop_subset [of "i + 1" xs] by auto

text \<open>The shift loop reads one entry past the table when the table is full; the entry is not in use.\<close>

lemma shift_mappings_removes:
  assumes "maps_ok p" "i < num_mappings p"
  shows "in_use (shift_mappings i oob p) = remove_nth i (in_use p)" and "maps_ok (shift_mappings i oob p)"
proof -
  let ?n = "num_mappings p" and ?ms = "mappings p"
  have l: "length ?ms = 16" "?n \<le> 16" using assms(1) by (simp_all add: maps_ok_def)
  have len: "length (take (?n - i) (drop (i + 1) (?ms @ [oob]))) = ?n - i" using l by simp
  have "in_use (shift_mappings i oob p) = take i ?ms @ take (?n - 1 - i) (drop (i + 1) (?ms @ [oob]))"
  proof -
    define ys where "ys = take (?n - i) (drop (i + 1) (?ms @ [oob]))"
    have "length ys = ?n - i" "length (take i ?ms) = i" using len assms(2) l by (simp_all add: ys_def)
    then have "take (?n - 1) (take i ?ms @ ys @ drop ?n ?ms) = take i ?ms @ take (?n - 1 - i) ys"
      using assms(2) by simp
    moreover have "take (?n - 1 - i) ys = take (?n - 1 - i) (drop (i + 1) (?ms @ [oob]))"
      unfolding ys_def using assms(2) by (simp only: take_take) (simp add: min_absorb1)
    ultimately show ?thesis by (simp add: in_use_def shift_mappings_def ys_def)
  qed
  also have "take (?n - 1 - i) (drop (i + 1) (?ms @ [oob])) = drop (i + 1) (take ?n ?ms)"
    using assms(2) l by (simp add: drop_take)
  also have "take i ?ms = take i (take ?n ?ms)" using assms(2) by (simp add: min_def)
  finally show iu: "in_use (shift_mappings i oob p) = remove_nth i (in_use p)"
    by (simp add: remove_nth_def in_use_def)
  have "length (mappings (shift_mappings i oob p)) = 16" "num_mappings (shift_mappings i oob p) \<le> 16"
    using l assms(2) by (simp_all add: shift_mappings_def)
  then show "maps_ok (shift_mappings i oob p)"
    using assms(1) iu set_remove_nth [of i "in_use p"] sorted_wrt_remove_nth [of before "in_use p" i]
    by (auto simp: maps_ok_def)
qed

lemma my_update_simps [simp]:
  "myproc (my_update f k) = f (myproc k)" "km (my_update f k) = km k" "cur (my_update f k) = cur k"
  "fs (my_update f k) = fs k" "ftable (my_update f k) = ftable k" "pipes (my_update f k) = pipes k"
  "p \<noteq> cur k \<Longrightarrow> procs (my_update f k) p = procs k p"
  by (simp_all add: my_update_def proc_update_def myproc_def)

lemma myproc_km [simp]: "myproc (k\<lparr>km := m\<rparr>) = myproc k"
  by (simp add: myproc_def)

text \<open>A mapping that is not written back: the file-backed shared ones are.\<close>

definition no_write_back :: "mapping \<Rightarrow> bool" where
  "no_write_back m \<longleftrightarrow> mflags m AND MAP_SHARED = 0 \<or> mflags m AND MAP_ANONYMOUS \<noteq> 0"

definition map_pages :: "mapping \<Rightarrow> nat" where
  "map_pages m = (unat (mlength m) + 4095) div 4096"

lemma map_pages_end:
  assumes "map_ok m"
  shows "unat (PGROUNDUP (maddr m + mlength m)) = map_start m + map_pages m * 4096"
    and "map_start m + map_pages m * 4096 \<le> 0x80000000" and "map_pages m < page_fuel"
proof -
  obtain q where q: "map_start m = q * 4096"
    using assms by (auto simp: map_ok_def mod_eq_0_iff_dvd dvd_def mult.commute)
  have s: "map_stop m = q * 4096 + unat (mlength m)" using q by (simp add: map_stop_def map_start_def)
  have "map_stop m + 4095 < 2 ^ 32" using assms by (simp add: map_ok_def)
  then have u: "unat (PGROUNDUP (maddr m + mlength m)) = (map_stop m + 4095) div 4096 * 4096"
    using unat_PGROUNDUP [of "mapping_end m"] unat_mapping_end [OF assms] by (simp add: mapping_end_def)
  also have "(map_stop m + 4095) div 4096 = q + map_pages m"
    unfolding s map_pages_def add.assoc by (subst div_mult_self3) simp_all
  finally show *: "unat (PGROUNDUP (maddr m + mlength m)) = map_start m + map_pages m * 4096"
    by (simp add: q add_mult_distrib)
  show "map_start m + map_pages m * 4096 \<le> 0x80000000"
    using round_up_end(2) [OF assms] * by (simp add: mapping_end_def)
  then show "map_pages m < page_fuel" by (simp add: page_fuel_def)
qed

lemma wunmap_effect:
  assumes ok: "maps_ok (myproc k)" and i: "find_mapping (in_use (myproc k)) addr 0 = Some i"
    and m: "m = in_use (myproc k) ! i" and wb: "no_write_back m"
    and us: "uspace (km k) (p_pgdir (myproc k)) xs"
  shows "\<exists>k'. wunmap addr k = Inr (0, k') \<and> maps_ok (myproc k') \<and> in_use (myproc k') = remove_nth i (in_use (myproc k)) \<and>
    p_pgdir (myproc k') = p_pgdir (myproc k) \<and> kpage (km k') = kpage (km k) \<and>
    uspace (km k') (p_pgdir (myproc k)) (rev (loaded_frames (pmem (km k)) (p_pgdir (myproc k)) addr (map_pages m)) @ xs) \<and>
    (\<forall>v. mapped (pmem (km k')) (p_pgdir (myproc k)) v \<longleftrightarrow>
       mapped (pmem (km k)) (p_pgdir (myproc k)) v \<and> \<not> (vpn addr \<le> vpn v \<and> vpn v < vpn addr + map_pages m))"
proof -
  let ?p = "myproc k"
  have f: "i < length (in_use ?p)" "maddr m = addr" using find_mapping_Some [OF i] m by simp_all
  then have mi: "m = mappings ?p ! i" "i < num_mappings ?p" using m by (simp_all add: in_use_def)
  have mok: "map_ok m" using ok f(1) m by (simp add: maps_ok_def)
  note e = map_pages_end [OF mok]
  have al: "unat addr mod 4096 = 0" "addr mod PGSIZE = 0"
    using mok f(2) by (auto simp: map_ok_def map_start_def word_unat_eq_iff unat_mod)
  obtain m1 where m1: "unmap_pages page_fuel (p_pgdir ?p) addr (PGROUNDUP (maddr m + mlength m)) (km k) = Inr m1"
    "kpage m1 = kpage (km k)"
    "uspace m1 (p_pgdir ?p) (rev (loaded_frames (pmem (km k)) (p_pgdir ?p) addr (map_pages m)) @ xs)"
    "\<forall>v. pte_of (pmem m1) (p_pgdir ?p) v =
       (if vpn addr \<le> vpn v \<and> vpn v < vpn addr + map_pages m \<and> mapped (pmem (km k)) (p_pgdir ?p) v then 0
        else pte_of (pmem (km k)) (p_pgdir ?p) v)"
    using unmap_pages_frees [OF us al(1), of "map_pages m" "PGROUNDUP (maddr m + mlength m)" page_fuel] e f(2)
    by (auto simp: map_start_def)
  let ?k = "my_update (shift_mappings i (oob_mapping (k\<lparr>km := m1\<rparr>))) (k\<lparr>km := m1\<rparr>)"
  have "wunmap addr k = Inr (0, ?k)"
    using al(2) i wb m1(1) f(2) mi(1)
    by (auto simp: wunmap_def Let_def do_km_def no_write_back_def word_sless_alt)
  moreover have "mapped (pmem m1) (p_pgdir ?p) v \<longleftrightarrow>
       mapped (pmem (km k)) (p_pgdir ?p) v \<and> \<not> (vpn addr \<le> vpn v \<and> vpn v < vpn addr + map_pages m)" for v
    using m1(4) by (auto simp: mapped_def)
  ultimately show ?thesis
    using shift_mappings_removes [OF ok mi(2)] m1(2,3) by (auto simp: shift_mappings_def)
qed

text \<open>
  C11: \<^verbatim>\<open>wunmap\<close> of a mapping that needs no write-back returns 0, drops exactly that mapping from the table and
  keeps the table well formed; every loaded page of the region goes back to the allocator, no page of the
  region is mapped any more, every other user page stays mapped, and no page is both free and in use.
\<close>

theorem wunmap_frees_region:
  assumes "maps_ok (myproc k)" and "find_mapping (in_use (myproc k)) addr 0 = Some i"
    and "m = in_use (myproc k) ! i" and "no_write_back m" and "pgdir = p_pgdir (myproc k)" and "uspace (km k) pgdir xs"
  shows "\<exists>k'. wunmap addr k = Inr (0, k') \<and> maps_ok (myproc k') \<and>
    in_use (myproc k') = remove_nth i (in_use (myproc k)) \<and>
    uspace (km k') pgdir (rev (loaded_frames (pmem (km k)) pgdir addr (map_pages m)) @ xs) \<and>
    (\<forall>v. mapped (pmem (km k')) pgdir v \<longleftrightarrow>
       mapped (pmem (km k)) pgdir v \<and> \<not> (vpn addr \<le> vpn v \<and> vpn v < vpn addr + map_pages m))"
  using wunmap_effect [OF assms(1-4) assms(6) [unfolded assms(5)]] unfolding assms(5) by blast

definition kernel_mapped :: kernel where
  "kernel_mapped = my_update (\<lambda>_. proc_mapped) kernel_sample"

lemma proc_mapped_simps [simp]:
  "in_use proc_mapped = [granted 0x60000000 8192 13 (-1)]" "p_pgdir proc_mapped = 0x80201000" "maps_ok proc_mapped"
proof -
  show "in_use proc_mapped = [granted 0x60000000 8192 13 (-1)]" by (simp add: proc_mapped_def)
  show "p_pgdir proc_mapped = 0x80201000" by (simp add: proc_mapped_def add_mapping_def proc_sample_def Let_def)
  show "maps_ok proc_mapped"
    unfolding proc_mapped_def
    by (rule add_mapping_ok) (simp_all add: map_ok_def granted_def map_start_def map_stop_def)
qed

theorem wunmap_frees_region_witness:
  "\<exists>k'. wunmap 0x60000000 kernel_mapped = Inr (0, k') \<and> in_use (myproc k') = [] \<and>
     uspace (km k') 0x80201000 [0x80200000, 0x80202000, 0x80204000]"
proof -
  have "find_mapping (in_use (myproc kernel_mapped)) 0x60000000 0 = Some 0"
    by (simp add: kernel_mapped_def granted_def)
  moreover have "loaded_frames (pmem mem_sample) 0x80201000 0x60000000 2 = []"
    by (simp add: loaded_frames_def mapped_def mem_sample_unmapped)
  ultimately show ?thesis
    using wunmap_frees_region [where k = kernel_mapped and addr = "0x60000000" and i = 0 and
      m = "granted 0x60000000 8192 13 (-1)" and pgdir = "0x80201000" and xs = "[0x80200000, 0x80202000, 0x80204000]"]
      mem_sample_uspace
    by (fastforce simp: kernel_mapped_def no_write_back_def granted_def map_pages_def remove_nth_def)
qed

subsection \<open>Page faults\<close>

lemma find_fault_Some:
  "find_fault ms addr i = Some j \<Longrightarrow> i \<le> j \<and> j - i < length ms"
proof (induction ms arbitrary: i)
  case (Cons m ms)
  show ?case
  proof (cases "addr \<ge> maddr m \<and> addr < maddr m + mlength m")
    case False
    then have "find_fault ms addr (i + 1) = Some j" using Cons.prems by (simp only: find_fault.simps if_False)
    from Cons.IH [OF this] show ?thesis by auto
  qed (use Cons.prems in simp)
qed simp

text \<open>
  C12: a page fault at an address of an anonymous mapping is served lazily: with a free page at hand (two
  when the page table has no table for the address) the handler returns 1, the first free page is mapped
  there, filled with zeros, and no other page of the address space changes. The mapping counts one more
  loaded page.
\<close>

theorem fault_loads_page:
  assumes "find_fault (in_use (myproc k)) addr 0 = Some i" and "m = mappings (myproc k) ! i"
    and "mflags m AND MAP_ANONYMOUS \<noteq> 0" and "pgdir = p_pgdir (myproc k)" and "uspace (km k) pgdir (f # xs)"
    and "pde_present (pmem (km k)) pgdir (PDX addr) \<or> xs \<noteq> []"
    and "unat addr < 0x80000000" and "unat addr mod 4096 = 0" and "\<not> mapped (pmem (km k)) pgdir addr"
  shows "\<exists>k' ys. handle_pagefault addr k = Inr (1, k') \<and> uspace (km k') pgdir ys \<and> set ys \<subseteq> set xs \<and>
    frame (pmem (km k')) pgdir addr = f \<and> (\<forall>n < 4096. pmem (km k') (V2P f + of_nat n) = 0) \<and>
    (\<forall>v. vpn v \<noteq> vpn addr \<longrightarrow> pte_of (pmem (km k')) pgdir v = pte_of (pmem (km k)) pgdir v) \<and>
    mappings (myproc k') = (mappings (myproc k))[i := m\<lparr>num_pages_loaded := num_pages_loaded m + 1\<rparr>]"
proof -
  obtain k1 where k1: "kalloc (km k) = (f, k1)" "uspace k1 pgdir xs" "pmem k1 = pmem (km k)" "kpage k1 = kpage (km k)"
    "kpage (km k) f" "f \<noteq> 0" "f \<notin> set xs" "f \<notin> pt_pages (pmem (km k)) pgdir"
    "\<forall>v. unat v < 0x80000000 \<longrightarrow> mapped (pmem (km k)) pgdir v \<longrightarrow> frame (pmem (km k)) pgdir v \<noteq> f"
    by (rule uspace_kalloc [OF assms(5)]) (rule that, assumption+)
  have fresh: "kpage k1 f" "f \<notin> pt_pages (pmem k1) pgdir"
    "\<forall>v. unat v < 0x80000000 \<longrightarrow> mapped (pmem k1) pgdir v \<longrightarrow> frame (pmem k1) pgdir v \<noteq> f"
    "pde_present (pmem k1) pgdir (PDX addr) \<or> xs \<noteq> []" "\<not> mapped (pmem k1) pgdir addr"
    unfolding k1(3,4) using k1(5,8,9) assms(6,9) by simp_all
  obtain k2 ys where k2: "mappages pgdir addr PGSIZE (V2P f) (PTE_U OR PTE_W) k1 = Inr (0, k2)" "uspace k2 pgdir ys"
    "set ys \<subseteq> set xs" "length xs \<le> Suc (length ys)" "kpage k2 = kpage k1"
    "\<And>v. pte_of (pmem k2) pgdir v = (if vpn v = vpn addr then V2P f OR 7 else pte_of (pmem k1) pgdir v)"
    "frame (pmem k2) pgdir addr = f" "page_same f (pmem k1) (pmem k2)"
    by (rule map_user_page [OF k1(2) fresh(4) assms(7,8) fresh(5,1) k1(7) fresh(2,3)]) (rule that, assumption+)
  let ?m = "memset (V2P f) 0 PGSIZE (pmem k2)"
  have "bit ((V2P f OR 7) AND PTE_P) 0" by (simp add: bit_simps)
  then have mp: "mapped (pmem k2) pgdir addr" by (auto simp: mapped_def k2(6))
  have f2: "kpage k2 f" "f \<notin> set ys" "f \<notin> pt_pages (pmem k2) pgdir"
    using uspaceD(2,3,4) [OF k2(2) assms(7) mp] k2(7) by simp_all
  note W = uspace_write_page [OF k2(2) f2 agree_off_memset]
  let ?k = "my_update (count_loaded i) (k\<lparr>km := k1\<rparr>)"
  have "handle_pagefault addr k = Inr (1, ?k\<lparr>km := k2\<lparr>pmem := ?m\<rparr>\<rparr>)"
    using assms(1-4) k1(1,6) k2(1)
    by (simp add: handle_pagefault_def fault_map_def Let_def count_loaded_def)
  moreover have "frame ?m pgdir addr = f" using k2(7) by (simp add: frame_def W(2))
  moreover have "\<forall>n < 4096. ?m (V2P f + of_nat n) = 0"
    by (simp add: memset_poke poke_def unat_of_nat32)
  ultimately show ?thesis
    using W(1) k2(3,6) k1(3) assms(2) by (auto simp: W(2) count_loaded_def)
qed

theorem fault_loads_page_witness:
  "\<exists>k' ys. handle_pagefault 0x60001000 kernel_mapped = Inr (1, k') \<and> uspace (km k') 0x80201000 ys \<and>
     frame (pmem (km k')) 0x80201000 0x60001000 = 0x80200000"
proof -
  have "find_fault (in_use (myproc kernel_mapped)) 0x60001000 0 = Some 0"
    by (simp add: kernel_mapped_def granted_def)
  moreover have "num_mappings proc_mapped = 1" by (simp add: proc_mapped_def)
  then have "mappings proc_mapped ! 0 = in_use proc_mapped ! 0" unfolding in_use_def by simp
  then have "mflags (mappings (myproc kernel_mapped) ! 0) AND MAP_ANONYMOUS \<noteq> 0"
    by (simp add: kernel_mapped_def granted_def)
  ultimately show ?thesis
    using fault_loads_page [where k = kernel_mapped and addr = "0x60001000" and i = 0 and
      m = "mappings (myproc kernel_mapped) ! 0" and pgdir = "0x80201000" and f = "0x80200000" and
      xs = "[0x80202000, 0x80204000]"] mem_sample_uspace
    by (fastforce simp: kernel_mapped_def mapped_def mem_sample_unmapped)
qed

end
