(* ===== verification/Proc_Spec.thy ===== *)
theory Proc_Spec
  imports Proc Wmap_Spec
begin

text \<open>
  Properties of processes: what the loop at the start of \<^verbatim>\<open>exit\<close> leaves of the mapping table, scheduling,
  sleeping and waking, process numbers, and the return value of \<^verbatim>\<open>growproc\<close>.
\<close>

subsection \<open>The mappings at exit\<close>

lemma before_less: "before a b \<Longrightarrow> map_ok a \<Longrightarrow> maddr a \<noteq> maddr b"
  by (auto simp: before_def map_ok_def map_start_def)

lemma find_mapping_nth:
  assumes "sorted_wrt before ms" "\<forall>m \<in> set ms. map_ok m" "j < length ms"
  shows "find_mapping ms (maddr (ms ! j)) i = Some (i + j)"
  using assms
proof (induction ms arbitrary: i j)
  case (Cons m ms)
  show ?case
  proof (cases j)
    case (Suc l)
    then have "l < length ms" using Cons.prems(3) by simp
    moreover from this have "before m (ms ! l)" using Cons.prems(1) by simp
    then have "maddr m \<noteq> maddr (ms ! l)" using before_less Cons.prems(2) by auto
    ultimately show ?thesis using Cons.IH [of l "i + 1"] Cons.prems(1,2) Suc by simp
  qed simp
qed simp

text \<open>The entries at the odd positions.\<close>

fun every_second :: "'a list \<Rightarrow> 'a list" where
  "every_second [] = []"
| "every_second [a] = []"
| "every_second (a # b # xs) = b # every_second xs"

lemma length_every_second: "length (every_second xs) = length xs div 2"
  by (induction xs rule: every_second.induct) simp_all

lemma remove_nth_append: "remove_nth (length us) (us @ v # vs) = us @ vs"
  by (simp add: remove_nth_def)

lemma exit_unmap_skips:
  assumes "maps_ok (myproc k)" "uspace (km k) (p_pgdir (myproc k)) xs" "\<forall>m \<in> set (in_use (myproc k)). no_write_back m"
    and "in_use (myproc k) = us @ vs" "length us = i" "length vs \<le> n"
  shows "\<exists>k' ys. exit_unmap n i k = Inr k' \<and> in_use (myproc k') = us @ every_second vs \<and> maps_ok (myproc k') \<and>
    uspace (km k') (p_pgdir (myproc k)) ys"
  using assms
proof (induction vs arbitrary: n i us k xs rule: every_second.induct)
  case 1
  have "num_mappings (myproc k) = length (in_use (myproc k))"
    using 1(1) by (simp add: maps_ok_def in_use_def)
  then have "exit_unmap n i k = Inr k" using 1 by (cases n) simp_all
  then show ?case using 1 by (intro exI [of _ k] exI [of _ xs]) simp
next
  case (2 a)
  then obtain n' where n: "n = Suc n'" by (cases n) auto
  have len: "num_mappings (myproc k) = length us + 1"
    using 2 length_take [of "num_mappings (myproc k)" "mappings (myproc k)"] by (simp add: maps_ok_def in_use_def)
  then have at: "mappings (myproc k) ! i = a"
    using 2(4,5) nth_take [of i "num_mappings (myproc k)" "mappings (myproc k)"] by (simp add: in_use_def nth_append)
  have f: "find_mapping (in_use (myproc k)) (maddr a) 0 = Some i"
    using find_mapping_nth [of "in_use (myproc k)" i 0] 2 by (simp add: maps_ok_def nth_append)
  have "no_write_back a" "a = in_use (myproc k) ! i" using 2 by (simp_all add: nth_append)
  from wunmap_effect [OF 2(1) f this(2,1) 2(2)] obtain k' ys where k': "wunmap (maddr a) k = Inr (0, k')" "maps_ok (myproc k')"
    "in_use (myproc k') = us" "uspace (km k') (p_pgdir (myproc k)) ys"
    using 2(4,5) remove_nth_append [of us a "[]"] by auto
  have "num_mappings (myproc k') = length us" using k'(2,3) by (auto simp: maps_ok_def in_use_def)
  then have "exit_unmap n i k = Inr k'"
    using k'(1) len at 2(5) by (cases n') (simp_all add: n)
  then show ?case using k' by auto
next
  case (3 a b vs)
  then obtain n' where n: "n = Suc n'" by (cases n) auto
  have len: "num_mappings (myproc k) = length us + length (a # b # vs)"
    using 3 length_take [of "num_mappings (myproc k)" "mappings (myproc k)"] by (simp add: maps_ok_def in_use_def)
  then have at: "mappings (myproc k) ! i = a"
    using 3(5,6) nth_take [of i "num_mappings (myproc k)" "mappings (myproc k)"] by (simp add: in_use_def nth_append)
  have f: "find_mapping (in_use (myproc k)) (maddr a) 0 = Some i"
    using find_mapping_nth [of "in_use (myproc k)" i 0] 3 by (simp add: maps_ok_def nth_append)
  have "no_write_back a" "a = in_use (myproc k) ! i" using 3 by (simp_all add: nth_append)
  from wunmap_effect [OF 3(2) f this(2,1) 3(3)] obtain k1 ys where k1: "wunmap (maddr a) k = Inr (0, k1)" "maps_ok (myproc k1)"
    "in_use (myproc k1) = us @ b # vs" "uspace (km k1) (p_pgdir (myproc k1)) ys" "p_pgdir (myproc k1) = p_pgdir (myproc k)"
    using 3(5,6) remove_nth_append [of us a "b # vs"] by auto
  have step: "exit_unmap n i k = exit_unmap n' (i + 1) k1"
    using k1(1) len at 3(6) by (simp add: n)
  have nw: "\<forall>m \<in> set (in_use (myproc k1)). no_write_back m" using 3(4,5) k1(3) by auto
  obtain k' zs where "exit_unmap n' (i + 1) k1 = Inr k'" "in_use (myproc k') = (us @ [b]) @ every_second vs"
    "maps_ok (myproc k')" "uspace (km k') (p_pgdir (myproc k1)) zs"
    using 3(1) [OF k1(2,4) nw, of "us @ [b]" "i + 1" n'] k1(3) 3(6,7) n by auto
  then show ?case using step k1(5) by auto
qed

text \<open>C16: The loop at the start of \<^verbatim>\<open>exit\<close> counts upwards through a table that every \<^verbatim>\<open>wunmap\<close>
  shifts down, so it skips every other mapping: of \<open>n\<close> mappings the \<open>n div 2\<close> at the odd positions are
  never unmapped.\<close>

theorem exit_skips_mappings:
  assumes "maps_ok (myproc k)" "uspace (km k) (p_pgdir (myproc k)) xs"
    and "\<forall>m \<in> set (in_use (myproc k)). no_write_back m"
  shows "\<exists>k'. exit_unmap (num_mappings (myproc k)) 0 k = Inr k' \<and> in_use (myproc k') = every_second (in_use (myproc k)) \<and>
    length (in_use (myproc k')) = num_mappings (myproc k) div 2"
proof -
  have "length (in_use (myproc k)) = num_mappings (myproc k)"
    using assms(1) by (simp add: maps_ok_def in_use_def)
  then show ?thesis
    using exit_unmap_skips [OF assms, of "[]" "in_use (myproc k)" 0 "num_mappings (myproc k)"]
    by (auto simp: length_every_second)
qed

definition proc_two :: kproc where
  "proc_two = add_mapping (granted 0x60004000 8192 13 (-1)) proc_mapped"

lemma proc_two_simps:
  "in_use proc_two = [granted 0x60000000 8192 13 (-1), granted 0x60004000 8192 13 (-1)]" "p_pgdir proc_two = 0x80201000"
  "maps_ok proc_two" "num_mappings proc_two = 2"
proof -
  have s: "replicate 16 x = x # x # replicate 14 x" for x :: mapping by (simp add: numeral_eq_Suc)
  show "in_use proc_two = [granted 0x60000000 8192 13 (-1), granted 0x60004000 8192 13 (-1)]"
    by (simp add: proc_two_def proc_mapped_def add_mapping_def proc_sample_def proc_unused_def Let_def in_use_def
      selectionSort_def granted_def s)
  show "p_pgdir proc_two = 0x80201000" "num_mappings proc_two = 2"
    by (simp_all add: proc_two_def proc_mapped_def add_mapping_def proc_sample_def proc_unused_def Let_def)
  show "maps_ok proc_two"
    unfolding proc_two_def
    by (rule add_mapping_ok)
      (simp_all add: map_ok_def granted_def map_start_def map_stop_def apart_def before_def, simp add: proc_mapped_def)
qed

theorem exit_skips_mappings_witness:
  "\<exists>k'. exit_unmap 2 0 (my_update (\<lambda>_. proc_two) kernel_sample) = Inr k' \<and>
     in_use (myproc k') = [granted 0x60004000 8192 13 (-1)]"
proof -
  let ?k = "my_update (\<lambda>_. proc_two) kernel_sample"
  have k: "myproc ?k = proc_two" "km ?k = mem_sample" by (simp_all add: my_update_simps)
  have "\<exists>k'. exit_unmap (num_mappings (myproc ?k)) 0 ?k = Inr k' \<and> in_use (myproc k') = every_second (in_use (myproc ?k)) \<and>
    length (in_use (myproc k')) = num_mappings (myproc ?k) div 2"
    by (rule exit_skips_mappings [where xs = "[0x80200000, 0x80202000, 0x80204000]"])
      (simp_all only: k proc_two_simps mem_sample_uspace, simp add: no_write_back_def granted_def)
  then show ?thesis unfolding k proc_two_simps by auto
qed

subsection \<open>Scheduling, sleeping and waking\<close>

lemma pick_first:
  assumes "p \<le> q" "q < p + n" "p_state (t q) = RUNNABLE"
  shows "\<exists>r. pick n p t = Some r \<and> p \<le> r \<and> r \<le> q \<and> p_state (t r) = RUNNABLE \<and> (\<forall>i. p \<le> i \<and> i < r \<longrightarrow> p_state (t i) \<noteq> RUNNABLE)"
  using assms
proof (induction n arbitrary: p)
  case (Suc n)
  show ?case
  proof (cases "p_state (t p) = RUNNABLE")
    case False
    then have "p + 1 \<le> q" using Suc.prems by (metis Suc_eq_plus1 Suc_leI le_neq_implies_less)
    then obtain r where "pick n (p + 1) t = Some r" "p + 1 \<le> r" "r \<le> q" "p_state (t r) = RUNNABLE"
      "\<forall>i. p + 1 \<le> i \<and> i < r \<longrightarrow> p_state (t i) \<noteq> RUNNABLE"
      using Suc.IH [of "p + 1"] Suc.prems by auto
    moreover have "p_state (t i) \<noteq> RUNNABLE" if "p \<le> i" "i < r" for i
      using that calculation(5) False by (cases "i = p") simp_all
    ultimately show ?thesis using False by auto
  qed (use Suc.prems in auto)
qed simp

text \<open>C17: Whenever some process is runnable, one round of the scheduler's loop started at the first table
  entry gives the processor to a runnable process: the first one in the table. It is then the
  current process, in state \<^verbatim>\<open>RUNNING\<close> and on its own page table, and no other process has changed.\<close>

theorem schedule_runs_first:
  assumes "q < 64" "p_state (procs k q) = RUNNABLE"
    and "\<forall>p < 64. p_state (procs k p) = RUNNABLE \<longrightarrow> p_kstack (procs k p) \<noteq> 0 \<and> p_pgdir (procs k p) \<noteq> 0"
  shows "\<exists>r k'. schedule 0 k = Inr (Some r, k') \<and> r \<le> q \<and> p_state (procs k r) = RUNNABLE \<and>
    (\<forall>i < r. p_state (procs k i) \<noteq> RUNNABLE) \<and> cur k' = r \<and> myproc k' = (procs k r)\<lparr>p_state := RUNNING\<rparr> \<and>
    cr3 k' = V2P (p_pgdir (procs k r)) \<and> (\<forall>p. p \<noteq> r \<longrightarrow> procs k' p = procs k p)"
proof -
  obtain r where "pick 64 0 (procs k) = Some r" "r \<le> q" "p_state (procs k r) = RUNNABLE"
    "\<forall>i < r. p_state (procs k i) \<noteq> RUNNABLE"
    using pick_first [of 0 q 64 "procs k"] assms by auto
  moreover from this have "p_kstack (procs k r) \<noteq> 0" "p_pgdir (procs k r) \<noteq> 0" using assms by auto
  ultimately show ?thesis
    by (simp add: schedule_def switchuvm_def proc_update_def myproc_def)
qed

theorem schedule_runs_first_witness:
  "\<exists>r k'. schedule 0 (my_update (\<lambda>p. p\<lparr>p_state := RUNNABLE\<rparr>) kernel_sample) = Inr (Some r, k') \<and> r = 0 \<and>
     p_state (myproc k') = RUNNING"
proof -
  let ?k = "my_update (\<lambda>p. p\<lparr>p_state := RUNNABLE\<rparr>) kernel_sample"
  have p: "procs ?k = (\<lambda>i. if i = 0 then proc_sample\<lparr>p_state := RUNNABLE\<rparr> else proc_unused)"
    by (auto simp: my_update_def proc_update_def kernel_sample_def)
  have "\<exists>r k'. schedule 0 ?k = Inr (Some r, k') \<and> r \<le> 0 \<and> p_state (procs ?k r) = RUNNABLE \<and>
    (\<forall>i < r. p_state (procs ?k i) \<noteq> RUNNABLE) \<and> cur k' = r \<and> myproc k' = (procs ?k r)\<lparr>p_state := RUNNING\<rparr> \<and>
    cr3 k' = V2P (p_pgdir (procs ?k r)) \<and> (\<forall>p. p \<noteq> r \<longrightarrow> procs k' p = procs ?k p)"
    by (rule schedule_runs_first) (simp_all add: p proc_sample_def proc_unused_def)
  then show ?thesis by auto
qed

lemma procs_wakeup:
  "procs (wakeup c k) p = (if p < 64 then wake_if (Some c) (procs k p) else procs k p)"
  by (simp add: wakeup_def wakeup1_def)

text \<open>Waking any number of channels, none of which is the process's own, leaves it asleep; its own wakes it.\<close>

lemma wakeups_asleep:
  assumes "p < 64" "p_state (procs k p) = SLEEPING" "p_chan (procs k p) = Some c"
  shows "p_state (procs (fold wakeup cs k) p) = (if c \<in> set cs then RUNNABLE else SLEEPING)"
proof -
  have awake: "procs (fold wakeup ds l) p = procs l p" if "p_state (procs l p) = RUNNABLE" for ds and l :: "'a kernel_scheme"
    using that by (induction ds arbitrary: l) (simp_all add: procs_wakeup wake_if_def)
  show ?thesis using assms(2,3)
  proof (induction cs arbitrary: k)
    case (Cons d cs)
    then show ?case
      using awake [of "wakeup d k" cs] assms(1) by (cases "c = d") (auto simp: procs_wakeup wake_if_def)
  qed simp
qed



subsection \<open>Process numbers\<close>

lemma find_unused_first:
  assumes "p \<le> q" "q < p + n" "p_state (t q) = UNUSED" "\<forall>i. p \<le> i \<and> i < q \<longrightarrow> p_state (t i) \<noteq> UNUSED"
  shows "find_unused n p t = Some q"
  using assms
proof (induction n arbitrary: p)
  case (Suc n)
  then show ?case by (cases "p = q") auto
qed simp

lemma find_unused_is: "find_unused n p t = Some q \<Longrightarrow> q < p + n \<and> p_state (t q) = UNUSED"
  by (induction n arbitrary: p) (fastforce split: if_splits)+

lemma allocproc_Some:
  assumes "find_unused NPROC 0 (procs k) = Some p" "kalloc (km k) = (v, m)" "v \<noteq> 0"
  shows "\<exists>k'. allocproc k = (Some p, k') \<and> nextpid k' = nextpid k + 1 \<and>
    procs k' = (procs k)(p := (procs k p)\<lparr>p_state := EMBRYO, p_pid := nextpid k, p_kstack := v, num_mappings := 0\<rparr>)"
  using assms by (simp add: allocproc_def proc_update_def init_kstack_def Let_def)

lemma allocproc_fills:
  assumes "allocproc k = (Some p, k')"
  shows "p < NPROC \<and> p_state (procs k p) = UNUSED \<and> nextpid k' = nextpid k + 1 \<and>
    (\<exists>v. procs k' = (procs k)(p := (procs k p)\<lparr>p_state := EMBRYO, p_pid := nextpid k, p_kstack := v, num_mappings := 0\<rparr>))"
proof -
  obtain v m where v: "kalloc (km k) = (v, m)" by fastforce
  have f: "find_unused NPROC 0 (procs k) = Some p" "v \<noteq> 0"
    using assms v by (auto simp: allocproc_def Let_def proc_update_def split: option.splits if_splits)
  then show ?thesis using allocproc_Some [OF f(1) v f(2)] find_unused_is [OF f(1)] assms by auto
qed

lemma allocproc_None:
  assumes "allocproc k = (None, k')"
  shows "k' = k \<or> (\<exists>p. p_state (procs k p) = UNUSED \<and> nextpid k' = nextpid k + 1 \<and>
    procs k' = (procs k)(p := (procs k p)\<lparr>p_state := UNUSED, p_pid := nextpid k, p_kstack := 0\<rparr>))"
proof (cases "find_unused NPROC 0 (procs k)")
  case (Some p)
  then show ?thesis using assms find_unused_is [OF Some]
    by (auto simp: allocproc_def proc_update_def Let_def fun_eq_iff split: prod.splits if_splits)
qed (use assms in \<open>simp add: allocproc_def\<close>)

text \<open>The numbers in use are positive, below the next one, and different from each other.\<close>

definition pids_ok :: "'a kernel_scheme \<Rightarrow> bool" where
  "pids_ok k \<longleftrightarrow> 0 < sint (nextpid k) \<and>
     (\<forall>p < NPROC. p_state (procs k p) \<noteq> UNUSED \<longrightarrow> 0 < sint (p_pid (procs k p)) \<and> sint (p_pid (procs k p)) < sint (nextpid k)) \<and>
     (\<forall>p < NPROC. \<forall>q < NPROC. p_state (procs k p) \<noteq> UNUSED \<and> p_state (procs k q) \<noteq> UNUSED \<and>
        p_pid (procs k p) = p_pid (procs k q) \<longrightarrow> p = q)"

lemma sint_next: "sint (w :: cint) < 2147483647 \<Longrightarrow> sint (w + 1) = sint w + 1"
proof -
  assume a: "sint w < 2147483647"
  have u: "unat (w + 1) = (unat w + 1) mod 4294967296" by (simp add: unat_word_ariths(1))
  have g: "(if (n + 1) mod 4294967296 < (2147483648 :: nat) then int ((n + 1) mod 4294967296) else int ((n + 1) mod 4294967296) - 4294967296)
      = (if n < 2147483648 then int n else int n - 4294967296) + 1"
    if "n < 4294967296" "(if n < 2147483648 then int n else int n - 4294967296) < 2147483647" for n
    using that by (cases "n = 4294967295") (auto split: if_splits)
  show ?thesis using g [OF unat_lt32 [of w]] a by (simp only: sint32 u)
qed

text \<open>C21: \<^verbatim>\<open>allocproc\<close> keeps process numbers unique as long as the counter does not overflow: the new process has a
  number that no other process has, its entry was unused, and no other entry changes.\<close>

theorem allocproc_unique_pid:
  assumes "pids_ok k" "sint (nextpid k) < 2147483647" "allocproc k = (r, k')"
  shows "pids_ok k' \<and> (case r of None \<Rightarrow> True | Some p \<Rightarrow> p < NPROC \<and> p_state (procs k p) = UNUSED \<and>
    (\<forall>q < NPROC. q \<noteq> p \<and> p_state (procs k' q) \<noteq> UNUSED \<longrightarrow> p_pid (procs k' q) \<noteq> p_pid (procs k' p)) \<and>
    (\<forall>q. q \<noteq> p \<longrightarrow> procs k' q = procs k q))"
proof (cases r)
  case None
  have "pids_ok k'"
    using allocproc_None [OF assms(3) [unfolded None]] assms(1) sint_next [OF assms(2)]
    by (auto simp: pids_ok_def split: if_splits)
  then show ?thesis by (simp add: None)
next
  case (Some p)
  then obtain v where p: "p < NPROC" "p_state (procs k p) = UNUSED"
    and k': "nextpid k' = nextpid k + 1"
      "procs k' = (procs k)(p := (procs k p)\<lparr>p_state := EMBRYO, p_pid := nextpid k, p_kstack := v, num_mappings := 0\<rparr>)"
    using allocproc_fills assms(3) by blast
  have old: "sint (p_pid (procs k q)) < sint (nextpid k)" if "q < NPROC" "p_state (procs k q) \<noteq> UNUSED" for q
    using assms(1) that by (simp add: pids_ok_def)
  then have new: "p_pid (procs k q) \<noteq> nextpid k" if "q < NPROC" "p_state (procs k q) \<noteq> UNUSED" for q
    using that by fastforce
  have "pids_ok k'"
    unfolding pids_ok_def
  proof (intro conjI)
    show "0 < sint (nextpid k')" using assms(1) by (simp add: k' sint_next [OF assms(2)] pids_ok_def)
    show "\<forall>q < NPROC. p_state (procs k' q) \<noteq> UNUSED \<longrightarrow>
        0 < sint (p_pid (procs k' q)) \<and> sint (p_pid (procs k' q)) < sint (nextpid k')"
      using assms(1) old by (auto simp: k' sint_next [OF assms(2)] pids_ok_def intro: less_imp_le)
    show "\<forall>q < NPROC. \<forall>q' < NPROC. p_state (procs k' q) \<noteq> UNUSED \<and> p_state (procs k' q') \<noteq> UNUSED \<and>
        p_pid (procs k' q) = p_pid (procs k' q') \<longrightarrow> q = q'"
      using assms(1) new by (auto simp: k' pids_ok_def)
  qed
  then show ?thesis using p new by (auto simp: Some k')
qed

theorem allocproc_unique_pid_witness:
  "\<exists>k'. allocproc kernel_sample = (Some 1, k') \<and> pids_ok k' \<and> p_pid (procs k' 1) = 2"
proof -
  have f: "find_unused NPROC 0 (procs kernel_sample) = Some 1"
    by (rule find_unused_first) (simp_all add: kernel_sample_def proc_sample_def proc_unused_def)
  have k: "kalloc (km kernel_sample) = (0x80200000, snd (kalloc mem_sample))"
    by (simp add: kalloc_def mem_sample_def)
  obtain k' where k': "allocproc kernel_sample = (Some 1, k')"
    "procs k' = (procs kernel_sample)(1 := (procs kernel_sample 1)\<lparr>p_state := EMBRYO, p_pid := nextpid kernel_sample,
       p_kstack := 0x80200000, num_mappings := 0\<rparr>)"
    using allocproc_Some [OF f k] by auto
  have "pids_ok kernel_sample" "sint (nextpid kernel_sample) < 2147483647"
    by (simp_all add: pids_ok_def kernel_sample_def proc_sample_def proc_unused_def)
  then have "pids_ok k'" using allocproc_unique_pid [OF _ _ k'(1)] by blast
  then show ?thesis using k' by (simp add: kernel_sample_def)
qed

lemma kill_loop_first:
  assumes "p \<le> q" "q < p + n" "p_pid (procs k q) = pid" "\<forall>i. p \<le> i \<and> i < q \<longrightarrow> p_pid (procs k i) \<noteq> pid"
  shows "kill_loop n p pid k =
    (0, proc_update q (\<lambda>x. x\<lparr>p_killed := True, p_state := (if p_state x = SLEEPING then RUNNABLE else p_state x)\<rparr>) k)"
  using assms
proof (induction n arbitrary: p)
  case (Suc n)
  then show ?case by (cases "p = q") auto
qed simp

text \<open>C22: \<^verbatim>\<open>kill\<close> looks at the numbers of unused entries too, and these are 0: \<^verbatim>\<open>kill(0)\<close> succeeds, marks a free entry as
  killed, and \<^verbatim>\<open>allocproc\<close> does not clear the mark, so the next process that is created is dead on arrival.\<close>

theorem kill_zero_dooms_next:
  assumes "i < NPROC" "p_state (procs k i) = UNUSED" "p_pid (procs k i) = 0"
    and "\<forall>j < i. p_pid (procs k j) \<noteq> 0 \<and> p_state (procs k j) \<noteq> UNUSED" "fst (kalloc (km k)) \<noteq> 0"
  shows "\<exists>k1 k2. kill 0 k = (0, k1) \<and> allocproc k1 = (Some i, k2) \<and> p_killed (procs k2 i)"
proof -
  let ?k1 = "proc_update i (\<lambda>x. x\<lparr>p_killed := True, p_state := (if p_state x = SLEEPING then RUNNABLE else p_state x)\<rparr>) k"
  have k: "kill 0 k = (0, ?k1)"
    unfolding kill_def by (rule kill_loop_first) (use assms in auto)
  have "find_unused NPROC 0 (procs ?k1) = Some i"
    by (rule find_unused_first) (use assms in \<open>auto simp: proc_update_def\<close>)
  moreover obtain v m where "kalloc (km ?k1) = (v, m)" "v \<noteq> 0"
    using assms(5) by (cases "kalloc (km k)") (auto simp: proc_update_def)
  ultimately obtain k2 where "allocproc ?k1 = (Some i, k2)" "p_killed (procs k2 i)"
    using allocproc_Some [of ?k1 i v m] by (auto simp: proc_update_def)
  then show ?thesis using k by blast
qed

theorem kill_zero_dooms_next_witness:
  "\<exists>k1 k2. kill 0 kernel_sample = (0, k1) \<and> allocproc k1 = (Some 1, k2) \<and> p_killed (procs k2 1)"
  by (rule kill_zero_dooms_next)
    (simp_all add: kernel_sample_def proc_sample_def proc_unused_def kalloc_def mem_sample_def)

end
