(* ===== verification/Lifecycle.thy ===== *)
theory Lifecycle
  imports Trap Proc_Spec
begin

text \<open>
  The life of a process. \<open>sview\<close> is what the scheduler sees of the process table: the state, number,
  kernel stack and page directory of every entry, the process on the processor and the next number.
  \<open>life\<close> is the abstract specification: the changes that a process table may go through. Every trap
  and every round of the scheduler is shown to refine a sequence of such changes, whatever system
  call, interrupt or fault it handles; the invariants then follow on the abstract level.
\<close>

subsection \<open>The abstract process table\<close>

record sproc =
  s_state :: procstate
  s_pid :: cint
  s_kstack :: uint
  s_pgdir :: uint

record sview =
  sp :: "nat \<Rightarrow> sproc"
  scur :: nat
  snext :: cint

definition pview :: "kproc \<Rightarrow> sproc" where
  "pview p = \<lparr>s_state = p_state p, s_pid = p_pid p, s_kstack = p_kstack p, s_pgdir = p_pgdir p\<rparr>"

definition table_view :: "'a kernel_scheme \<Rightarrow> sview" where
  "table_view k = \<lparr>sp = (\<lambda>p. pview (procs k p)), scur = cur k, snext = nextpid k\<rparr>"

definition sset :: "nat \<Rightarrow> (sproc \<Rightarrow> sproc) \<Rightarrow> sview \<Rightarrow> sview" where
  "sset p f v = v\<lparr>sp := (sp v)(p := f (sp v p))\<rparr>"

definition running :: "sview \<Rightarrow> bool" where
  "running v \<longleftrightarrow> s_state (sp v (scur v)) = RUNNING"

definition swake :: "nat set \<Rightarrow> sview \<Rightarrow> sview" where
  "swake W v = v\<lparr>sp := (\<lambda>p. if p \<in> W \<and> s_state (sp v p) = SLEEPING then (sp v p)\<lparr>s_state := RUNNABLE\<rparr> else sp v p)\<rparr>"

inductive life :: "sview \<Rightarrow> sview \<Rightarrow> bool" where
  wake: "life v (swake W v)"
| created: "p < NPROC \<Longrightarrow> s_state (sp v p) = UNUSED \<Longrightarrow> stk \<noteq> 0 \<Longrightarrow> d \<noteq> 0 \<Longrightarrow>
    life v ((sset p (\<lambda>_. \<lparr>s_state = RUNNABLE, s_pid = snext v, s_kstack = stk, s_pgdir = d\<rparr>) v)\<lparr>snext := snext v + 1\<rparr>)"
| not_created: "p < NPROC \<Longrightarrow> s_state (sp v p) = UNUSED \<Longrightarrow> s_state q = UNUSED \<Longrightarrow>
    life v ((sset p (\<lambda>_. q) v)\<lparr>snext := snext v + 1\<rparr>)"
| new_image: "running v \<Longrightarrow> d \<noteq> 0 \<Longrightarrow> life v (sset (scur v) (\<lambda>q. q\<lparr>s_pgdir := d\<rparr>) v)"
| gives_up: "running v \<Longrightarrow> st \<in> {SLEEPING, RUNNABLE, ZOMBIE} \<Longrightarrow> life v (sset (scur v) (\<lambda>q. q\<lparr>s_state := st\<rparr>) v)"
| reaped: "p < NPROC \<Longrightarrow> s_state (sp v p) = ZOMBIE \<Longrightarrow>
    life v (sset p (\<lambda>q. q\<lparr>s_state := UNUSED, s_pid := 0, s_kstack := 0\<rparr>) v)"
| dispatched: "\<forall>q < NPROC. s_state (sp v q) \<noteq> RUNNING \<Longrightarrow> p < NPROC \<Longrightarrow> s_state (sp v p) = RUNNABLE \<Longrightarrow>
    life v ((sset p (\<lambda>q. q\<lparr>s_state := RUNNING\<rparr>) v)\<lparr>scur := p\<rparr>)"

definition live :: "sproc \<Rightarrow> bool" where
  "live p \<longleftrightarrow> s_state p \<in> {SLEEPING, RUNNABLE, RUNNING}"

text \<open>At most the current process runs, and what can run has a kernel stack and a page directory.\<close>

definition table_inv :: "sview \<Rightarrow> bool" where
  "table_inv v \<longleftrightarrow> scur v < NPROC \<and> (\<forall>p < NPROC. s_state (sp v p) = RUNNING \<longrightarrow> p = scur v) \<and>
     (\<forall>p < NPROC. live (sp v p) \<longrightarrow> s_kstack (sp v p) \<noteq> 0 \<and> s_pgdir (sp v p) \<noteq> 0)"

lemma life_inv: "life v v' \<Longrightarrow> table_inv v \<Longrightarrow> table_inv v'"
proof (induction rule: life.induct)
  case (new_image v d)
  then show ?case by (auto simp: table_inv_def sset_def running_def live_def)
next
  case (gives_up v st)
  then show ?case by (auto simp: table_inv_def sset_def running_def live_def)
qed (auto simp: table_inv_def sset_def swake_def live_def)

lemma lives_inv: "life\<^sup>*\<^sup>* v v' \<Longrightarrow> table_inv v \<Longrightarrow> table_inv v'"
  by (induction rule: rtranclp_induct) (auto intro: life_inv)

subsection \<open>Partial correctness of fallible code\<close>

text \<open>If the code returns, the result satisfies the condition.\<close>

definition returns :: "'a res \<Rightarrow> ('a \<Rightarrow> bool) \<Rightarrow> bool" where
  "returns r P \<longleftrightarrow> (\<forall>x. r = Inr x \<longrightarrow> P x)"

lemma returns_simps [simp]:
  "returns (Inl e) P" "returns (Inr x) P = P x" "returns (andThen r f) P = returns r (\<lambda>x. returns (f x) P)"
  by (auto simp: returns_def andThen_eq_Inr)

lemma returns_mono: "returns r Q \<Longrightarrow> (\<And>x. Q x \<Longrightarrow> P x) \<Longrightarrow> returns r P"
  by (auto simp: returns_def)

subsection \<open>Code that does not touch the process table\<close>

named_theorems same \<open>what an operation leaves alone\<close>

lemma lift_more [same]:
  fixes st :: "'a fstate_scheme"
  shows "(\<And>st'. fstate.more st' = fstate.more st \<Longrightarrow> P st') \<Longrightarrow> returns (do_fs f st) P"
    and "(\<And>st'. fstate.more st' = fstate.more st \<Longrightarrow> P st') \<Longrightarrow> returns (do_km g st) P"
    and "(\<And>r st'. fstate.more st' = fstate.more st \<Longrightarrow> Q (r, st')) \<Longrightarrow> returns (on_fs f' st) Q"
    and "(\<And>r st'. fstate.more st' = fstate.more st \<Longrightarrow> Q (r, st')) \<Longrightarrow> returns (on_km g' st) Q"
    and "(\<And>st'. fstate.more st' = fstate.more st \<Longrightarrow> P st') \<Longrightarrow> returns (kprint fmt as st) P"
  by (auto simp: do_fs_def do_km_def on_fs_def on_km_def kprint_def returns_def andThen_eq_Inr)

lemma file_update_more [simp]: "fstate.more (file_update f g st) = fstate.more st"
  by (simp add: file_update_def)

lemma wakeup_chan_more [simp]: "fstate.more (wakeup_chan c st) = fstate.more st"
  by (simp add: wakeup_chan_def)

lemma filealloc_more [simp]: "filealloc st = (r, st') \<Longrightarrow> fstate.more st' = fstate.more st"
proof -
  have "filealloc_loop n f st = (r, st') \<Longrightarrow> fstate.more st' = fstate.more st" for n f
    by (induction n arbitrary: f) (auto split: if_splits)
  then show "filealloc st = (r, st') \<Longrightarrow> fstate.more st' = fstate.more st" by (simp add: filealloc_def)
qed

lemma filedup_more [same]: "(\<And>r st'. fstate.more st' = fstate.more st \<Longrightarrow> P (r, st')) \<Longrightarrow> returns (filedup f st) P"
  by (simp add: filedup_def)

lemma pipeclose_more [same]: "(\<And>st'. fstate.more st' = fstate.more st \<Longrightarrow> P st') \<Longrightarrow> returns (pipeclose p w st) P"
  by (auto simp: pipeclose_def Let_def intro!: same)

lemma fileclose_more [same]: "(\<And>st'. fstate.more st' = fstate.more st \<Longrightarrow> P st') \<Longrightarrow> returns (fileclose f st) P"
  by (auto simp: fileclose_def Let_def intro!: same split: fdtype.split)

lemma pipealloc_more [same]: "(\<And>r st'. fstate.more st' = fstate.more st \<Longrightarrow> P (r, st')) \<Longrightarrow> returns (pipealloc st) P"
  by (auto simp: pipealloc_def pipe_bad_def Let_def intro!: same split: option.split prod.split)

lemma filestat_more [same]: "(\<And>r st'. fstate.more st' = fstate.more st \<Longrightarrow> P (r, st')) \<Longrightarrow> returns (filestat f st) P"
  by (auto simp: filestat_def Let_def intro!: same)

lemma fileread_more [same]: "(\<And>r bs st'. fstate.more st' = fstate.more st \<Longrightarrow> P (r, bs, st')) \<Longrightarrow> returns (fileread q f n st) P"
  by (auto simp: fileread_def Let_def intro!: same split: fdtype.split read_outcome.split)

lemma filewrite_loop_more [same]:
  "(\<And>r st'. fstate.more st' = fstate.more st \<Longrightarrow> P (r, st')) \<Longrightarrow> returns (filewrite_loop f src st) P"
proof (induction "length src" arbitrary: src st P rule: less_induct)
  case less
  have step: "returns (filewrite_loop f (drop n src) st') P"
    if "src \<noteq> []" "0 < n" "fstate.more st' = fstate.more st" for n st'
    by (rule less.hyps) (use that less.prems in auto)
  have upd: "fstate.more (if b then file_update f g s else s) = fstate.more s" for b g and s :: "'a fstate_scheme"
    by simp
  show ?case
  proof (cases "src = []")
    case True
    then show ?thesis by (subst filewrite_loop.simps) (simp add: less.prems)
  next
    case False
    then have n: "0 < min (length src) 1536" by simp
    show ?thesis
      apply (subst filewrite_loop.simps)
      apply (simp only: Let_def False if_False returns_simps)
      apply (rule lift_more(1))+
      apply (rule lift_more(3), simp only: prod.case returns_simps)
      apply (rule lift_more(1))+
      apply (simp only: upd split: if_split)
      apply (intro conjI impI)
         apply (simp_all only: returns_simps less.prems)
      apply (rule step [OF False n], simp only:)
      done
  qed
qed

lemma filewrite_more [same]: "(\<And>r st'. fstate.more st' = fstate.more st \<Longrightarrow> P (r, st')) \<Longrightarrow> returns (filewrite q f src st) P"
  by (auto simp: filewrite_def Let_def intro!: same split: fdtype.split write_outcome.split)

lemma dup_files_more [same]:
  "(\<And>r st'. fstate.more st' = fstate.more st \<Longrightarrow> P (r, st')) \<Longrightarrow> returns (dup_files fds st) P"
proof (induction fds arbitrary: st P)
  case (Cons fd fds)
  then show ?case by (cases fd) (auto intro!: Cons.IH filedup_more)
qed simp

subsection \<open>Code that changes no more than the other fields of the running process\<close>

lemma view_more: "fstate.more k' = fstate.more k \<Longrightarrow> table_view k' = table_view k"
  by (cases k, cases k') (simp add: table_view_def)

lemma view_fields [simp]:
  "table_view (k\<lparr>km := m\<rparr>) = table_view k" "table_view (k\<lparr>fs := s\<rparr>) = table_view k" "table_view (k\<lparr>cr3 := c\<rparr>) = table_view k" "table_view (k\<lparr>ticks := t\<rparr>) = table_view k"
  "table_view (k\<lparr>woken := w\<rparr>) = table_view k" "table_view (file_update f g k) = table_view k"
  by (simp_all add: table_view_def file_update_def)

lemma view_my_update: "(\<And>p. pview (f p) = pview p) \<Longrightarrow> table_view (my_update f k) = table_view k"
  by (auto simp: table_view_def my_update_def proc_update_def)

lemma view_my_update_fields [simp]:
  "table_view (my_update (shift_mappings i m) k) = table_view k" "table_view (my_update (count_loaded i) k) = table_view k"
  "table_view (my_update (\<lambda>p. p\<lparr>p_tf := tf p\<rparr>) k) = table_view k" "table_view (my_update (\<lambda>p. p\<lparr>p_ofile := fds p\<rparr>) k) = table_view k"
  "table_view (my_update (\<lambda>p. p\<lparr>p_cwd := cwd\<rparr>) k) = table_view k" "table_view (my_update (\<lambda>p. p\<lparr>p_killed := True\<rparr>) k) = table_view k"
  "table_view (my_update (set_length i len) k) = table_view k" "table_view (my_update (\<lambda>p. p\<lparr>mappings := ms p\<rparr>) k) = table_view k"
  "table_view (my_update (\<lambda>p. p\<lparr>p_sz := sz\<rparr>) k) = table_view k"
  by (simp_all add: view_my_update pview_def shift_mappings_def count_loaded_def set_length_def)

lemma write_back_view [same]: "(\<And>r k'. table_view k' = table_view k \<Longrightarrow> P (r, k')) \<Longrightarrow> returns (write_back m k) P"
  by (auto simp: write_back_def Let_def intro!: same dest!: view_more split: option.split)

lemma wunmap_view [same]: "(\<And>r k'. table_view k' = table_view k \<Longrightarrow> P (r, k')) \<Longrightarrow> returns (wunmap a k) P"
  by (auto simp: wunmap_def Let_def intro!: same dest!: view_more split: option.split)

lemma wremap_move_view [same]: "(\<And>r k'. table_view k' = table_view k \<Longrightarrow> P (r, k')) \<Longrightarrow> returns (wremap_move i a o1 n k) P"
  by (auto simp: wremap_move_def Let_def intro!: same dest!: view_more)

lemma wremap_view [same]: "(\<And>r k'. table_view k' = table_view k \<Longrightarrow> P (r, k')) \<Longrightarrow> returns (wremap a o1 n fl k) P"
  by (auto simp: wremap_def Let_def intro!: same dest!: view_more split: option.split)

lemma fault_map_view [same]: "(\<And>r k'. table_view k' = table_view k \<Longrightarrow> P (r, k')) \<Longrightarrow> returns (fault_map a v k) P"
  by (auto simp: fault_map_def returns_def andThen_eq_Inr split: if_splits)

lemma handle_pagefault_view [same]: "(\<And>r k'. table_view k' = table_view k \<Longrightarrow> P (r, k')) \<Longrightarrow> returns (handle_pagefault a k) P"
  by (auto simp: handle_pagefault_def Let_def intro!: same dest!: view_more split: option.split prod.split)

lemma growproc_view [same]: "(\<And>r k'. table_view k' = table_view k \<Longrightarrow> P (r, k')) \<Longrightarrow> returns (growproc n k) P"
  by (auto simp: growproc_def switchuvm_def Let_def intro!: same dest!: view_more)

lemma wmap_pview: "wmap a len fl fd p = (r, q) \<Longrightarrow> pview q = pview p"
  by (auto simp: wmap_def add_mapping_def pview_def Let_def split: if_splits)

lemma user_writes_view [same]: "(\<And>k'. table_view k' = table_view k \<Longrightarrow> P k') \<Longrightarrow> returns (user_writes ws k) P"
  by (induction ws k arbitrary: P rule: user_writes.induct) (auto split: option.split)

lemma with_arg_view [same]:
  "(\<And>x. x = Some (-1) \<Longrightarrow> P (x, k)) \<Longrightarrow> (\<And>a. returns (f a) P) \<Longrightarrow> returns (with_arg r k f) P"
  by (auto simp: with_arg_def returns_def andThen_eq_Inr split: option.splits)

text \<open>The system calls that change no process state: they return, and the table is as before.\<close>

definition quiet_call :: "(kernel \<Rightarrow> (cint option \<times> kernel) res) \<Rightarrow> bool" where
  "quiet_call f \<longleftrightarrow> (\<forall>k. returns (f k) (\<lambda>(r, k'). table_view k' = table_view k \<and> r \<noteq> None))"

lemma fdalloc_view [simp]: "fdalloc f k = (r, k') \<Longrightarrow> table_view k' = table_view k"
  by (auto simp: fdalloc_def split: option.splits)

lemma fetch_any [same]:
  "(\<And>x. P x) \<Longrightarrow> returns (argstr n k) P" "(\<And>x. Q x) \<Longrightarrow> returns (argint n k) Q" "(\<And>x. R x) \<Longrightarrow> returns (my_cwd l) R"
  by (simp_all add: returns_def)

lemma in_cwd_view [same]: "(\<And>r k'. table_view k' = table_view k \<Longrightarrow> r \<noteq> None \<Longrightarrow> P (r, k')) \<Longrightarrow> returns (in_cwd f k) P"
  by (auto simp: in_cwd_def my_cwd_def intro!: same dest!: view_more split: option.split)

lemma open_fail_view [same]: "(\<And>r k'. table_view k' = table_view k \<Longrightarrow> r \<noteq> None \<Longrightarrow> P (r, k')) \<Longrightarrow> returns (open_fail f ip k) P"
  by (auto simp: open_fail_def intro!: same dest!: view_more split: option.split)

lemma open_file_view [same]: "(\<And>r k'. table_view k' = table_view k \<Longrightarrow> r \<noteq> None \<Longrightarrow> P (r, k')) \<Longrightarrow> returns (open_file ip m k) P"
  by (auto simp: open_file_def intro!: same dest!: view_more dest: filealloc_more fdalloc_view split: option.split prod.split)

lemma quiet_file_calls:
  "quiet_call sys_dup" "quiet_call sys_read" "quiet_call sys_write" "quiet_call sys_close" "quiet_call sys_fstat"
  by (auto simp: quiet_call_def sys_dup_def sys_read_def sys_write_def sys_close_def sys_fstat_def Let_def
      intro!: same dest!: view_more split: option.split prod.split)

lemma quiet_name_calls:
  "quiet_call sys_link" "quiet_call sys_unlink" "quiet_call sys_open" "quiet_call sys_mkdir" "quiet_call sys_mknod" "quiet_call sys_chdir"
  by (auto simp: quiet_call_def sys_link_def sys_unlink_def sys_open_def sys_mkdir_def sys_mknod_def sys_chdir_def Let_def
      intro!: same dest!: view_more split: option.split prod.split)

lemma quiet_proc_calls:
  "quiet_call sys_getpid" "quiet_call sys_sbrk" "quiet_call sys_uptime" "quiet_call sys_wunmap" "quiet_call sys_wremap"
  "quiet_call sys_getpgdirinfo" "quiet_call sys_getwmapinfo"
  by (auto simp: quiet_call_def sys_getpid_def sys_sbrk_def sys_uptime_def sys_wunmap_def sys_wremap_def
      sys_getpgdirinfo_def sys_getwmapinfo_def Let_def intro!: same)

lemma quiet_more_calls: "quiet_call sys_pipe" "quiet_call sys_wmap"
proof -
  show "quiet_call sys_pipe"
    by (auto simp: quiet_call_def sys_pipe_def close_both_def clear_fd_def intro!: same dest!: view_more
        dest: fdalloc_view split: option.split prod.split)
  show "quiet_call sys_wmap"
    by (auto simp: quiet_call_def sys_wmap_def table_view_def my_update_def proc_update_def myproc_def fun_eq_iff
        intro!: same dest: wmap_pview split: prod.split)
qed

subsection \<open>Steps in which the running process keeps the processor\<close>

definition evolves :: "sview \<Rightarrow> sview \<Rightarrow> bool" where
  "evolves v v' \<longleftrightarrow> life\<^sup>*\<^sup>* v v' \<and> scur v' = scur v \<and> (running v \<longrightarrow> running v')"

lemma evolves_refl [simp]: "evolves v v"
  by (simp add: evolves_def)

lemma evolves_trans: "evolves u v \<Longrightarrow> evolves v w \<Longrightarrow> evolves u w"
  by (auto simp: evolves_def)

lemma table_view_sel [simp]:
  "sp (table_view k) p = pview (procs k p)" "scur (table_view k) = cur k" "snext (table_view k) = nextpid k"
  by (simp_all add: table_view_def)

lemma running_view [simp]: "running (table_view k) \<longleftrightarrow> p_state (myproc k) = RUNNING"
  by (simp add: running_def pview_def myproc_def)

lemma evolves_swake: "evolves v (swake W v)"
proof -
  have "life\<^sup>*\<^sup>* v (swake W v)" by (rule r_into_rtranclp, rule life.wake)
  then show ?thesis by (simp add: evolves_def running_def swake_def)
qed

lemma view_wakeup1: "table_view (wakeup1 c k) = swake {p. p < NPROC \<and> p_chan (procs k p) = c} (table_view k)"
  by (auto simp: table_view_def swake_def wakeup1_def wake_if_def pview_def)

lemma evolves_wakeup1: "evolves (table_view k) (table_view (wakeup1 c k))"
  by (simp add: view_wakeup1 evolves_swake)

lemma evolves_flush: "evolves (table_view k) (table_view (flush_wakeups k))"
proof -
  have "evolves (table_view k) (table_view (fold wakeup cs k))" for cs
    by (induction cs arbitrary: k) (auto simp: wakeup_def intro: evolves_trans evolves_wakeup1)
  then show ?thesis by (simp add: flush_wakeups_def)
qed

lemma view_proc_update: "table_view (proc_update p f k) = sset p (\<lambda>_. pview (f (procs k p))) (table_view k)"
  by (auto simp: table_view_def proc_update_def sset_def)

lemma view_reparent: "table_view (proc_update p (\<lambda>x. x\<lparr>p_parent := q\<rparr>) k) = table_view k"
  by (auto simp: table_view_def proc_update_def pview_def)

lemma evolves_reparent: "evolves (table_view k) (table_view (reparent n p k))"
proof (induction n arbitrary: p k)
  case (Suc n)
  let ?k = "proc_update p (\<lambda>x. x\<lparr>p_parent := initproc k\<rparr>) k"
  have a: "evolves (table_view k) (table_view (reparent n q ?k))" for q
    using Suc.IH [of ?k q] by (simp add: view_reparent)
  have b: "evolves (table_view k) (table_view (reparent n q (wakeup1 c ?k)))" for q c
    using evolves_trans [OF evolves_wakeup1 [of ?k c] Suc.IH [of "wakeup1 c ?k" q]] by (simp add: view_reparent)
  show ?case using Suc.IH [of k] a b by (simp add: Let_def)
qed simp

lemma evolves_kill: "kill pid k = (r, k') \<Longrightarrow> evolves (table_view k) (table_view k')"
proof -
  have upd: "table_view (proc_update p (\<lambda>x. x\<lparr>p_killed := True, p_state := (if p_state x = SLEEPING then RUNNABLE else p_state x)\<rparr>) k)
    = swake {p} (table_view k)" for p
    by (auto simp: table_view_def proc_update_def swake_def pview_def)
  have "kill_loop n p pid k = (r, k') \<Longrightarrow> evolves (table_view k) (table_view k')" for n p
    by (induction n arbitrary: p) (auto simp: upd evolves_swake split: if_splits)
  then show "kill pid k = (r, k') \<Longrightarrow> evolves (table_view k) (table_view k')" by (simp add: kill_def)
qed

subsection \<open>Creating and reaping\<close>

lemma allocproc_view:
  assumes "allocproc k = (r, k')"
  shows "case r of
      None \<Rightarrow> evolves (table_view k) (table_view k')
    | Some p \<Rightarrow> p < NPROC \<and> p_state (procs k p) = UNUSED \<and> p_kstack (procs k' p) \<noteq> 0 \<and>
        table_view k' = (sset p (\<lambda>_. \<lparr>s_state = EMBRYO, s_pid = nextpid k, s_kstack = p_kstack (procs k' p),
          s_pgdir = p_pgdir (procs k p)\<rparr>) (table_view k))\<lparr>snext := nextpid k + 1\<rparr>"
proof (cases "find_unused NPROC 0 (procs k)")
  case None
  then show ?thesis using assms by (auto simp: allocproc_def)
next
  case (Some p)
  then have p: "p < 64" "p_state (procs k p) = UNUSED" using find_unused_is [of 64 0] by simp_all
  obtain v m where v: "kalloc (km k) = (v, m)" by fastforce
  show ?thesis
  proof (cases "v = 0")
    case True
    then have "r = None" "table_view k' = (sset p (\<lambda>_. \<lparr>s_state = UNUSED, s_pid = nextpid k, s_kstack = 0,
        s_pgdir = p_pgdir (procs k p)\<rparr>) (table_view k))\<lparr>snext := snext (table_view k) + 1\<rparr>"
      using assms Some v by (auto simp: allocproc_def proc_update_def table_view_def sset_def pview_def)
    moreover have "life (table_view k) (table_view k')"
      unfolding calculation(2) by (rule life.not_created) (use p in \<open>simp_all add: pview_def\<close>)
    ultimately show ?thesis using p
      by (auto simp: evolves_def running_def sset_def pview_def split: if_splits)
  next
    case False
    then have "r = Some p" "p_kstack (procs k' p) = v" "table_view k' = (sset p (\<lambda>_. \<lparr>s_state = EMBRYO, s_pid = nextpid k,
        s_kstack = v, s_pgdir = p_pgdir (procs k p)\<rparr>) (table_view k))\<lparr>snext := nextpid k + 1\<rparr>"
      using assms Some v by (auto simp: allocproc_def proc_update_def table_view_def sset_def pview_def init_kstack_def Let_def)
    then show ?thesis using p False by simp
  qed
qed

lemma evolves_life: "life v v' \<Longrightarrow> scur v' = scur v \<Longrightarrow> (running v \<Longrightarrow> running v') \<Longrightarrow> evolves v v'"
  by (auto simp: evolves_def)

lemma evolves_sset:
  assumes "life v v'" "sp v' = (sp v)(p := q)" "scur v' = scur v" "s_state (sp v p) \<noteq> RUNNING"
  shows "evolves v v'"
  using assms(1,3) by (rule evolves_life) (use assms(2-4) in \<open>auto simp: running_def\<close>)

text \<open>A process table entry that \<^verbatim>\<open>fork\<close> has filled in, or given back.\<close>

lemma child_view:
  assumes "allocproc k = (Some p, k1)" "table_view k2 = table_view k1" "table_view k3 = sset p (\<lambda>_. c) (table_view k2)"
    and "s_state c = UNUSED \<or> c = \<lparr>s_state = RUNNABLE, s_pid = p_pid (procs k2 p), s_kstack = p_kstack (procs k2 p), s_pgdir = d\<rparr> \<and> d \<noteq> 0"
  shows "evolves (table_view k) (table_view k3)"
proof -
  let ?v = "table_view k"
  have a: "p < 64" "p_state (procs k p) = UNUSED" "p_kstack (procs k1 p) \<noteq> 0"
    "table_view k1 = (sset p (\<lambda>_. \<lparr>s_state = EMBRYO, s_pid = nextpid k, s_kstack = p_kstack (procs k1 p),
       s_pgdir = p_pgdir (procs k p)\<rparr>) ?v)\<lparr>snext := nextpid k + 1\<rparr>"
    using allocproc_view [OF assms(1)] by simp_all
  have v3: "table_view k3 = (sset p (\<lambda>_. c) ?v)\<lparr>snext := snext ?v + 1\<rparr>"
    using assms(2,3) a(4) by (simp add: sset_def)
  have "pview (procs k2 p) = pview (procs k1 p)"
    using arg_cong [OF assms(2), of "\<lambda>v. sp v p"] by simp
  moreover have "pview (procs k1 p) = \<lparr>s_state = EMBRYO, s_pid = nextpid k, s_kstack = p_kstack (procs k1 p),
       s_pgdir = p_pgdir (procs k p)\<rparr>"
    using arg_cong [OF a(4), of "\<lambda>v. sp v p"] by (simp add: sset_def)
  ultimately have c: "p_pid (procs k2 p) = snext ?v" "p_kstack (procs k2 p) = p_kstack (procs k1 p)"
    by (simp_all add: pview_def)
  have u: "s_state (sp ?v p) = UNUSED" using a(2) by (simp add: pview_def)
  have "life ?v (table_view k3)"
    using assms(4)
  proof
    assume "s_state c = UNUSED"
    then show ?thesis unfolding v3 using a(1) u by (intro life.not_created)
  next
    assume "c = \<lparr>s_state = RUNNABLE, s_pid = p_pid (procs k2 p), s_kstack = p_kstack (procs k2 p), s_pgdir = d\<rparr> \<and> d \<noteq> 0"
    then show ?thesis unfolding v3 c using life.created [OF a(1) u a(3), of d] by blast
  qed
  then show ?thesis by (rule evolves_sset [where p = p and q = c]) (simp_all add: u v3 sset_def del: table_view_sel(1))
qed

lemma fork_view [same]:
  assumes "\<And>r k'. evolves (table_view k) (table_view k') \<Longrightarrow> P (r, k')"
  shows "returns (fork k) P"
proof (cases "allocproc k")
  case (Pair q k1)
  show ?thesis
  proof (cases q)
    case None
    then show ?thesis using allocproc_view [OF Pair] assms Pair by (simp add: fork_def)
  next
    case (Some p)
    note al = Pair [unfolded Some]
    have bad: "evolves (table_view k) (table_view (proc_update p f k3))"
      if "table_view k3 = table_view k1" "p_state (f (procs k3 p)) = UNUSED" for f k3
      by (rule child_view [OF al that(1) view_proc_update]) (simp add: that(2) pview_def)
    have good: "evolves (table_view k) (table_view (proc_update p f k4))"
      if "table_view k4 = table_view k1" "p_pgdir (f (procs k4 p)) \<noteq> 0" "p_state (f (procs k4 p)) = RUNNABLE"
        "p_pid (f (procs k4 p)) = p_pid (procs k4 p)" "p_kstack (f (procs k4 p)) = p_kstack (procs k4 p)" for f k4
      by (rule child_view [OF al that(1) view_proc_update]) (use that in \<open>simp add: pview_def\<close>)
    show ?thesis
      using al by (auto simp: fork_def Let_def good bad intro!: same assms dest!: view_more)
  qed
qed

lemma wait_scan_Some:
  "wait_scan n p me t b = (Some c, h) \<Longrightarrow> c < p + n \<and> p_state (t c) = ZOMBIE"
  by (induction n arbitrary: p b) (fastforce split: if_splits)+

lemma view_gives_up:
  assumes "p_state (myproc k) = RUNNING" "st \<in> {SLEEPING, RUNNABLE, ZOMBIE}" "\<And>p. pview (f p) = (pview p)\<lparr>s_state := st\<rparr>"
  shows "life (table_view k) (table_view (my_update f k))"
proof -
  have "table_view (my_update f k) = sset (scur (table_view k)) (\<lambda>q. q\<lparr>s_state := st\<rparr>) (table_view k)"
    using assms(3) by (simp add: my_update_def view_proc_update sset_def)
  then show ?thesis using life.gives_up [of "table_view k" st] assms(1,2) by simp
qed

lemma sched_returns [simp]: "sched k = Inr k' \<longleftrightarrow> p_state (myproc k) \<noteq> RUNNING \<and> k' = k"
  by (auto simp: sched_def)

lemma sleep_view [same]:
  assumes "p_state (myproc k) = RUNNING" "\<And>k'. life\<^sup>*\<^sup>* (table_view k) (table_view k') \<Longrightarrow> P k'"
  shows "returns (sleep c k) P"
  using assms r_into_rtranclp [of life, OF view_gives_up [OF assms(1), of SLEEPING "\<lambda>p. p\<lparr>p_chan := Some c, p_state := SLEEPING\<rparr>"]]
  by (auto simp: sleep_def returns_def pview_def)

lemma yield_view [same]:
  assumes "p_state (myproc k) = RUNNING" "\<And>k'. life\<^sup>*\<^sup>* (table_view k) (table_view k') \<Longrightarrow> P k'"
  shows "returns (yield k) P"
  using assms r_into_rtranclp [of life, OF view_gives_up [OF assms(1), of RUNNABLE "\<lambda>p. p\<lparr>p_state := RUNNABLE\<rparr>"]]
  by (auto simp: yield_def returns_def pview_def)

lemma exit_unmap_view [same]: "(\<And>k'. table_view k' = table_view k \<Longrightarrow> P k') \<Longrightarrow> returns (exit_unmap n i k) P"
  by (induction n arbitrary: i k P) (auto intro!: wunmap_view)

lemma close_files_view [same]: "(\<And>k'. table_view k' = table_view k \<Longrightarrow> P k') \<Longrightarrow> returns (close_files n fd k) P"
  by (induction n arbitrary: fd k P) (auto intro!: fileclose_more dest!: view_more split: option.split)

lemma evolves_running: "evolves (table_view k) (table_view k') \<Longrightarrow> p_state (myproc k) = RUNNING \<Longrightarrow> p_state (myproc k') = RUNNING"
  by (simp add: evolves_def)

lemma view_running: "table_view k' = table_view k \<Longrightarrow> p_state (myproc k') = p_state (myproc k)"
proof -
  assume a: "table_view k' = table_view k"
  have "pview (procs k' (cur k)) = pview (procs k (cur k))" "cur k' = cur k"
    using arg_cong [OF a, of "\<lambda>v. sp v (cur k)"] arg_cong [OF a, of scur] by simp_all
  then show ?thesis by (simp add: pview_def myproc_def)
qed

lemma exit_view [same]:
  assumes "p_state (myproc k) = RUNNING" "\<And>k'. life\<^sup>*\<^sup>* (table_view k) (table_view k') \<Longrightarrow> P k'"
  shows "returns (exit k) P"
proof -
  have fin: "returns (sched (my_update (\<lambda>x. x\<lparr>p_state := ZOMBIE\<rparr>) (reparent n p (wakeup1 c (flush_wakeups k6))))) P"
    if v: "table_view k6 = table_view k" for k6 n p c
  proof -
    let ?k = "reparent n p (wakeup1 c (flush_wakeups k6))"
    let ?z = "my_update (\<lambda>x. x\<lparr>p_state := ZOMBIE\<rparr>) ?k"
    have e: "evolves (table_view k) (table_view ?k)"
      unfolding v [symmetric] by (rule evolves_trans [OF evolves_flush evolves_trans [OF evolves_wakeup1 evolves_reparent]])
    have "life (table_view ?k) (table_view ?z)"
      using evolves_running [OF e assms(1)] by (rule view_gives_up [of _ ZOMBIE]) (simp_all add: pview_def)
    moreover have "life\<^sup>*\<^sup>* (table_view k) (table_view ?k)" using e unfolding evolves_def by blast
    ultimately have "life\<^sup>*\<^sup>* (table_view k) (table_view ?z)" by (rule rtranclp.rtrancl_into_rtrancl [rotated])
    then have "P ?z" by (rule assms(2))
    then show ?thesis by (simp add: returns_def)
  qed
  show ?thesis
    unfolding exit_def returns_simps Let_def
    apply (rule exit_unmap_view)
    apply (simp only: returns_simps split: if_split, intro conjI impI TrueI)
    apply (rule close_files_view, rule lift_more(1), rule fetch_any(3), rule lift_more(1), rule lift_more(1))
    apply (rule fin)
    apply (drule view_more)+
    apply (simp only: view_my_update_fields)
    done
qed

lemma wait_view [same]:
  assumes "p_state (myproc k) = RUNNING" "\<And>r k'. life\<^sup>*\<^sup>* (table_view k) (table_view k') \<Longrightarrow>
    (r \<noteq> None \<Longrightarrow> evolves (table_view k) (table_view k')) \<Longrightarrow> P (r, k')"
  shows "returns (wait k) P"
proof (cases "wait_scan NPROC 0 (cur k) (procs k) False")
  case (Pair q h)
  show ?thesis
  proof (cases q)
    case None
    then show ?thesis using Pair assms by (auto simp: wait_def intro!: same)
  next
    case (Some c)
    then have c: "c < 64" "p_state (procs k c) = ZOMBIE" using wait_scan_Some Pair by fastforce+
    have "evolves (table_view k) (table_view (proc_update c f k'))"
      if k': "table_view k' = table_view k" and f: "\<And>x. pview (f x) = (pview x)\<lparr>s_state := UNUSED, s_pid := 0, s_kstack := 0\<rparr>" for f k'
    proof -
      have v: "table_view (proc_update c f k') = sset c (\<lambda>q. q\<lparr>s_state := UNUSED, s_pid := 0, s_kstack := 0\<rparr>) (table_view k)"
        unfolding view_proc_update k' using f arg_cong [OF k', of "\<lambda>v. sp v c"] by (simp add: sset_def)
      have "life (table_view k) (table_view (proc_update c f k'))"
        unfolding v by (rule life.reaped) (use c in \<open>simp_all add: pview_def\<close>)
      then show ?thesis by (rule evolves_sset [where p = c]) (simp_all add: v sset_def, simp add: c pview_def)
    qed
    then have "P (r, proc_update c f k')"
      if vf: "table_view k' = table_view k" "\<And>x. pview (f x) = (pview x)\<lparr>s_state := UNUSED, s_pid := 0, s_kstack := 0\<rparr>" for r f k'
      using vf assms(2) [of "proc_update c f k'" r] unfolding evolves_def by blast
    then show ?thesis using Pair Some by (auto simp: wait_def pview_def intro!: same dest!: view_more)
  qed
qed

subsection \<open>Loading a program\<close>

lemma kreadi_more [same]: "(\<And>r k'. fstate.more k' = fstate.more k \<Longrightarrow> P (r, k')) \<Longrightarrow> returns (kreadi ip off n k) P"
  by (auto simp: kreadi_def intro!: same)

lemma loaduvm_more [same]: "(\<And>r k'. fstate.more k' = fstate.more k \<Longrightarrow> P (r, k')) \<Longrightarrow> returns (loaduvm d a ip off sz k) P"
proof -
  have "(\<And>r k'. fstate.more k' = fstate.more k \<Longrightarrow> P (r, k')) \<Longrightarrow> returns (loaduvm_loop n d a ip off sz i k) P" for n i
    by (induction n arbitrary: i k P) (auto simp: Let_def intro!: kreadi_more split: prod.split)
  then show "(\<And>r k'. fstate.more k' = fstate.more k \<Longrightarrow> P (r, k')) \<Longrightarrow> returns (loaduvm d a ip off sz k) P"
    by (simp add: loaduvm_def)
qed

lemma load_segments_more [same]:
  "(\<And>r k'. fstate.more k' = fstate.more k \<Longrightarrow> P (r, k')) \<Longrightarrow> returns (load_segments n off sz d ip k) P"
  by (induction n arbitrary: off sz k P) (auto simp: Let_def intro!: kreadi_more loaduvm_more lift_more)

lemma exec_stack_more [same]: "(\<And>r k'. fstate.more k' = fstate.more k \<Longrightarrow> P (r, k')) \<Longrightarrow> returns (exec_stack d sz argv k) P"
  by (auto simp: exec_stack_def Let_def intro!: lift_more split: option.split prod.split)

lemma exec_bad_view [same]: "(\<And>r k'. table_view k' = table_view k \<Longrightarrow> P (r, k')) \<Longrightarrow> returns (exec_bad d ip k) P"
  by (auto simp: exec_bad_def intro!: lift_more dest!: view_more split: option.split)

lemma exec_commit_view [same]:
  assumes "p_state (myproc k) = RUNNING" "d \<noteq> 0" "\<And>r k'. evolves (table_view k) (table_view k') \<Longrightarrow> P (r, k')"
  shows "returns (exec_commit path d sz stk entry k) P"
proof -
  have "evolves (table_view k) (table_view (my_update f k))" if "\<And>x. pview (f x) = (pview x)\<lparr>s_pgdir := d\<rparr>" for f
  proof -
    have v: "table_view (my_update f k) = sset (scur (table_view k)) (\<lambda>q. q\<lparr>s_pgdir := d\<rparr>) (table_view k)"
      using that by (simp add: my_update_def view_proc_update sset_def)
    have "life (table_view k) (table_view (my_update f k))"
      unfolding v by (rule life.new_image) (simp_all add: assms)
    then show ?thesis by (rule evolves_life) (simp_all only: v, simp_all add: sset_def running_def)
  qed
  then show ?thesis
    by (auto simp: exec_commit_def switchuvm_def Let_def pview_def intro!: lift_more assms(3) dest!: view_more)
qed

lemma exec_view [same]:
  assumes "p_state (myproc k) = RUNNING" "\<And>r k'. evolves (table_view k) (table_view k') \<Longrightarrow> P (r, k')"
  shows "returns (exec path argv k) P"
proof -
  have keep: "P (r, k')" if "table_view k' = table_view k" for r k'
    by (rule assms(2)) (simp add: that)
  have commit: "returns (exec_commit path d sz stk entry k') P" if "table_view k' = table_view k" "d \<noteq> 0" for d sz stk entry k'
    by (rule exec_commit_view) (use that assms view_running [OF that(1)] in simp_all)
  have "returns (exec_image path argv ip k') P" if "table_view k' = table_view k" for ip k'
    using that by (auto simp: exec_image_def Let_def intro!: kreadi_more lift_more load_segments_more exec_stack_more
        exec_bad_view keep commit dest!: view_more split: option.split prod.split)
  then show ?thesis
    by (auto simp: exec_def intro!: lift_more fetch_any keep dest!: view_more split: option.split)
qed

subsection \<open>System calls and traps\<close>

definition call_ok :: "(kernel \<Rightarrow> (cint option \<times> kernel) res) \<Rightarrow> bool" where
  "call_ok f \<longleftrightarrow> (\<forall>k. p_state (myproc k) = RUNNING \<longrightarrow> returns (f k) (\<lambda>(r, k').
     life\<^sup>*\<^sup>* (table_view k) (table_view k') \<and> (r \<noteq> None \<longrightarrow> evolves (table_view k) (table_view k'))))"

lemma quiet_call_ok: "quiet_call f \<Longrightarrow> call_ok f"
  unfolding quiet_call_def call_ok_def by (intro allI impI, drule spec, erule returns_mono) auto

lemma evolves_lives: "evolves u v \<Longrightarrow> life\<^sup>*\<^sup>* u v"
  by (simp add: evolves_def)

lemma loud_calls: "call_ok sys_fork" "call_ok sys_exit" "call_ok sys_wait" "call_ok sys_kill" "call_ok sys_exec" "call_ok sys_sleep"
proof -
  show "call_ok sys_fork" by (auto simp: call_ok_def sys_fork_def intro!: fork_view intro: evolves_lives)
  show "call_ok sys_exit" by (auto simp: call_ok_def sys_exit_def intro!: exit_view)
  show "call_ok sys_wait" by (auto simp: call_ok_def sys_wait_def intro!: wait_view)
  show "call_ok sys_kill"
    by (auto simp: call_ok_def sys_kill_def intro!: with_arg_view intro: evolves_kill evolves_lives [OF evolves_kill] split: prod.split)
  show "call_ok sys_exec"
    by (auto simp: call_ok_def sys_exec_def intro!: with_arg_view exec_view evolves_lives)
  show "call_ok sys_sleep"
    by (auto simp: call_ok_def sys_sleep_def sleep_check_def intro!: with_arg_view sleep_view)
qed

lemma syscalls_ok: "\<forall>f \<in> set syscalls. call_ok f"
  by (simp add: syscalls_def loud_calls quiet_call_ok quiet_file_calls quiet_name_calls quiet_proc_calls quiet_more_calls)

lemma call_okD:
  assumes "f \<in> set syscalls" "p_state (myproc k) = RUNNING"
    and "\<And>r k'. life\<^sup>*\<^sup>* (table_view k) (table_view k') \<Longrightarrow> (r \<noteq> None \<Longrightarrow> evolves (table_view k) (table_view k')) \<Longrightarrow> P (r, k')"
  shows "returns (f k) P"
proof -
  have "call_ok f" using syscalls_ok assms(1) by blast
  then have "returns (f k) (\<lambda>(r, k'). life\<^sup>*\<^sup>* (table_view k) (table_view k') \<and> (r \<noteq> None \<longrightarrow> evolves (table_view k) (table_view k')))"
    using assms(2) unfolding call_ok_def by blast
  then show ?thesis by (rule returns_mono) (use assms(3) in auto)
qed

lemma view_set_eax [simp]: "table_view (set_eax v k) = table_view k"
  by (simp add: set_eax_def)

lemma sint_bounds:
  assumes "0 <s (w :: cint)" "sint w \<le> int n"
  shows "0 < unat w" "unat w \<le> n"
proof -
  have u: "0 < unat w" "unat w < 2147483648" using assms(1) signed_pos [of w] by (simp_all add: word_sless_alt word_sle_eq)
  then show "0 < unat w" by simp
  have "int (unat w) \<le> int n" using assms(2) u(2) sint32 [of w] by metis
  then show "unat w \<le> n" by (simp only: of_nat_le_iff)
qed

lemma syscall_view:
  assumes "p_state (myproc k) = RUNNING"
    and "\<And>b k'. life\<^sup>*\<^sup>* (table_view k) (table_view k') \<Longrightarrow> (b \<Longrightarrow> evolves (table_view k) (table_view k')) \<Longrightarrow> P (b, k')"
  shows "returns (syscall k) P"
proof (cases "0 <s tf_eax (p_tf (myproc k)) \<and> sint (tf_eax (p_tf (myproc k))) \<le> int (length syscalls)")
  case True
  let ?n = "unat (tf_eax (p_tf (myproc k)))"
  have "0 < ?n" "?n \<le> length syscalls"
    using sint_bounds [of "tf_eax (p_tf (myproc k))" "length syscalls"] True by simp_all
  then have f: "syscalls ! (?n - 1) \<in> set syscalls" by simp
  have fin: "P (case r of None \<Rightarrow> (False, flush_wakeups k1) | Some v \<Rightarrow> (True, set_eax v (flush_wakeups k1)))"
    if "life\<^sup>*\<^sup>* (table_view k) (table_view k1)" "r \<noteq> None \<Longrightarrow> evolves (table_view k) (table_view k1)" for r k1
  proof -
    have l: "life\<^sup>*\<^sup>* (table_view k) (table_view (flush_wakeups k1))"
      using that(1) evolves_lives [OF evolves_flush] by (rule rtranclp_trans)
    have e: "r \<noteq> None \<Longrightarrow> evolves (table_view k) (table_view (flush_wakeups k1))"
      using evolves_trans [OF that(2) evolves_flush] .
    show ?thesis using l e by (cases r) (simp_all add: assms(2))
  qed
  show ?thesis unfolding syscall_def Let_def if_P [OF True] returns_simps
    by (rule call_okD [OF f assms(1)], simp only: prod.case returns_simps, rule fin) blast+
next
  case False
  have "P (True, set_eax v k1)" if "fstate.more k1 = fstate.more k" for v k1
    by (rule assms(2)) (simp_all add: view_more [OF that])
  then show ?thesis unfolding syscall_def Let_def if_not_P [OF False] returns_simps
    by (intro lift_more) simp
qed

lemma killed_exit_view:
  assumes "b \<Longrightarrow> p_state (myproc k) = RUNNING" "\<And>k'. life\<^sup>*\<^sup>* (table_view k) (table_view k') \<Longrightarrow> P k'" "returns (go k) P"
  shows "returns (killed_exit b tf k go) P"
  using assms by (auto simp: killed_exit_def intro!: exit_view)

lemma trap_return_view:
  assumes "b \<Longrightarrow> p_state (myproc k) = RUNNING" "\<And>k'. life\<^sup>*\<^sup>* (table_view k) (table_view k') \<Longrightarrow> P k'"
  shows "returns (trap_return b tf k) P"
  unfolding trap_return_def
  by (rule killed_exit_view) (use assms in \<open>auto intro!: yield_view killed_exit_view\<close>)

text \<open>The same after code that the interrupted process survives.\<close>

lemma trap_return_after:
  assumes "b \<Longrightarrow> p_state (myproc k) = RUNNING" "evolves (table_view k) (table_view k1)"
    and P: "\<And>k'. life\<^sup>*\<^sup>* (table_view k) (table_view k') \<Longrightarrow> P k'"
  shows "returns (trap_return b tf k1) P"
proof (rule trap_return_view)
  show "p_state (myproc k1) = RUNNING" if b using evolves_running [OF assms(2)] assms(1) that by blast
  show "P k'" if "life\<^sup>*\<^sup>* (table_view k1) (table_view k')" for k'
    by (rule P, rule rtranclp_trans [OF evolves_lives [OF assms(2)] that])
qed

lemma con_intr_view: "(\<And>k'. evolves (table_view k) (table_view k') \<Longrightarrow> P k') \<Longrightarrow> returns (con_intr f k) P"
proof -
  assume P: "\<And>k'. evolves (table_view k) (table_view k') \<Longrightarrow> P k'"
  have "evolves (table_view k) (table_view (wakeup ChanInput (k\<lparr>fs := s\<rparr>)))" for s
    using evolves_wakeup1 [of "k\<lparr>fs := s\<rparr>"] by (simp add: wakeup_def)
  then show ?thesis by (auto simp: con_intr_def returns_def andThen_eq_Inr Let_def intro!: P)
qed

lemma timer_tick_view: "evolves (table_view k) (table_view (timer_tick cpu k))"
  using evolves_wakeup1 [of "k\<lparr>ticks := ticks k + 1\<rparr>"] by (simp add: timer_tick_def wakeup_def)

lemma trap_syscall_view:
  assumes "p_state (myproc k) = RUNNING" "\<And>k'. life\<^sup>*\<^sup>* (table_view k) (table_view k') \<Longrightarrow> P k'"
  shows "returns (trap_syscall tf k) P"
proof -
  let ?k = "my_update (\<lambda>p. p\<lparr>p_tf := tf\<rparr>) k"
  have v: "table_view ?k = table_view k" by (simp add: view_my_update pview_def)
  have r: "p_state (myproc ?k) = RUNNING" using view_running [OF v] assms(1) by simp
  have ex: "returns (exit k1) P" if e: "evolves (table_view k) (table_view k1)" for k1
    by (rule exit_view [OF evolves_running [OF e assms(1)]]) (rule assms(2), rule rtranclp_trans [OF evolves_lives [OF e]])
  have "returns (if b \<and> p_killed (myproc k1) then exit k1 else Inr k1) P"
    if "life\<^sup>*\<^sup>* (table_view ?k) (table_view k1)" "b \<Longrightarrow> evolves (table_view ?k) (table_view k1)" for b k1
    using that ex assms(2) by (simp add: v)
  then have "returns (syscall ?k) (\<lambda>(b, k1). returns (if b \<and> p_killed (myproc k1) then exit k1 else Inr k1) P)"
    by (intro syscall_view [OF r]) simp
  then show ?thesis
    using ex [of k] by (auto simp: trap_syscall_def elim!: returns_mono)
qed

lemma trap_other_view:
  "(\<And>k'. table_view k' = table_view k \<Longrightarrow> P k') \<Longrightarrow> returns (trap_other cpu b cr2 tf k) P"
  by (auto simp: trap_other_def intro!: lift_more dest!: view_more)

lemma trap_view:
  assumes run: "b \<Longrightarrow> p_state (myproc k) = RUNNING" "\<not> b \<Longrightarrow> tf_trapno tf \<noteq> T_SYSCALL"
    and P: "\<And>k'. life\<^sup>*\<^sup>* (table_view k) (table_view k') \<Longrightarrow> P k'"
  shows "returns (trap cpu b cr2 tf k) P"
proof -
  have after: "returns (trap_return c tf k1) P" if "c = b" "evolves (table_view k) (table_view k1)" for c k1
    unfolding that(1) by (rule trap_return_after [OF run(1) that(2) P])
  have same_view: "returns (trap_return c tf k1) P" if "c = b" "table_view k1 = table_view k" for c k1
    by (rule after) (simp_all add: that)
  have sys: "returns (trap_syscall tf k) P" if "tf_trapno tf = T_SYSCALL"
    by (rule trap_syscall_view) (use run that P in auto)
  have fault: "returns (handle_pagefault a k) (\<lambda>x. returns (case x of (r, k1) \<Rightarrow> if r \<noteq> 0 then trap_return b tf k1
      else andThen (kprint s as k1) exit) P)" if b for a s as
  proof (rule handle_pagefault_view)
    fix r and k1 :: kernel
    assume v: "table_view k1 = table_view k"
    have "returns (exit k2) P" if "table_view k2 = table_view k" for k2
      by (rule exit_view) (use view_running [OF that] run(1) \<open>b\<close> P that in simp_all)
    then show "returns (case (r, k1) of (r, k1) \<Rightarrow> if r \<noteq> 0 then trap_return b tf k1 else andThen (kprint s as k1) exit) P"
      using same_view [OF refl v] v by (auto intro!: lift_more dest!: view_more)
  qed
  show ?thesis
    using sys fault
    by (auto simp: trap_def Let_def intro!: after timer_tick_view lift_more(1,5) con_intr_view trap_other_view
        dest!: view_more)
qed

subsection \<open>The whole kernel\<close>

lemma pick_Some: "pick n p t = Some q \<Longrightarrow> p \<le> q \<and> q < p + n \<and> p_state (t q) = RUNNABLE"
  by (induction n arbitrary: p) (fastforce split: if_splits)+

lemma pick_None: "pick n p t = None \<Longrightarrow> p \<le> q \<Longrightarrow> q < p + n \<Longrightarrow> p_state (t q) \<noteq> RUNNABLE"
  using pick_first by fastforce

definition idle :: "'a kernel_scheme \<Rightarrow> bool" where
  "idle k \<longleftrightarrow> (\<forall>p < NPROC. p_state (procs k p) \<noteq> RUNNING)"

lemma schedule_life:
  assumes "idle k" "schedule p k = Inr (Some q, k')"
  shows "life (table_view k) (table_view k')"
proof -
  have q: "pick (NPROC - p) p (procs k) = Some q"
    using assms(2) by (auto simp: schedule_def andThen_eq_Inr split: option.splits)
  then have q64: "q < 64" "p_state (procs k q) = RUNNABLE" using pick_Some by fastforce+
  have "table_view k' = (sset q (\<lambda>x. x\<lparr>s_state := RUNNING\<rparr>) (table_view k))\<lparr>scur := q\<rparr>"
    using assms(2) q by (auto simp: schedule_def switchuvm_def proc_update_def table_view_def sset_def pview_def split: if_splits)
  then show ?thesis
    using life.dispatched [of "table_view k" q] q64 assms(1) by (simp add: idle_def pview_def)
qed

text \<open>
  One step of the machine: the running process traps, an interrupt finds the processor idle, the
  scheduler gives the processor to a process, or a process that has it back goes on, after a yield or
  by going through its system call again.
\<close>

inductive kernel_step :: "kernel \<Rightarrow> kernel \<Rightarrow> bool" where
  user_trap: "p_state (myproc k) = RUNNING \<Longrightarrow> trap cpu True cr2 tf k = Inr k' \<Longrightarrow> kernel_step k k'"
| idle_trap: "idle k \<Longrightarrow> tf_trapno tf \<noteq> T_SYSCALL \<Longrightarrow> trap cpu False cr2 tf k = Inr k' \<Longrightarrow> kernel_step k k'"
| dispatch: "idle k \<Longrightarrow> schedule p k = Inr (Some q, k') \<Longrightarrow> kernel_step k k'"
| resume: "p_state (myproc k) = RUNNING \<Longrightarrow> trap_resume tf k = Inr k' \<Longrightarrow> kernel_step k k'"
| call_again: "p_state (myproc k) = RUNNING \<Longrightarrow> syscall k = Inr (b, k') \<Longrightarrow> kernel_step k k'"

lemma step_life: "kernel_step k k' \<Longrightarrow> life\<^sup>*\<^sup>* (table_view k) (table_view k')"
proof (induction rule: kernel_step.induct)
  case (user_trap k cpu cr2 tf k')
  then show ?case using trap_view [of True k tf "\<lambda>k'. life\<^sup>*\<^sup>* (table_view k) (table_view k')" cpu cr2]
    by (simp add: returns_def)
next
  case (idle_trap k tf cpu cr2 k')
  then show ?case using trap_view [of False k tf "\<lambda>k'. life\<^sup>*\<^sup>* (table_view k) (table_view k')" cpu cr2]
    by (simp add: returns_def)
next
  case (resume k tf k')
  then show ?case using killed_exit_view [of True k "\<lambda>k'. life\<^sup>*\<^sup>* (table_view k) (table_view k')" Inr tf]
    by (simp add: returns_def trap_resume_def)
next
  case (call_again k b k')
  then show ?case using syscall_view [of k "\<lambda>(b, k'). life\<^sup>*\<^sup>* (table_view k) (table_view k')"]
    by (simp add: returns_def)
qed (rule r_into_rtranclp, rule schedule_life)

lemma steps_inv: "kernel_step\<^sup>*\<^sup>* k k' \<Longrightarrow> table_inv (table_view k) \<Longrightarrow> table_inv (table_view k')"
  by (induction rule: rtranclp_induct) (auto dest: step_life lives_inv)


definition kernel_ready :: kernel where
  "kernel_ready = my_update (\<lambda>p. p\<lparr>p_state := RUNNABLE\<rparr>) kernel_sample"

lemma kernel_ready_table:
  "procs kernel_ready = (\<lambda>i. if i = 0 then proc_sample\<lparr>p_state := RUNNABLE\<rparr> else proc_unused)" "cur kernel_ready = 0"
  by (auto simp: kernel_ready_def my_update_def proc_update_def kernel_sample_def)

lemma kernel_ready_inv: "table_inv (table_view kernel_ready)" "idle kernel_ready"
  by (auto simp: table_inv_def live_def idle_def pview_def kernel_ready_table proc_sample_def proc_unused_def)

lemma kernel_ready_dispatch: "\<exists>k'. schedule 0 kernel_ready = Inr (Some 0, k') \<and> p_state (myproc k') = RUNNING"
  by (simp add: schedule_def switchuvm_def kernel_ready_table proc_update_def myproc_def numeral_eq_Suc)
    (simp add: proc_sample_def)




end
