(* ===== verification/Dealloc.thy ===== *)
theory Dealloc
  imports Wmap_Spec Proc
begin

text \<open>
  Shrinking an address space. \<^verbatim>\<open>deallocuvm\<close> jumps over the 4 MB that an absent page table would cover; it
  is shown to do what the page-by-page loop of \<^verbatim>\<open>wunmap\<close> does. From this follows what \<^verbatim>\<open>deallocuvm\<close>
  frees and what \<^verbatim>\<open>growproc\<close> returns when a process gives memory back.
\<close>

subsection \<open>The loop that skips and the loop that does not\<close>

lemma unmap_pages_mono: "unmap_pages f pgdir a stop k = Inr k' \<Longrightarrow> unmap_pages (m + f) pgdir a stop k = Inr k'"
proof (induction f arbitrary: a k)
  case (Suc f)
  show ?case
  proof (cases "a < stop \<and> fst (walkpgdir pgdir a False k) \<noteq> 0 \<and> pte_read k (fst (walkpgdir pgdir a False k)) AND PTE_P \<noteq> 0")
    case True
    then show ?thesis using Suc.prems Suc.IH by (auto simp: Let_def andThen_eq_Inr split: prod.splits)
  next
    case False
    then show ?thesis using Suc.prems Suc.IH by (auto simp: Let_def split: prod.splits if_splits)
  qed
qed simp

lemma unat_page_offset:
  assumes "unat a + n * 4096 \<le> 0x80000000"
  shows "unat (a + of_nat n * PGSIZE) = unat a + n * 4096"
proof -
  have "unat (of_nat n * PGSIZE) = n * 4096" using assms unat_of_nat32 [of "n * 4096"] by simp
  then show ?thesis using assms by (simp only: unat_plus_if') simp
qed

lemma unmap_pages_skip:
  assumes "unat a + n * 4096 \<le> 0x80000000" "0 < f"
    and "\<And>v. unat a \<le> unat v \<Longrightarrow> unat v < unat a + n * 4096 \<Longrightarrow> \<not> pde_present (pmem k) pgdir (PDX v)"
  shows "unmap_pages (n + f) pgdir a stop k = unmap_pages f pgdir (a + of_nat n * PGSIZE) stop k"
  using assms(1,3)
proof (induction n arbitrary: a)
  case (Suc n)
  have a1: "unat (a + PGSIZE) = unat a + 4096" using Suc.prems(1) by (simp add: unat_plus_if')
  have ih: "unmap_pages (n + f) pgdir (a + PGSIZE) stop k = unmap_pages f pgdir (a + PGSIZE + of_nat n * PGSIZE) stop k"
    by (rule Suc.IH) (use Suc.prems a1 in auto)
  have e: "a + PGSIZE + of_nat n * PGSIZE = a + of_nat (Suc n) * PGSIZE" by (simp add: algebra_simps)
  show ?case
  proof (cases "a < stop")
    case True
    then show ?thesis using Suc.prems ih [unfolded e] by (simp add: walkpgdir_miss)
  next
    case False
    have "unat (a + of_nat (Suc n) * PGSIZE) = unat a + Suc n * 4096" by (rule unat_page_offset [OF Suc.prems(1)])
    then have "\<not> a + of_nat (Suc n) * PGSIZE < stop" using False by (simp add: word_less_nat_alt)
    then show ?thesis using False assms(2) by (cases f) (simp_all del: of_nat_Suc)
  qed
qed simp

text \<open>The address behind the page table of \<open>a\<close>.\<close>

lemma unat_next_table:
  assumes "unat a < 0x80000000"
  shows "unat (PGADDR (PDX a + 1) 0 0) = (unat a div 0x400000 + 1) * 0x400000"
proof -
  have d: "unat a div 0x400000 < 512" using assms by (simp add: div_less_iff_less_mult)
  have p: "unat (PDX a + 1) = unat a div 0x400000 + 1"
    using d by (simp add: unat_plus_if' unat_PDX)
  have "unat (push_bit 22 w) = unat w * 0x400000" if "unat w \<le> 512" for w :: uint
    using that by (simp add: push_bit_eq_mult unat_word_ariths(2))
  then have "unat (push_bit 22 (PDX a + 1)) = unat (PDX a + 1) * 0x400000" using d p by simp
  then show ?thesis using p by (simp add: PGADDR_def)
qed

lemma aligned_next:
  assumes "unat a mod 4096 = 0" "unat a < 0x80000000"
  shows "unat (a + PGSIZE) = unat a + 4096" "unat (a + PGSIZE) \<le> 0x80000000" "unat (a + PGSIZE) mod 4096 = 0"
    and "unat a + 4096 \<le> (unat a div 0x400000 + 1) * 0x400000" "(unat a div 0x400000 + 1) * 0x400000 \<le> 0x80000000"
    and "unat a + ((unat a div 0x400000 + 1) * 0x400000 - unat a) div 4096 * 4096 = (unat a div 0x400000 + 1) * 0x400000"
proof -
  obtain q where q: "unat a = q * 4096" using assms(1) by (auto simp: mod_eq_0_iff_dvd dvd_def mult.commute)
  then have lt: "q < 0x80000" using assms(2) by simp
  have d: "unat a div 0x400000 = q div 1024" unfolding q by (simp add: div_mult2_eq [of _ 4096 1024, symmetric, simplified])
  show "unat (a + PGSIZE) = unat a + 4096" using assms(2) by (simp add: unat_plus_if')
  then show "unat (a + PGSIZE) \<le> 0x80000000" "unat (a + PGSIZE) mod 4096 = 0" using q lt by simp_all
  have "q + 1 \<le> (q div 1024 + 1) * 1024" by simp
  then show "unat a + 4096 \<le> (unat a div 0x400000 + 1) * 0x400000" unfolding d q by simp
  have "q div 1024 < 512" using lt by (simp add: div_less_iff_less_mult)
  then show "(unat a div 0x400000 + 1) * 0x400000 \<le> 0x80000000" unfolding d by simp
  have "(q div 1024 + 1) * 0x400000 - q * 4096 = ((q div 1024 + 1) * 1024 - q) * 4096" by (simp add: diff_mult_distrib)
  moreover have "q \<le> (q div 1024 + 1) * 1024" by simp
  ultimately show "unat a + ((unat a div 0x400000 + 1) * 0x400000 - unat a) div 4096 * 4096 = (unat a div 0x400000 + 1) * 0x400000"
    unfolding d q by simp
qed

lemma deallocuvm_loop_unmap:
  assumes "uspace k pgdir xs" "\<not> kpage k 0x80000000" "unat a mod 4096 = 0" "unat stop \<le> 0x80000000"
    and "unmap_pages f2 pgdir a stop k = Inr k'" "unat stop \<le> unat a + f * 4096"
  shows "deallocuvm_loop (Suc f) pgdir a stop k = Inr k'"
  using assms
proof (induction f arbitrary: a k xs f2)
  case 0
  then have "\<not> a < stop" by (simp add: word_less_nat_alt)
  then show ?case using 0 by (cases f2) simp_all
next
  case (Suc f)
  from Suc.prems(5) obtain g where g: "f2 = Suc g" by (cases f2) auto
  show ?case
  proof (cases "a < stop")
    case False
    then show ?thesis using Suc.prems(5) g by simp
  next
    case lt: True
    then have au: "unat a < 0x80000000" using Suc.prems(4) by (simp add: word_less_nat_alt)
    note a1 = aligned_next [OF Suc.prems(3) au]
    have stop1: "unat stop \<le> unat (a + PGSIZE) + f * 4096" using Suc.prems(6) a1(1) by simp
    show ?thesis
    proof (cases "pde_present (pmem k) pgdir (PDX a)")
      case absent: False
      let ?b = "PGADDR (PDX a + 1) 0 0"
      let ?n = "(unat ?b - unat a) div 4096"
      have b: "unat ?b = (unat a div 0x400000 + 1) * 0x400000" by (rule unat_next_table [OF au])
      have nb: "unat a + ?n * 4096 = unat ?b" using a1(6) by (simp add: b)
      have le: "unat a + ?n * 4096 \<le> 0x80000000" unfolding nb unfolding b by (rule a1(5))
      have "?b = a + of_nat ?n * PGSIZE"
        by (simp only: word_unat_eq_iff unat_page_offset [OF le] nb)
      moreover have "unmap_pages (?n + f2) pgdir a stop k = Inr k'" by (rule unmap_pages_mono [OF Suc.prems(5)])
      moreover have "unmap_pages (?n + f2) pgdir a stop k = unmap_pages f2 pgdir (a + of_nat ?n * PGSIZE) stop k"
      proof (rule unmap_pages_skip [OF le])
        fix v :: uint
        assume v: "unat a \<le> unat v" "unat v < unat a + ?n * 4096"
        have "unat v < (unat a div 0x400000 + 1) * 0x400000" using v(2) unfolding nb unfolding b .
        then have "unat v div 0x400000 < unat a div 0x400000 + 1" by (rule less_mult_imp_div_less)
        moreover have "unat a div 0x400000 \<le> unat v div 0x400000" using v(1) by (rule div_le_mono)
        ultimately have "unat v div 0x400000 = unat a div 0x400000" by linarith
        then have "PDX v = PDX a" by (simp add: word_unat_eq_iff unat_PDX)
        then show "\<not> pde_present (pmem k) pgdir (PDX v)" using absent by simp
      qed (simp add: g)
      ultimately have "unmap_pages f2 pgdir ?b stop k = Inr k'" by simp
      then have "deallocuvm_loop (Suc f) pgdir ?b stop k = Inr k'"
        using Suc.IH [OF Suc.prems(1,2) _ Suc.prems(4)] Suc.prems(6) a1(4) by (simp add: b)
      then show ?thesis using lt by (simp add: walkpgdir_miss [OF absent])
    next
      case pres: True
      let ?pte = "table_of (pmem k) pgdir (PDX a) + 4 * PTX a"
      have "kpage k (table_of (pmem k) pgdir (PDX a))"
        using pgdir_ok_pages(2) [OF _ pres] uspaceD(1) [OF Suc.prems(1)] by (simp add: aspace_def)
      then have nz: "?pte \<noteq> 0" by (rule entry_ptr_nonnull) simp
      show ?thesis
      proof (cases "mapped (pmem k) pgdir a")
        case True
        obtain k1 where k1: "kfree (frame (pmem k) pgdir a) k = Inr k1"
          "uspace (pte_write ?pte 0 k1) pgdir (frame (pmem k) pgdir a # xs)" "kpage (pte_write ?pte 0 k1) = kpage k"
          using unmap_step [OF Suc.prems(1) au True refl] by blast
        have f: "frame (pmem k) pgdir a \<noteq> 0x80000000" using uspaceD(2) [OF Suc.prems(1) au True] Suc.prems(2) by auto
        then have pa: "PTE_ADDR (pte_of (pmem k) pgdir a) \<noteq> 0" by (auto simp: frame_def P2V_def)
        have "unmap_pages g pgdir (a + PGSIZE) stop (pte_write ?pte 0 k1) = Inr k'"
          using Suc.prems(5) lt nz True k1(1)
          by (simp add: g walkpgdir_hit [OF pres] pte_read_table [OF pres] mapped_def frame_def)
        moreover have "\<not> kpage (pte_write ?pte 0 k1) 0x80000000" by (simp add: k1(3) Suc.prems(2))
        ultimately have "deallocuvm_loop (Suc f) pgdir (a + PGSIZE) stop (pte_write ?pte 0 k1) = Inr k'"
          using Suc.IH [OF k1(2) _ a1(3) Suc.prems(4) _ stop1] by blast
        then show ?thesis
          using lt nz True k1(1) pa
          by (simp add: walkpgdir_hit [OF pres] pte_read_table [OF pres] mapped_def frame_def)
      next
        case False
        then have "unmap_pages g pgdir (a + PGSIZE) stop k = Inr k'"
          using Suc.prems(5) lt by (simp add: g walkpgdir_hit [OF pres] pte_read_table [OF pres] mapped_def)
        then have "deallocuvm_loop (Suc f) pgdir (a + PGSIZE) stop k = Inr k'"
          by (rule Suc.IH [OF Suc.prems(1,2) a1(3) Suc.prems(4) _ stop1])
        then show ?thesis
          using lt False nz by (simp add: walkpgdir_hit [OF pres] pte_read_table [OF pres] mapped_def)
      qed
    qed
  qed
qed

text \<open>C24: the loop of \<^verbatim>\<open>deallocuvm\<close>, which jumps to the next page table where one is absent, is equivalent to the loop
  of \<^verbatim>\<open>wunmap\<close>, which looks at every page: on a page table whose user pages belong to the allocator both
  succeed with the same memory.\<close>

theorem deallocuvm_loop_equiv:
  assumes "uspace k pgdir xs" "\<not> kpage k 0x80000000" "unat a mod 4096 = 0" "unat stop \<le> 0x80000000"
  shows "\<exists>k'. deallocuvm_loop page_fuel pgdir a stop k = Inr k' \<and> unmap_pages page_fuel pgdir a stop k = Inr k'"
proof -
  have pf: "page_fuel = Suc (2 ^ 20)" by (simp add: page_fuel_def)
  let ?n = "(unat stop - unat a + 4095) div 4096"
  have "\<exists>k'. unmap_pages page_fuel pgdir a stop k = Inr k'"
  proof (cases "a < stop")
    case True
    then have lt: "unat a < unat stop" by (simp add: word_less_nat_alt)
    obtain q where q: "unat a = q * 4096" using assms(3) by (auto simp: mod_eq_0_iff_dvd dvd_def mult.commute)
    have "?n \<le> 0x80000 - q"
    proof -
      have "unat stop - unat a + 4095 < (0x80000 - q + 1) * 4096" using assms(4) lt q by (simp add: diff_mult_distrib)
      then have "?n < 0x80000 - q + 1" by (rule less_mult_imp_div_less)
      then show ?thesis by simp
    qed
    then have "unat a + ?n * 4096 \<le> 0x80000000" "?n < page_fuel" using lt assms(4) q by (simp_all add: pf)
    moreover have "unat a + ?n * 4096 < unat stop + 4096" "unat stop \<le> unat a + ?n * 4096" using lt by linarith+
    ultimately show ?thesis using unmap_pages_frees [OF assms(1,3)] by blast
  qed (simp only: pf unmap_pages.simps if_False, blast)
  then obtain k' where k': "unmap_pages page_fuel pgdir a stop k = Inr k'" by blast
  have "deallocuvm_loop (Suc (2 ^ 20)) pgdir a stop k = Inr k'"
    by (rule deallocuvm_loop_unmap [OF assms k']) (use assms(4) in simp)
  then show ?thesis using k' by (simp add: pf)
qed

theorem deallocuvm_loop_equiv_witness:
  "\<exists>k'. deallocuvm_loop page_fuel 0x80201000 0 0x80000000 mem_sample = Inr k' \<and>
     unmap_pages page_fuel 0x80201000 0 0x80000000 mem_sample = Inr k'"
  by (rule deallocuvm_loop_equiv [OF mem_sample_uspace]) (simp_all add: kpage_def mem_sample_def)

subsection \<open>What deallocuvm frees\<close>

lemma deallocuvm_effect:
  assumes us: "uspace k pgdir xs" "\<not> kpage k 0x80000000" and sz: "unat oldsz \<le> 0x80000000" "newsz < oldsz"
    and n: "n = unat (PGROUNDUP oldsz) div 4096 - unat (PGROUNDUP newsz) div 4096"
  shows "\<exists>k'. deallocuvm pgdir oldsz newsz k = Inr (newsz, k') \<and> kpage k' = kpage k \<and>
    uspace k' pgdir (rev (loaded_frames (pmem k) pgdir (PGROUNDUP newsz) n) @ xs) \<and>
    (\<forall>v. mapped (pmem k') pgdir v \<longleftrightarrow>
       mapped (pmem k) pgdir v \<and> \<not> (unat (PGROUNDUP newsz) div 4096 \<le> vpn v \<and> vpn v < unat (PGROUNDUP oldsz) div 4096))"
proof -
  let ?a = "PGROUNDUP newsz" let ?e = "PGROUNDUP oldsz"
  have lt: "unat newsz < unat oldsz" using sz(2) by (simp add: word_less_nat_alt)
  have u: "unat ?a = (unat newsz + 4095) div 4096 * 4096" "unat ?e = (unat oldsz + 4095) div 4096 * 4096"
    using sz(1) lt by (simp_all add: unat_PGROUNDUP)
  have le: "(unat newsz + 4095) div 4096 \<le> (unat oldsz + 4095) div 4096" using lt by (intro div_le_mono) simp
  have n': "n = (unat oldsz + 4095) div 4096 - (unat newsz + 4095) div 4096" unfolding n u by simp
  then have stop: "unat ?a + n * 4096 = unat ?e" using le by (simp add: u flip: add_mult_distrib)
  have "(unat oldsz + 4095) div 4096 \<le> (0x80000000 + 4095) div 4096" using sz(1) by (intro div_le_mono) simp
  then have top: "unat ?e \<le> 0x80000000" "n \<le> 0x80000" by (simp_all add: u n')
  have al: "unat ?a mod 4096 = 0" by (simp add: u)
  have up: "unat ?e < unat oldsz + 4096" "unat oldsz \<le> unat ?e" unfolding u by linarith+
  obtain k' where k': "unmap_pages page_fuel pgdir ?a oldsz k = Inr k'" "kpage k' = kpage k"
    "uspace k' pgdir (rev (loaded_frames (pmem k) pgdir ?a n) @ xs)"
    "\<forall>v. pte_of (pmem k') pgdir v =
       (if vpn ?a \<le> vpn v \<and> vpn v < vpn ?a + n \<and> mapped (pmem k) pgdir v then 0 else pte_of (pmem k) pgdir v)"
    using unmap_pages_frees [OF us(1) al, of n oldsz page_fuel] stop top up by (auto simp: page_fuel_def)
  have "deallocuvm_loop (Suc (2 ^ 20)) pgdir ?a oldsz k = Inr k'"
    by (rule deallocuvm_loop_unmap [OF us al sz(1) k'(1)]) (use sz(1) in simp)
  then have "deallocuvm pgdir oldsz newsz k = Inr (newsz, k')"
    using sz(2) by (auto simp: deallocuvm_def page_fuel_def)
  moreover have "mapped (pmem k') pgdir v \<longleftrightarrow>
      mapped (pmem k) pgdir v \<and> \<not> (unat ?a div 4096 \<le> vpn v \<and> vpn v < unat ?e div 4096)" for v
    using k'(4) by (auto simp: mapped_def vpn_def add.commute simp flip: stop)
  ultimately show ?thesis using k'(2,3) by blast
qed

text \<open>C23: shrinking a process. \<^verbatim>\<open>growproc(-n)\<close> with \<open>n\<close> at most the size frees exactly the frames of the pages
  between the rounded new and old sizes, unmaps them and nothing else. It returns 0 and
  records the new size, except when the whole memory is given back: then it returns -1 and leaves the
  old size in place although every page is gone.\<close>

theorem growproc_shrinks:
  assumes "uspace (km k) (p_pgdir (myproc k)) xs" "\<not> kpage (km k) 0x80000000"
    and "p_kstack (myproc k) \<noteq> 0" "p_pgdir (myproc k) \<noteq> 0" "sz = p_sz (myproc k)" "unat sz \<le> 0x80000000"
    and "0 < n" "n \<le> sz" "unat n < 0x80000000"
  shows "\<exists>k'. growproc (- n) k = Inr (if n = sz then -1 else 0, k') \<and>
    p_sz (myproc k') = (if n = sz then sz else sz - n) \<and>
    (\<forall>v. mapped (pmem (km k')) (p_pgdir (myproc k)) v \<longleftrightarrow> mapped (pmem (km k)) (p_pgdir (myproc k)) v \<and>
       \<not> (unat (PGROUNDUP (sz - n)) div 4096 \<le> vpn v \<and> vpn v < unat (PGROUNDUP sz) div 4096)) \<and>
    uspace (km k') (p_pgdir (myproc k))
      (rev (loaded_frames (pmem (km k)) (p_pgdir (myproc k)) (PGROUNDUP (sz - n))
        (unat (PGROUNDUP sz) div 4096 - unat (PGROUNDUP (sz - n)) div 4096)) @ xs)"
proof -
  have lt: "sz - n < sz"
    using assms(7,8) by (simp add: word_less_nat_alt unat_sub word_le_nat_alt)
  have neg: "- n <s 0" "\<not> 0 <s - n"
  proof -
    have "unat (0 - n) = 4294967296 - unat n" using assms(7) unat_sub_if' [of 0 n] by (simp add: word_less_nat_alt)
    then show "- n <s 0" using assms(9) by (simp add: signed_neg del: minus_zero)
    then show "\<not> 0 <s - n" by (simp add: word_sless_alt)
  qed
  obtain m where m: "deallocuvm (p_pgdir (myproc k)) sz (sz - n) (km k) = Inr (sz - n, m)"
    "uspace m (p_pgdir (myproc k)) (rev (loaded_frames (pmem (km k)) (p_pgdir (myproc k)) (PGROUNDUP (sz - n))
        (unat (PGROUNDUP sz) div 4096 - unat (PGROUNDUP (sz - n)) div 4096)) @ xs)"
    "\<forall>v. mapped (pmem m) (p_pgdir (myproc k)) v \<longleftrightarrow> mapped (pmem (km k)) (p_pgdir (myproc k)) v \<and>
       \<not> (unat (PGROUNDUP (sz - n)) div 4096 \<le> vpn v \<and> vpn v < unat (PGROUNDUP sz) div 4096)"
    using deallocuvm_effect [OF assms(1,2,6) lt refl] by blast
  have nz: "- n \<noteq> 0" using assms(7) by auto
  let ?k = "my_update (\<lambda>x. x\<lparr>p_sz := sz - n\<rparr>) (k\<lparr>km := m\<rparr>)"
  show ?thesis
  proof (cases "n = sz")
    case True
    then have "growproc (- n) k = Inr (-1, k\<lparr>km := m\<rparr>)"
      using m(1) neg nz assms(5) by (simp add: growproc_def on_km_def Let_def)
    then show ?thesis using m True assms(5) by (simp add: myproc_def)
  next
    case False
    then have "growproc (- n) k = Inr (0, ?k\<lparr>cr3 := V2P (p_pgdir (myproc k))\<rparr>)"
      using m(1) neg nz assms(3-5)
      by (simp add: growproc_def on_km_def Let_def switchuvm_def my_update_def proc_update_def myproc_def)
    then show ?thesis using m False assms(5) by (simp add: my_update_def proc_update_def myproc_def)
  qed
qed

theorem growproc_shrinks_witness:
  "\<exists>k'. growproc (- 4096) (my_update (\<lambda>p. p\<lparr>p_sz := 4096\<rparr>) kernel_sample) = Inr (-1, k') \<and> p_sz (myproc k') = 4096"
proof -
  let ?k = "my_update (\<lambda>p. p\<lparr>p_sz := 4096\<rparr>) kernel_sample"
  have k: "myproc ?k = proc_sample\<lparr>p_sz := 4096\<rparr>" "km ?k = mem_sample" by (simp_all add: my_update_simps)
  have "\<not> kpage mem_sample 0x80000000" by (simp add: kpage_def mem_sample_def)
  then show ?thesis
    using growproc_shrinks [of ?k "[0x80200000, 0x80202000, 0x80204000]" 4096 4096] mem_sample_uspace
    by (simp only: k) (auto simp: proc_sample_def proc_unused_def)
qed

end
