(* ===== verification/Spinlock.thy ===== *)
theory Spinlock
  imports Memory
begin

text \<open>
  Spin locks (\<^verbatim>\<open>spinlock.c\<close>). A processor is its nesting depth of \<^verbatim>\<open>pushcli\<close>, the interrupt state saved by the
  outermost one and its flags register; \<^verbatim>\<open>mycpu()\<close> is an argument. The functions that one processor runs
  without another one seeing a difference are functions; \<^verbatim>\<open>acquire\<close> and \<^verbatim>\<open>release\<close> run against other
  processors, so they are the step relation \<open>lock_step\<close>, in which each read or write of
  the lock is a step of its own and any number of processors interleave.
\<close>

abbreviation (input) FL_IF :: uint where "FL_IF \<equiv> 0x200"

record cpu =
  ncli :: cint
  intena :: uint
  eflags :: uint

record spinlock =
  lk_locked :: uint
  lk_name :: string
  lk_cpu :: "nat option"
  lk_pcs :: "uint list"

definition initlock :: "string \<Rightarrow> spinlock \<Rightarrow> spinlock" where
  "initlock nm lk = lk\<lparr>lk_name := nm, lk_locked := 0, lk_cpu := None\<rparr>"

definition cli :: "cpu \<Rightarrow> cpu" where
  "cli c = c\<lparr>eflags := eflags c AND NOT FL_IF\<rparr>"

definition sti :: "cpu \<Rightarrow> cpu" where
  "sti c = c\<lparr>eflags := eflags c OR FL_IF\<rparr>"

definition xchg :: "uint \<Rightarrow> spinlock \<Rightarrow> uint \<times> spinlock" where
  "xchg newval lk = (lk_locked lk, lk\<lparr>lk_locked := newval\<rparr>)"

definition pushcli :: "cpu \<Rightarrow> cpu" where
  "pushcli c =
     (let fl = eflags c; c1 = cli c; c2 = (if ncli c1 = 0 then c1\<lparr>intena := fl AND FL_IF\<rparr> else c1)
      in c2\<lparr>ncli := ncli c2 + 1\<rparr>)"

definition popcli :: "cpu \<Rightarrow> cpu res" where
  "popcli c =
     (if eflags c AND FL_IF \<noteq> 0 then panic ''popcli - interruptible''
      else let c1 = c\<lparr>ncli := ncli c - 1\<rparr>
           in if ncli c1 <s 0 then panic ''popcli''
              else Inr (if ncli c1 = 0 \<and> intena c1 \<noteq> 0 then sti c1 else c1))"

definition holding :: "nat \<Rightarrow> spinlock \<Rightarrow> cpu \<Rightarrow> (bool \<times> cpu) res" where
  "holding me lk c =
     (let c1 = pushcli c; r = (lk_locked lk \<noteq> 0 \<and> lk_cpu lk = Some me)
      in andThen (popcli c1) (\<lambda>c2. Inr (r, c2)))"

text \<open>The saved frame pointers from \<^verbatim>\<open>ebp\<close> on; the kernel's memory is mapped at \<^verbatim>\<open>KERNBASE\<close>.\<close>

fun callerpcs_loop :: "nat \<Rightarrow> uint \<Rightarrow> mem \<Rightarrow> uint list" where
  "callerpcs_loop 0 ebp m = []"
| "callerpcs_loop (Suc n) ebp m =
     (if ebp = 0 \<or> ebp < KERNBASE \<or> ebp = 0xffffffff then replicate (Suc n) 0
      else load32 m (V2P (ebp + 4)) # callerpcs_loop n (load32 m (V2P ebp)) m)"

definition getcallerpcs :: "uint \<Rightarrow> mem \<Rightarrow> uint list" where
  "getcallerpcs v m = callerpcs_loop 10 (v - 8) m"

subsection \<open>Nesting\<close>

text \<open>\<open>c\<close> is processor state \<open>c0\<close> inside \<open>d\<close> further calls of \<^verbatim>\<open>pushcli\<close>.\<close>

definition nested :: "cpu \<Rightarrow> nat \<Rightarrow> cpu \<Rightarrow> bool" where
  "nested c0 d c \<longleftrightarrow> unat (ncli c) = unat (ncli c0) + d \<and> unat (ncli c) < 2147483648 \<and>
     (eflags c AND FL_IF \<noteq> 0 \<longleftrightarrow> d = 0 \<and> eflags c0 AND FL_IF \<noteq> 0) \<and>
     (0 < unat (ncli c0) + d \<longrightarrow> (intena c \<noteq> 0 \<longleftrightarrow> (if ncli c0 = 0 then eflags c0 AND FL_IF \<noteq> 0 else intena c0 \<noteq> 0))) \<and>
     (ncli c0 \<noteq> 0 \<longrightarrow> eflags c0 AND FL_IF = 0)"

lemma cli_off: "eflags (cli c) AND FL_IF = 0" "ncli (cli c) = ncli c" "intena (cli c) = intena c"
  by (simp_all add: cli_def and.assoc)

lemma sti_on: "eflags (sti c) AND FL_IF \<noteq> 0" "ncli (sti c) = ncli c" "intena (sti c) = intena c"
  by (simp_all add: sti_def word_ao_absorbs)

lemma pushcli_nested:
  assumes "nested c0 d c" "unat (ncli c) < 2147483647"
  shows "nested c0 (Suc d) (pushcli c)"
proof -
  have u: "unat (ncli c + 1) = unat (ncli c) + 1" using assms(2) by (simp add: unat_plus_if')
  have z: "ncli c = 0 \<longleftrightarrow> d = 0 \<and> ncli c0 = 0" using assms(1) by (auto simp: nested_def word_unat_eq_iff)
  show ?thesis
    using assms(1,2) u z by (auto simp: nested_def pushcli_def Let_def cli_off unat_eq_0)
qed

lemma popcli_nested:
  assumes "nested c0 (Suc d) c"
  shows "\<exists>c'. popcli c = Inr c' \<and> nested c0 d c'"
proof -
  have n: "unat (ncli c) = unat (ncli c0) + Suc d" "unat (ncli c) < 2147483648" using assms by (simp_all add: nested_def)
  then have u: "unat (ncli c - 1) = unat (ncli c0) + d" using unat_sub_if' [of "ncli c" 1] by simp
  have z: "ncli c - 1 = 0 \<longleftrightarrow> d = 0 \<and> ncli c0 = 0" using u by (auto simp: word_unat_eq_iff)
  have "\<not> ncli c - 1 <s 0" using u n by (simp add: signed_neg)
  then show ?thesis
    using assms n u z by (auto simp: nested_def popcli_def Let_def sti_on unat_eq_0)
qed

fun popclis :: "nat \<Rightarrow> cpu \<Rightarrow> cpu res" where
  "popclis 0 c = Inr c"
| "popclis (Suc m) c = andThen (popclis m c) popcli"

definition cli_wf :: "cpu \<Rightarrow> bool" where
  "cli_wf c \<longleftrightarrow> (ncli c \<noteq> 0 \<longrightarrow> eflags c AND FL_IF = 0)"

lemma nested_0: "cli_wf c \<Longrightarrow> unat (ncli c) < 2147483648 \<Longrightarrow> nested c 0 c"
  by (auto simp: nested_def cli_wf_def unat_eq_0)

lemma pushclis_nested:
  assumes "cli_wf c" "unat (ncli c) + n < 2147483648"
  shows "nested c n ((pushcli ^^ n) c)"
  using assms(2)
proof (induction n)
  case 0
  then show ?case using nested_0 assms(1) by simp
next
  case (Suc n)
  then have n: "nested c n ((pushcli ^^ n) c)" by simp
  then have "unat (ncli ((pushcli ^^ n) c)) < 2147483647" using Suc.prems by (simp add: nested_def)
  then show ?case using pushcli_nested [OF n] by simp
qed

text \<open>C26: \<^verbatim>\<open>pushcli\<close> and \<^verbatim>\<open>popcli\<close> nest. After \<open>n\<close> calls of \<^verbatim>\<open>pushcli\<close> interrupts are off, they stay off until the \<open>n\<close>-th
  \<^verbatim>\<open>popcli\<close>, and that one puts the interrupt flag and the depth back as they were.\<close>

theorem pushcli_popcli_nest:
  assumes "cli_wf c" "unat (ncli c) + n < 2147483648" "m \<le> n"
  shows "\<exists>c'. popclis m ((pushcli ^^ n) c) = Inr c' \<and> unat (ncli c') = unat (ncli c) + (n - m) \<and>
    (eflags c' AND FL_IF \<noteq> 0 \<longleftrightarrow> m = n \<and> eflags c AND FL_IF \<noteq> 0)"
proof -
  have "\<exists>c'. popclis m ((pushcli ^^ n) c) = Inr c' \<and> nested c (n - m) c'"
    using assms(3)
  proof (induction m)
    case 0
    then show ?case using pushclis_nested [OF assms(1,2)] by simp
  next
    case (Suc m)
    then obtain c' where c': "popclis m ((pushcli ^^ n) c) = Inr c'" "nested c (Suc (n - Suc m)) c'"
      by (auto simp: Suc_diff_Suc)
    then show ?case using popcli_nested [OF c'(2)] by simp
  qed
  then show ?thesis using assms(3) by (auto simp: nested_def)
qed

theorem pushcli_popcli_nest_witness:
  "\<exists>c'. popclis 2 ((pushcli ^^ 2) \<lparr>ncli = 0, intena = 0, eflags = FL_IF\<rparr>) = Inr c' \<and> eflags c' AND FL_IF \<noteq> 0"
  using pushcli_popcli_nest [of "\<lparr>ncli = 0, intena = 0, eflags = FL_IF\<rparr>" 2 2] by (auto simp: cli_wf_def)

subsection \<open>Several processors\<close>

text \<open>
  Where a processor is: outside; in \<^verbatim>\<open>acquire\<close> before and inside its call of \<^verbatim>\<open>holding\<close>, at the \<^verbatim>\<open>xchg\<close>, behind it;
  in the critical section; in \<^verbatim>\<open>release\<close> inside \<^verbatim>\<open>holding\<close>, behind it, after the owner is cleared, after the
  lock is free; or in a panic.
\<close>

datatype place = Out | Enter | Enter_read bool | Spin | Won | Inside | Leave_read bool | Leave | Cleared | Freed | Panicked

record machine =
  the_lock :: spinlock
  cpus :: "nat \<Rightarrow> cpu"
  at :: "nat \<Rightarrow> place"

definition goto :: "nat \<Rightarrow> place \<Rightarrow> machine \<Rightarrow> machine" where
  "goto i p s = s\<lparr>at := (at s)(i := p)\<rparr>"

definition set_cpu :: "nat \<Rightarrow> cpu \<Rightarrow> machine \<Rightarrow> machine" where
  "set_cpu i c s = s\<lparr>cpus := (cpus s)(i := c)\<rparr>"

text \<open>Continue after \<^verbatim>\<open>popcli\<close>, or panic in it.\<close>

definition after_pop :: "nat \<Rightarrow> place \<Rightarrow> machine \<Rightarrow> machine" where
  "after_pop i p s = (case popcli (cpus s i) of Inl _ \<Rightarrow> goto i Panicked s | Inr c \<Rightarrow> goto i p (set_cpu i c s))"

inductive lock_step :: "machine \<Rightarrow> machine \<Rightarrow> bool" where
  acquire: "at s i = Out \<Longrightarrow> lock_step s (goto i Enter (set_cpu i (pushcli (cpus s i)) s))"
| acquire_holding: "at s i = Enter \<Longrightarrow>
    lock_step s (goto i (Enter_read (lk_locked (the_lock s) \<noteq> 0)) (set_cpu i (pushcli (cpus s i)) s))"
| acquire_check: "at s i = Enter_read b \<Longrightarrow>
    lock_step s (after_pop i (if b \<and> lk_cpu (the_lock s) = Some i then Panicked else Spin) s)"
| acquire_xchg: "at s i = Spin \<Longrightarrow> xchg 1 (the_lock s) = (old, lk) \<Longrightarrow>
    lock_step s (goto i (if old \<noteq> 0 then Spin else Won) (s\<lparr>the_lock := lk\<rparr>))"
| acquire_owner: "at s i = Won \<Longrightarrow>
    lock_step s (goto i Inside (s\<lparr>the_lock := (the_lock s)\<lparr>lk_cpu := Some i, lk_pcs := getcallerpcs v m\<rparr>\<rparr>))"
| release_holding: "at s i = Inside \<Longrightarrow>
    lock_step s (goto i (Leave_read (lk_locked (the_lock s) \<noteq> 0)) (set_cpu i (pushcli (cpus s i)) s))"
| release_check: "at s i = Leave_read b \<Longrightarrow>
    lock_step s (after_pop i (if b \<and> lk_cpu (the_lock s) = Some i then Leave else Panicked) s)"
| release_owner: "at s i = Leave \<Longrightarrow>
    lock_step s (goto i Cleared (s\<lparr>the_lock := (the_lock s)\<lparr>lk_pcs := (lk_pcs (the_lock s))[0 := 0], lk_cpu := None\<rparr>\<rparr>))"
| release_lock: "at s i = Cleared \<Longrightarrow> lock_step s (goto i Freed (s\<lparr>the_lock := (the_lock s)\<lparr>lk_locked := 0\<rparr>\<rparr>))"
| release_pop: "at s i = Freed \<Longrightarrow> lock_step s (after_pop i Out s)"

text \<open>The places between winning and freeing the lock, those at which the lock names the processor, and the depth.\<close>

definition owns :: "place \<Rightarrow> bool" where
  "owns p \<longleftrightarrow> p \<in> {Won, Inside, Leave, Cleared} \<or> (\<exists>b. p = Leave_read b)"

definition named :: "place \<Rightarrow> bool" where
  "named p \<longleftrightarrow> p \<in> {Inside, Leave} \<or> (\<exists>b. p = Leave_read b)"

fun depth :: "place \<Rightarrow> nat" where
  "depth Out = 0"
| "depth (Enter_read b) = 2"
| "depth (Leave_read b) = 2"
| "depth p = 1"

definition own_inv :: "machine \<Rightarrow> bool" where
  "own_inv s \<longleftrightarrow>
     (lk_locked (the_lock s) \<noteq> 0 \<longleftrightarrow> (\<exists>i. owns (at s i))) \<and>
     (\<forall>i j. owns (at s i) \<and> owns (at s j) \<longrightarrow> i = j) \<and>
     (\<forall>i. lk_cpu (the_lock s) = Some i \<longleftrightarrow> named (at s i)) \<and>
     (\<forall>i. at s i \<noteq> Panicked \<and> at s i \<noteq> Leave_read False)"

definition cpu_inv :: "(nat \<Rightarrow> cpu) \<Rightarrow> machine \<Rightarrow> bool" where
  "cpu_inv cs s \<longleftrightarrow> (\<forall>i. unat (ncli (cs i)) + 2 < 2147483648 \<and> nested (cs i) (depth (at s i)) (cpus s i))"

lemma goto_simps [simp]:
  "at (goto i p s) = (at s)(i := p)" "the_lock (goto i p s) = the_lock s" "cpus (goto i p s) = cpus s"
  "at (set_cpu i c s) = at s" "the_lock (set_cpu i c s) = the_lock s" "cpus (set_cpu i c s) = (cpus s)(i := c)"
  by (simp_all add: goto_def set_cpu_def)

lemma place_simps [simp]:
  "owns Won" "owns Inside" "owns Leave" "owns Cleared" "owns (Leave_read b)" "\<not> owns Out" "\<not> owns Enter" "\<not> owns (Enter_read b)"
  "\<not> owns Spin" "\<not> owns Freed" "\<not> owns Panicked"
  "named Inside" "named Leave" "named (Leave_read b)" "\<not> named Won" "\<not> named Cleared" "\<not> named Out" "\<not> named Enter"
  "\<not> named (Enter_read b)" "\<not> named Spin" "\<not> named Freed" "\<not> named Panicked"
  by (simp_all add: owns_def named_def)

lemma cpu_push:
  assumes "cpu_inv cs s" "depth p = Suc (depth (at s i))" "depth p \<le> 2"
  shows "cpu_inv cs (goto i p (set_cpu i (pushcli (cpus s i)) s))"
proof -
  have n: "nested (cs i) (depth (at s i)) (cpus s i)" "unat (ncli (cs i)) + 2 < 2147483648" using assms(1) by (simp_all add: cpu_inv_def)
  then have "unat (ncli (cpus s i)) < 2147483647" using assms(2,3) by (simp add: nested_def)
  then show ?thesis using assms(1,2) pushcli_nested [OF n(1)] by (simp add: cpu_inv_def)
qed

lemma cpu_pop:
  assumes "cpu_inv cs s" "depth (at s i) = Suc (depth p)"
  obtains c where "after_pop i p s = goto i p (set_cpu i c s)" and "cpu_inv cs (goto i p (set_cpu i c s))"
proof -
  have "nested (cs i) (Suc (depth p)) (cpus s i)" using assms by (simp add: cpu_inv_def flip: assms(2))
  from popcli_nested [OF this] obtain c where "popcli (cpus s i) = Inr c" "nested (cs i) (depth p) c" by blast
  then show thesis using assms(1) by (intro that [of c]) (simp_all add: after_pop_def cpu_inv_def)
qed

lemma cpu_goto:
  "cpu_inv cs s \<Longrightarrow> depth p = depth (at s i) \<Longrightarrow> cpu_inv cs (goto i p (s\<lparr>the_lock := lk\<rparr>))"
  by (simp add: cpu_inv_def)

lemma own_move:
  assumes "own_inv s" "owns p = owns (at s i)" "named p = named (at s i)" "p \<noteq> Panicked" "p \<noteq> Leave_read False"
    and "at s' = (at s)(i := p)" "the_lock s' = the_lock s"
  shows "own_inv s'"
proof -
  have o: "owns (at s' j) = owns (at s j)" and n: "named (at s' j) = named (at s j)" for j
    using assms(2,3,6) by (simp_all split: if_splits)
  have "at s' j \<noteq> Panicked \<and> at s' j \<noteq> Leave_read False" for j using assms(1,4,5,6) by (simp add: own_inv_def)
  then show ?thesis using assms(1) unfolding own_inv_def o n assms(7) by blast
qed

lemma own_only:
  assumes "own_inv s" "owns (at s i)"
  shows "lk_locked (the_lock s) \<noteq> 0" "owns (at s j) \<longleftrightarrow> j = i" "named (at s j) \<Longrightarrow> j = i"
proof -
  show "lk_locked (the_lock s) \<noteq> 0" "owns (at s j) \<longleftrightarrow> j = i" using assms unfolding own_inv_def by blast+
  moreover have "named p \<Longrightarrow> owns p" for p by (auto simp: named_def)
  ultimately show "named (at s j) \<Longrightarrow> j = i" by blast
qed

text \<open>A step of the owner that leaves it the owner, or stops being it.\<close>

lemma own_write:
  assumes "own_inv s" "owns (at s i)" "at s' = (at s)(i := p)" "p \<noteq> Panicked" "p \<noteq> Leave_read False"
    and "lk_locked (the_lock s') \<noteq> 0 \<longleftrightarrow> owns p" "lk_cpu (the_lock s') = (if named p then Some i else None)"
  shows "own_inv s'"
  using assms(3-7) own_only [OF assms(1,2)] assms(1) unfolding own_inv_def by (auto split: if_splits)

text \<open>One step keeps both parts of the invariant.\<close>

lemma lock_step_inv:
  assumes "lock_step s s'" "own_inv s" "cpu_inv cs s"
  shows "own_inv s' \<and> cpu_inv cs s'"
  using assms
proof (induction rule: lock_step.induct)
  case (acquire s i)
  then show ?case using cpu_push [of cs s Enter i] own_move [of s Enter i] by simp
next
  case (acquire_holding s i)
  then show ?case using cpu_push [of cs s "Enter_read (lk_locked (the_lock s) \<noteq> 0)" i]
      own_move [of s "Enter_read (lk_locked (the_lock s) \<noteq> 0)" i] by simp
next
  case (acquire_check s i b)
  then have "lk_cpu (the_lock s) \<noteq> Some i" by (simp add: own_inv_def)
  moreover obtain c where "after_pop i Spin s = goto i Spin (set_cpu i c s)" "cpu_inv cs (goto i Spin (set_cpu i c s))"
    by (rule cpu_pop [OF acquire_check(3), of i Spin]) (simp_all add: acquire_check(1))
  ultimately show ?case using acquire_check own_move [of s Spin i "goto i Spin (set_cpu i c s)"] by simp
next
  case (acquire_xchg s i old lk)
  then have x: "old = lk_locked (the_lock s)" "lk = (the_lock s)\<lparr>lk_locked := 1\<rparr>" by (auto simp: xchg_def)
  have "own_inv (goto i (if old \<noteq> 0 then Spin else Won) (s\<lparr>the_lock := lk\<rparr>))"
  proof (cases "old = 0")
    case True
    then show ?thesis using acquire_xchg(1,3) x unfolding own_inv_def by auto
  next
    case False
    then obtain j where "owns (at s j)" "j \<noteq> i" using acquire_xchg(1,3) x unfolding own_inv_def by (metis place_simps(9))
    then show ?thesis using False acquire_xchg(1,3) x unfolding own_inv_def by auto
  qed
  then show ?case using acquire_xchg(1,4) by (simp add: cpu_goto)
next
  case (acquire_owner s i v m)
  then show ?case using own_only(1) [of s i] by (auto intro!: own_write [of s i] simp: cpu_goto)
next
  case (release_holding s i)
  then have l: "lk_locked (the_lock s) \<noteq> 0" using own_only(1) [of s i] by simp
  then show ?case using release_holding cpu_push [of cs s "Leave_read True" i] own_move [of s "Leave_read True" i] by simp
next
  case (release_check s i b)
  then have b: "b \<and> lk_cpu (the_lock s) = Some i" by (cases b) (auto simp: own_inv_def)
  moreover obtain c where "after_pop i Leave s = goto i Leave (set_cpu i c s)" "cpu_inv cs (goto i Leave (set_cpu i c s))"
    by (rule cpu_pop [OF release_check(3), of i Leave]) (simp_all add: release_check(1))
  ultimately show ?case using release_check own_move [of s Leave i "goto i Leave (set_cpu i c s)"] by simp
next
  case (release_owner s i)
  then show ?case using own_only(1) [of s i] by (auto intro!: own_write [of s i] simp: cpu_goto)
next
  case (release_lock s i)
  then have "lk_cpu (the_lock s) = None"
  proof -
    have "\<not> named (at s j)" for j using own_only(3) [of s i j] release_lock by auto
    then show ?thesis using release_lock(2) unfolding own_inv_def by (cases "lk_cpu (the_lock s)") auto
  qed
  then show ?case using release_lock by (auto intro!: own_write [of s i] simp: cpu_goto)
next
  case (release_pop s i)
  obtain c where "after_pop i Out s = goto i Out (set_cpu i c s)" "cpu_inv cs (goto i Out (set_cpu i c s))"
    by (rule cpu_pop [OF release_pop(3), of i Out]) (simp_all add: release_pop(1))
  then show ?case using release_pop own_move [of s Out i "goto i Out (set_cpu i c s)"] by simp
qed

definition lock_start :: "machine \<Rightarrow> bool" where
  "lock_start s \<longleftrightarrow> lk_locked (the_lock s) = 0 \<and> lk_cpu (the_lock s) = None \<and>
     (\<forall>i. at s i = Out \<and> cli_wf (cpus s i) \<and> unat (ncli (cpus s i)) + 2 < 2147483648)"

lemma lock_reach_inv: "lock_step\<^sup>*\<^sup>* s0 s \<Longrightarrow> lock_start s0 \<Longrightarrow> own_inv s \<and> cpu_inv (cpus s0) s"
proof (induction rule: rtranclp_induct)
  case base
  have "nested (cpus s0 i) 0 (cpus s0 i)" for i
  proof (rule nested_0)
    have "unat (ncli (cpus s0 i)) + 2 < 2147483648" using base by (simp add: lock_start_def)
    then show "unat (ncli (cpus s0 i)) < 2147483648" by linarith
  qed (use base in \<open>simp add: lock_start_def\<close>)
  then show ?case using base by (simp add: lock_start_def own_inv_def cpu_inv_def)
qed (use lock_step_inv in blast)

text \<open>C25: mutual exclusion. Whatever the interleaving of any number of processors that acquire and release a lock, at most
  one is between \<^verbatim>\<open>acquire\<close> and \<^verbatim>\<open>release\<close>; while it is there the lock is marked as held by it and its interrupts
  are off, and no processor panics in \<^verbatim>\<open>acquire\<close>, \<^verbatim>\<open>release\<close> or \<^verbatim>\<open>popcli\<close>.\<close>

theorem spinlock_mutual_exclusion:
  assumes "lock_start s0" "lock_step\<^sup>*\<^sup>* s0 s" "at s i = Inside"
  shows "(at s j = Inside \<longrightarrow> j = i) \<and> at s j \<noteq> Panicked \<and> eflags (cpus s i) AND FL_IF = 0 \<and>
    (\<exists>c. holding i (the_lock s) (cpus s i) = Inr (True, c)) \<and> (j \<noteq> i \<longrightarrow> lk_cpu (the_lock s) \<noteq> Some j)"
proof -
  have inv: "own_inv s" "cpu_inv (cpus s0) s" using lock_reach_inv assms(1,2) by blast+
  have n: "nested (cpus s0 i) 1 (cpus s i)" "unat (ncli (cpus s0 i)) + 2 < 2147483648"
    using inv(2) assms(3) unfolding cpu_inv_def by (metis depth.simps(7))+
  then have "unat (ncli (cpus s i)) < 2147483647" by (simp add: nested_def)
  from popcli_nested [OF pushcli_nested [OF n(1) this]] obtain c where "popcli (pushcli (cpus s i)) = Inr c" by blast
  moreover have "lk_locked (the_lock s) \<noteq> 0" "lk_cpu (the_lock s) = Some i"
    using own_only(1) [of s i] inv(1) assms(3) by (simp_all add: own_inv_def)
  ultimately have "holding i (the_lock s) (cpus s i) = Inr (True, c)" by (simp add: holding_def)
  moreover have "at s j = Inside \<Longrightarrow> j = i" using own_only(2) [of s i j] inv(1) assms(3) by simp
  moreover have "eflags (cpus s i) AND FL_IF = 0" using n(1) by (simp add: nested_def)
  moreover have "at s j \<noteq> Panicked" using inv(1) by (simp add: own_inv_def)
  ultimately show ?thesis using \<open>lk_cpu (the_lock s) = Some i\<close> by auto
qed

definition machine_sample :: machine where
  "machine_sample = \<lparr>the_lock = initlock ''ptable'' \<lparr>lk_locked = 1, lk_name = [], lk_cpu = Some 3, lk_pcs = replicate 10 0\<rparr>,
     cpus = (\<lambda>_. \<lparr>ncli = 0, intena = 0, eflags = FL_IF\<rparr>), at = (\<lambda>_. Out)\<rparr>"

lemma machine_sample_start: "lock_start machine_sample"
  by (simp add: lock_start_def machine_sample_def initlock_def cli_wf_def)

text \<open>Processor 0 acquires the free lock while processor 1 has just entered \<^verbatim>\<open>acquire\<close>.\<close>

lemma machine_sample_run: "\<exists>s. lock_step\<^sup>*\<^sup>* machine_sample s \<and> at s 0 = Inside \<and> at s 1 = Enter"
proof -
  let ?s1 = "goto 1 Enter (set_cpu 1 (pushcli (cpus machine_sample 1)) machine_sample)"
  let ?s2 = "goto 0 Enter (set_cpu 0 (pushcli (cpus ?s1 0)) ?s1)"
  let ?s3 = "goto 0 (Enter_read (lk_locked (the_lock ?s2) \<noteq> 0)) (set_cpu 0 (pushcli (cpus ?s2 0)) ?s2)"
  let ?s4 = "after_pop 0 (if lk_locked (the_lock ?s2) \<noteq> 0 \<and> lk_cpu (the_lock ?s3) = Some 0 then Panicked else Spin) ?s3"
  have start: "at machine_sample = (\<lambda>_. Out)" by (simp add: machine_sample_def)
  have s4: "the_lock ?s4 = the_lock machine_sample \<and> at ?s4 0 = Spin \<and> at ?s4 1 = Enter"
    by (simp add: after_pop_def machine_sample_def initlock_def pushcli_def popcli_def cli_def Let_def signed_neg)
  have 1: "lock_step machine_sample ?s1" by (rule lock_step.acquire) (simp add: start)
  have 2: "lock_step ?s1 ?s2" by (rule lock_step.acquire) (simp add: start)
  have 3: "lock_step ?s2 ?s3" by (rule lock_step.acquire_holding) simp
  have 4: "lock_step ?s3 ?s4" by (rule lock_step.acquire_check) simp
  have "lock_step\<^sup>*\<^sup>* machine_sample ?s4"
    using 1 2 3 4 by (meson converse_rtranclp_into_rtranclp rtranclp.rtrancl_refl)
  with s4 obtain s where s: "the_lock s = the_lock machine_sample" "at s 0 = Spin" "at s 1 = Enter"
    "lock_step\<^sup>*\<^sup>* machine_sample s" by blast
  let ?s5 = "goto 0 Won (s\<lparr>the_lock := (the_lock s)\<lparr>lk_locked := 1\<rparr>\<rparr>)"
  let ?s6 = "goto 0 Inside (?s5\<lparr>the_lock := (the_lock ?s5)\<lparr>lk_cpu := Some 0, lk_pcs := getcallerpcs 0 (\<lambda>_. 0)\<rparr>\<rparr>)"
  have "xchg 1 (the_lock s) = (0, (the_lock s)\<lparr>lk_locked := 1\<rparr>)"
    by (simp add: s(1) xchg_def machine_sample_def initlock_def)
  from lock_step.acquire_xchg [OF s(2) this] have "lock_step s ?s5" by simp
  moreover have "lock_step ?s5 ?s6" by (rule lock_step.acquire_owner) simp
  ultimately have "lock_step\<^sup>*\<^sup>* machine_sample ?s6" using s(4) by (meson rtranclp.rtrancl_into_rtrancl)
  moreover have "at ?s6 0 = Inside" "at ?s6 1 = Enter" using s(3) by simp_all
  ultimately show ?thesis by blast
qed

theorem spinlock_mutual_exclusion_witness:
  "\<exists>s. lock_step\<^sup>*\<^sup>* machine_sample s \<and> at s 0 = Inside \<and> at s 1 \<noteq> Inside \<and> eflags (cpus s 0) AND FL_IF = 0"
proof -
  obtain s where "lock_step\<^sup>*\<^sup>* machine_sample s" "at s 0 = Inside" using machine_sample_run by blast
  then show ?thesis using spinlock_mutual_exclusion [OF machine_sample_start, of s 0 1] by auto
qed

end
