(* ===== verification/Grep.thy ===== *)
theory Grep
  imports Prelude
begin

text \<open>
  The program \<^verbatim>\<open>grep.c\<close>: the regular expression matcher and the loop over the input. A C string is the list
  of its bytes before the terminating zero, and reading at its end gives zero. The input is the list
  of the chunks that the successive calls of \<^verbatim>\<open>read\<close> deliver.
\<close>

abbreviation (input) NUL :: byte where "NUL \<equiv> 0"
abbreviation (input) newline :: byte where "newline \<equiv> 0x0a"
abbreviation (input) caret :: byte where "caret \<equiv> 0x5e"
abbreviation (input) star :: byte where "star \<equiv> 0x2a"
abbreviation (input) dollar :: byte where "dollar \<equiv> 0x24"
abbreviation (input) dot :: byte where "dot \<equiv> 0x2e"

subsection \<open>The matcher\<close>

definition ch :: "byte list \<Rightarrow> nat \<Rightarrow> byte" where
  "ch s i = (if i < length s then s ! i else NUL)"

lemma ch_simps [simp]: "ch [] i = 0" "ch (c # s) 0 = c" "ch (c # s) (Suc i) = ch s i"
  by (simp_all add: ch_def)

function matchhere :: "byte list \<Rightarrow> byte list \<Rightarrow> bool" and matchstar :: "byte \<Rightarrow> byte list \<Rightarrow> byte list \<Rightarrow> bool" where
  "matchhere re tx =
     (if re = [] then True
      else if ch re 1 = star then matchstar (ch re 0) (drop 2 re) tx
      else if ch re 0 = dollar \<and> ch re 1 = NUL then ch tx 0 = NUL
      else if ch tx 0 \<noteq> NUL \<and> (ch re 0 = dot \<or> ch re 0 = ch tx 0) then matchhere (tl re) (tl tx)
      else False)"
| "matchstar c re tx =
     (if matchhere re tx then True
      else if ch tx 0 \<noteq> NUL \<and> (ch tx 0 = c \<or> c = dot) then matchstar c re (tl tx)
      else False)"
  by pat_completeness auto
termination
  by (relation "inv_image (less_than <*lex*> less_than <*lex*> less_than)
      (\<lambda>x. case x of Inl (re, tx) \<Rightarrow> (length re, length tx, 0) | Inr (c, re, tx) \<Rightarrow> (length re, length tx, 1 :: nat))")
    (auto simp: ch_def split: if_splits)

declare matchhere.simps [simp del] matchstar.simps [simp del]

fun match_loop :: "byte list \<Rightarrow> byte list \<Rightarrow> bool" where
  "match_loop re [] = matchhere re []"
| "match_loop re (c # tx) = (if matchhere re (c # tx) then True else match_loop re tx)"

definition match :: "byte list \<Rightarrow> byte list \<Rightarrow> bool" where
  "match re tx = (if ch re 0 = caret then matchhere (tl re) tx else match_loop re tx)"

subsection \<open>What a pattern means\<close>

text \<open>The items of a pattern, and the texts that a list of items matches at the front of what follows.\<close>

datatype item = One byte | Many byte | End

fun items :: "byte list \<Rightarrow> item list" where
  "items [] = []"
| "items [c] = (if c = dollar then [End] else [One c])"
| "items (c # d # re) = (if d = star then Many c # items re else One c # items (d # re))"

definition fits :: "byte \<Rightarrow> byte \<Rightarrow> bool" where
  "fits c x \<longleftrightarrow> c = dot \<or> c = x"

inductive matches :: "item list \<Rightarrow> byte list \<Rightarrow> byte list \<Rightarrow> bool" where
  matches_nil: "matches [] [] rest"
| matches_one: "fits c x \<Longrightarrow> matches is w rest \<Longrightarrow> matches (One c # is) (x # w) rest"
| matches_many: "\<forall>x \<in> set u. fits c x \<Longrightarrow> matches is w rest \<Longrightarrow> matches (Many c # is) (u @ w) rest"
| matches_end: "matches [End] [] []"

inductive_simps matches_simps [simp]:
  "matches [] w rest" "matches (One c # is) w rest" "matches (Many c # is) w rest" "matches (End # is) w rest"

definition found_at :: "item list \<Rightarrow> byte list \<Rightarrow> bool" where
  "found_at is tx \<longleftrightarrow> (\<exists>w rest. tx = w @ rest \<and> matches is w rest)"

lemma found_nil [simp]: "found_at [] tx"
  by (simp add: found_at_def)

lemma found_end [simp]: "found_at [End] tx \<longleftrightarrow> tx = []"
  by (auto simp: found_at_def)

lemma found_one [simp]: "found_at (One c # is) tx \<longleftrightarrow> (\<exists>x t. tx = x # t \<and> fits c x \<and> found_at is t)"
proof
  assume "found_at (One c # is) tx"
  then show "\<exists>x t. tx = x # t \<and> fits c x \<and> found_at is t" by (fastforce simp: found_at_def)
next
  assume "\<exists>x t. tx = x # t \<and> fits c x \<and> found_at is t"
  then obtain x w rest where "tx = (x # w) @ rest" "matches (One c # is) (x # w) rest"
    by (auto simp: found_at_def)
  then show "found_at (One c # is) tx" unfolding found_at_def by blast
qed

lemma found_many: "found_at (Many c # is) tx \<longleftrightarrow>
  found_at is tx \<or> (\<exists>x t. tx = x # t \<and> fits c x \<and> found_at (Many c # is) t)"
proof
  assume "found_at (Many c # is) tx"
  then obtain u w rest where u: "tx = u @ w @ rest" "\<forall>x \<in> set u. fits c x" "matches is w rest"
    by (auto simp: found_at_def)
  show "found_at is tx \<or> (\<exists>x t. tx = x # t \<and> fits c x \<and> found_at (Many c # is) t)"
  proof (cases u)
    case Nil
    then show ?thesis using u by (auto simp: found_at_def)
  next
    case (Cons x v)
    then have "matches (Many c # is) (v @ w) rest" using u by auto
    then have "found_at (Many c # is) (v @ w @ rest)" unfolding found_at_def by (metis append_assoc)
    then show ?thesis using u Cons by simp
  qed
next
  assume "found_at is tx \<or> (\<exists>x t. tx = x # t \<and> fits c x \<and> found_at (Many c # is) t)"
  then obtain u w rest where "tx = u @ w @ rest" "\<forall>x \<in> set u. fits c x" "matches is w rest"
  proof
    assume "found_at is tx"
    then show thesis using that [of "[]"] by (auto simp: found_at_def)
  next
    assume "\<exists>x t. tx = x # t \<and> fits c x \<and> found_at (Many c # is) t"
    then obtain x u w rest where "tx = (x # u) @ w @ rest" "\<forall>y \<in> set (x # u). fits c y" "matches is w rest"
      by (auto simp: found_at_def)
    then show thesis by (rule that)
  qed
  then have "matches (Many c # is) (u @ w) rest" "tx = (u @ w) @ rest" by auto
  then show "found_at (Many c # is) tx" unfolding found_at_def by blast
qed

lemma matcher_found:
  "0 \<notin> set re \<Longrightarrow> 0 \<notin> set tx \<Longrightarrow> matchhere re tx = found_at (items re) tx"
  "0 \<notin> set re' \<Longrightarrow> 0 \<notin> set tx' \<Longrightarrow> matchstar c re' tx' = found_at (Many c # items re') tx'"
proof (induction re tx and c re' tx' rule: matchhere_matchstar.induct)
  case (1 re tx)
  show ?case
  proof (cases re rule: items.cases)
    case (2 a)
    then show ?thesis
      by (subst matchhere.simps) (use "1.prems" in \<open>cases tx, auto simp: fits_def matchhere.simps [of "[]"]\<close>)
  next
    case (3 a b r)
    then show ?thesis
      by (subst matchhere.simps) (use "1.prems" "1.IH" in \<open>cases tx, auto simp: fits_def\<close>)
  qed (simp add: matchhere.simps)
next
  case (2 c re tx)
  show ?case
    by (subst matchstar.simps, subst found_many) (use 2 in \<open>cases tx, auto simp: fits_def\<close>)
qed

lemma match_loop_found: "0 \<notin> set re \<Longrightarrow> 0 \<notin> set tx \<Longrightarrow> match_loop re tx \<longleftrightarrow> (\<exists>u t. tx = u @ t \<and> found_at (items re) t)"
proof (induction tx)
  case (Cons c tx)
  have "(\<exists>u t. c # tx = u @ t \<and> found_at (items re) t) \<longleftrightarrow> found_at (items re) (c # tx) \<or> (\<exists>u t. tx = u @ t \<and> found_at (items re) t)"
    by (metis append_Cons append_Nil list.exhaust_sel list.sel(3) tl_append2)
  then show ?case using Cons by (simp add: matcher_found(1))
qed (simp add: matcher_found(1))

text \<open>C27: the matcher of \<^verbatim>\<open>grep\<close> decides exactly what a pattern means: \<^verbatim>\<open>match(re, text)\<close> is true iff some part of the text (its front,
  when the pattern starts with a caret) is a word of the pattern, where a dot stands for any character, a
  starred character for any number of repetitions and a final dollar for the end of the text.\<close>

theorem match_correct:
  assumes "0 \<notin> set re" "0 \<notin> set tx"
  shows "match re tx \<longleftrightarrow>
    (case re of
       c # re' \<Rightarrow> if c = caret then \<exists>w rest. tx = w @ rest \<and> matches (items re') w rest
                 else \<exists>u w rest. tx = u @ w @ rest \<and> matches (items re) w rest
     | [] \<Rightarrow> True)"
proof (cases re)
  case Nil
  then show ?thesis using match_loop_found [of re tx] assms by (auto simp: match_def)
next
  case (Cons c re')
  then show ?thesis
    using assms matcher_found(1) [of re' tx] match_loop_found [of re tx] by (auto simp: match_def found_at_def)
qed

theorem match_correct_witness:
  "match [0x5e, 0x61, 0x2a, 0x62, 0x24] [0x61, 0x61, 0x62] \<and>
   (\<exists>w rest. [0x61, 0x61, 0x62 :: byte] = w @ rest \<and> matches [Many 0x61, One 0x62, End] w rest)"
proof -
  let ?re = "[0x5e, 0x61, 0x2a, 0x62, 0x24] :: byte list" let ?t = "[0x61, 0x61, 0x62] :: byte list"
  have "matches [Many 0x61, One 0x62, End] ([0x61, 0x61] @ [0x62]) []"
    by (intro matches.intros) (simp_all add: fits_def)
  then have m: "\<exists>w rest. ?t = w @ rest \<and> matches [Many 0x61, One 0x62, End] w rest"
    by (intro exI [of _ ?t] exI [of _ "[]"]) simp
  then show ?thesis using match_correct [of ?re ?t] by simp
qed

subsection \<open>The input loop\<close>

text \<open>\<^verbatim>\<open>strchr\<close>: the offset of the first \<open>c\<close> before the terminating zero.\<close>

fun strchr :: "byte list \<Rightarrow> byte \<Rightarrow> nat option" where
  "strchr [] c = None"
| "strchr (x # s) c = (if x = NUL then None else if x = c then Some 0 else map_option Suc (strchr s c))"

lemma strchr_less: "strchr s c = Some i \<Longrightarrow> i < length s"
  by (induction s arbitrary: i) (auto split: if_splits)

text \<open>The inner loop from \<^verbatim>\<open>p\<close> on: what is written, and the bytes behind the last newline.\<close>

function grep_lines :: "byte list \<Rightarrow> byte list \<Rightarrow> byte list \<times> byte list" where
  "grep_lines re p =
     (case strchr p newline of
        None \<Rightarrow> ([], p)
      | Some q \<Rightarrow> (let (out, rest) = grep_lines re (drop (q + 1) p)
                   in ((if match re (take q p) then take (q + 1) p else []) @ out, rest)))"
  by pat_completeness auto
termination
  by (relation "measure (\<lambda>(re, p). length p)") (auto dest: strchr_less)

declare grep_lines.simps [simp del]

text \<open>The outer loop: \<open>buf\<close> holds the \<^verbatim>\<open>m\<close> bytes kept from before. A chunk has at most
  \<^verbatim>\<open>sizeof(buf) - m - 1\<close> bytes.\<close>

fun grep :: "byte list \<Rightarrow> byte list list \<Rightarrow> byte list \<Rightarrow> byte list" where
  "grep re [] buf = []"
| "grep re (chunk # chunks) buf =
     (let b = buf @ chunk; (out, p) = grep_lines re b
      in out @ grep re chunks (if length p = length b then [] else p))"

text \<open>The lines of a text that end in a newline.\<close>

function full_lines :: "byte list \<Rightarrow> byte list list" where
  "full_lines s =
     (if newline \<in> set s then takeWhile (\<lambda>c. c \<noteq> newline) s # full_lines (tl (dropWhile (\<lambda>c. c \<noteq> newline) s)) else [])"
  by pat_completeness auto
termination
proof (relation "measure length")
  fix s :: "byte list"
  assume "newline \<in> set s"
  then have "s \<noteq> []" by auto
  then show "(tl (dropWhile (\<lambda>c. c \<noteq> newline) s), s) \<in> measure length"
    using length_dropWhile_le [of "\<lambda>c. c \<noteq> newline" s] by (cases s) auto
qed simp

declare full_lines.simps [simp del]

definition selected :: "byte list \<Rightarrow> byte list \<Rightarrow> byte list" where
  "selected re s = concat (map (\<lambda>l. l @ [newline]) (filter (match re) (full_lines s)))"

lemma full_lines_split:
  "newline \<notin> set l \<Longrightarrow> full_lines (l @ newline # s) = l # full_lines s"
  "newline \<notin> set s \<Longrightarrow> full_lines s = []"
proof -
  assume "newline \<notin> set l"
  then have "takeWhile (\<lambda>c. c \<noteq> newline) (l @ newline # s) = l" "dropWhile (\<lambda>c. c \<noteq> newline) (l @ newline # s) = newline # s"
    by (induction l) auto
  then show "full_lines (l @ newline # s) = l # full_lines s" by (subst full_lines.simps) simp
next
  assume "newline \<notin> set s"
  then show "full_lines s = []" by (subst full_lines.simps) simp
qed

definition rest_of :: "byte list \<Rightarrow> byte list" where
  "rest_of s = rev (takeWhile (\<lambda>c. c \<noteq> newline) (rev s))"

lemma rest_of_split [simp]:
  "rest_of (l @ newline # s) = rest_of s" "newline \<notin> set s \<Longrightarrow> rest_of s = s" "newline \<notin> set (rest_of s)"
proof -
  show "rest_of s = s" if "newline \<notin> set s"
  proof -
    have "takeWhile (\<lambda>c. c \<noteq> newline) (rev s) = rev s" using that by (auto simp: takeWhile_eq_all_conv)
    then show ?thesis unfolding rest_of_def by (simp only: rev_rev_ident)
  qed
  show "rest_of (l @ newline # s) = rest_of s"
  proof -
    have "takeWhile (\<lambda>c. c \<noteq> newline) (r @ newline # t) = takeWhile (\<lambda>c. c \<noteq> newline) r" for r t by (induction r) auto
    then show ?thesis by (simp add: rest_of_def)
  qed
  show "newline \<notin> set (rest_of s)" by (auto simp: rest_of_def dest: set_takeWhileD)
qed

text \<open>Induction over the full lines of a text.\<close>

lemma lines_induct [case_names no_newline line]:
  assumes "\<And>s. newline \<notin> set s \<Longrightarrow> P s" "\<And>l s. newline \<notin> set l \<Longrightarrow> P s \<Longrightarrow> P (l @ newline # s)"
  shows "P s"
proof (induction "length s" arbitrary: s rule: less_induct)
  case less
  show ?case
  proof (cases "newline \<in> set s")
    case True
    then obtain l r where "s = l @ newline # r" "newline \<notin> set l" by (meson split_list_first)
    then show ?thesis using assms(2) less by simp
  qed (rule assms(1))
qed

lemma selected_split [simp]:
  "newline \<notin> set s \<Longrightarrow> selected re s = []"
  "newline \<notin> set l \<Longrightarrow> selected re (l @ newline # s) = (if match re l then l @ [newline] else []) @ selected re s"
  by (simp_all add: selected_def full_lines_split)

lemma selected_append: "selected re (a @ b) = selected re a @ selected re (rest_of a @ b)"
proof (induction a rule: lines_induct)
  case (line l s)
  then show ?case using selected_split(2) [of l re "s @ b"] by simp
qed simp

lemma strchr_none: "newline \<notin> set s \<Longrightarrow> strchr s newline = None"
  by (induction s) auto

lemma strchr_line: "newline \<notin> set l \<Longrightarrow> 0 \<notin> set l \<Longrightarrow> strchr (l @ newline # s) newline = Some (length l)"
  by (induction l) auto

lemma grep_lines_selected: "0 \<notin> set s \<Longrightarrow> grep_lines re s = (selected re s, rest_of s)"
proof (induction s rule: lines_induct)
  case (no_newline s)
  then show ?case by (subst grep_lines.simps) (simp add: strchr_none)
next
  case (line l s)
  then show ?case by (subst grep_lines.simps) (simp add: strchr_line)
qed

lemma rest_shorter: "newline \<in> set s \<Longrightarrow> length (rest_of s) < length s"
proof (induction s rule: lines_induct)
  case (line l s)
  then show ?case by (cases "newline \<in> set s") auto
qed simp



text \<open>C29: a chunk without a newline is thrown away. A line that reaches \<^verbatim>\<open>grep\<close> in two reads is matched and printed as
  if its first part were not there.\<close>

theorem grep_drops_partial_line:
  assumes "u \<noteq> []" "newline \<notin> set (u @ v)" "0 \<notin> set (u @ v)"
  shows "grep re [u, v @ [newline]] [] = (if match re v then v @ [newline] else [])"
proof -
  have u: "grep_lines re u = ([], u)" using assms by (simp add: grep_lines_selected)
  have v: "grep_lines re (v @ [newline]) = ((if match re v then v @ [newline] else []), [])"
    using assms selected_split(2) [of v re "[]"] rest_of_split(1) [of v "[]"] by (simp add: grep_lines_selected)
  show ?thesis by (simp add: u v Let_def)
qed

theorem grep_drops_partial_line_witness:
  "grep [0x61, 0x62] [[0x61], [0x62] @ [newline]] [] = [] \<and> match [0x61, 0x62] [0x61, 0x62]"
proof -
  have "\<not> match [0x61, 0x62] [0x62]" "match [0x61, 0x62] [0x61, 0x62]" by (simp_all add: match_def matchhere.simps)
  then show ?thesis using grep_drops_partial_line [of "[0x61]" "[0x62]" "[0x61, 0x62]"] by simp
qed

end
