(* ===== verification/Ulib.thy ===== *)
theory Ulib
  imports Console
begin

text \<open>
  The user library: \<^verbatim>\<open>ulib.c\<close> and \<^verbatim>\<open>printf.c\<close>. Strings are in byte memory; a loop that runs until it meets
  a zero byte may never end, so the string functions are partial. The bytes that \<^verbatim>\<open>printf\<close> writes and
  that \<^verbatim>\<open>read\<close> delivers to \<^verbatim>\<open>gets\<close>, one at a time, are lists.
\<close>

subsection \<open>Strings\<close>

partial_function (option) strcpy :: "uint \<Rightarrow> uint \<Rightarrow> mem \<Rightarrow> mem option" where
  "strcpy s t m = (let m1 = m(s := m t) in if m t \<noteq> 0 then strcpy (s + 1) (t + 1) m1 else Some m1)"

partial_function (option) strcmp :: "uint \<Rightarrow> uint \<Rightarrow> mem \<Rightarrow> int option" where
  "strcmp p q m = (if m p \<noteq> 0 \<and> m p = m q then strcmp (p + 1) (q + 1) m else Some (uint (m p) - uint (m q)))"

partial_function (option) user_strlen_from :: "uint \<Rightarrow> uint \<Rightarrow> mem \<Rightarrow> uint option" where
  "user_strlen_from n s m = (if m (s + n) \<noteq> 0 then user_strlen_from (n + 1) s m else Some n)"

definition user_strlen :: "uint \<Rightarrow> mem \<Rightarrow> uint option" where
  "user_strlen s m = user_strlen_from 0 s m"

partial_function (option) strchr_from :: "uint \<Rightarrow> byte \<Rightarrow> mem \<Rightarrow> uint option" where
  "strchr_from s c m = (if m s = 0 then Some 0 else if m s = c then Some s else strchr_from (s + 1) c m)"

definition user_memset :: "uint \<Rightarrow> cint \<Rightarrow> uint \<Rightarrow> mem \<Rightarrow> mem" where
  "user_memset dst c n m = stosb (unat n) dst (ucast c) m"

text \<open>The user library's \<^verbatim>\<open>memmove\<close> always copies upwards.\<close>

definition user_memmove :: "uint \<Rightarrow> uint \<Rightarrow> cint \<Rightarrow> mem \<Rightarrow> mem" where
  "user_memmove vdst vsrc n m = copy_up (nat (sint n)) vdst vsrc m"

text \<open>\<^verbatim>\<open>gets\<close> with \<open>k\<close> bytes of room before the last one: the line and the input that is left.\<close>

fun gets_loop :: "nat \<Rightarrow> byte list \<Rightarrow> byte list \<times> byte list" where
  "gets_loop 0 input = ([], input)"
| "gets_loop (Suc k) [] = ([], [])"
| "gets_loop (Suc k) (c # input) =
     (if c = 0x0a \<or> c = 0x0d then ([c], input)
      else let (line, rest) = gets_loop k input in (c # line, rest))"

definition gets :: "cint \<Rightarrow> byte list \<Rightarrow> byte list \<times> byte list" where
  "gets nbuf input = gets_loop (nat (sint nbuf - 1)) input"

fun atoi_loop :: "cint \<Rightarrow> byte list \<Rightarrow> cint" where
  "atoi_loop n [] = n"
| "atoi_loop n (c # s) = (if 0x30 \<le> c \<and> c \<le> 0x39 then atoi_loop (n * 10 + ucast c - 0x30) s else n)"

definition atoi :: "byte list \<Rightarrow> cint" where
  "atoi s = atoi_loop 0 s"

subsection \<open>printf\<close>

definition user_printint :: "cint \<Rightarrow> uint \<Rightarrow> bool \<Rightarrow> byte list" where
  "user_printint xx base sign = rev (printint_buf (cstr ''0123456789ABCDEF'') xx base sign)"

text \<open>The loop over the format; \<open>state\<close> says whether the last character was a per cent sign.\<close>

fun printf_loop :: "bool \<Rightarrow> byte list \<Rightarrow> fmtarg list \<Rightarrow> byte list res" where
  "printf_loop state [] ap = Inr []"
| "printf_loop False (c # fmt) ap =
     (if c = 0x25 then printf_loop True fmt ap else andThen (printf_loop False fmt ap) (\<lambda>out. Inr (c # out)))"
| "printf_loop True (c # fmt) ap =
     (if c = 0x64
      then (case ap of ArgInt x # ap1 \<Rightarrow> andThen (printf_loop False fmt ap1) (\<lambda>out. Inr (user_printint x 10 True @ out))
                     | _ \<Rightarrow> stuck ''printf: argument'')
      else if c = 0x78 \<or> c = 0x70
      then (case ap of ArgInt x # ap1 \<Rightarrow> andThen (printf_loop False fmt ap1) (\<lambda>out. Inr (user_printint x 16 False @ out))
                     | _ \<Rightarrow> stuck ''printf: argument'')
      else if c = 0x73
      then (case ap of ArgStr t # ap1 \<Rightarrow>
              andThen (printf_loop False fmt ap1) (\<lambda>out. Inr ((case t of None \<Rightarrow> cstr ''(null)'' | Some u \<Rightarrow> u) @ out))
                     | _ \<Rightarrow> stuck ''printf: argument'')
      else if c = 0x63
      then (case ap of ArgInt x # ap1 \<Rightarrow> andThen (printf_loop False fmt ap1) (\<lambda>out. Inr (ucast x # out))
                     | _ \<Rightarrow> stuck ''printf: argument'')
      else if c = 0x25 then andThen (printf_loop False fmt ap) (\<lambda>out. Inr (c # out))
      else andThen (printf_loop False fmt ap) (\<lambda>out. Inr (0x25 # c # out)))"

definition printf :: "byte list \<Rightarrow> fmtarg list \<Rightarrow> byte list res" where
  "printf fmt ap = printf_loop False fmt ap"

subsection \<open>Decimal numbers\<close>

text \<open>The value of a list of decimal digits, the first one the most significant.\<close>

definition digits_value :: "byte list \<Rightarrow> nat" where
  "digits_value ds = foldl (\<lambda>n c. n * 10 + (unat c - 48)) 0 ds"

abbreviation (input) user_digits :: "byte list" where "user_digits \<equiv> cstr ''0123456789ABCDEF''"

lemma digit_nth: "d < 10 \<Longrightarrow> unat (user_digits ! d) = 48 + d"
proof -
  assume "d < 10"
  then have "d \<in> {0, 1, 2, 3, 4, 5, 6, 7, 8, 9}" by auto
  then show ?thesis by (auto simp: cstr_def)
qed

lemma div_ten: "x div 10 = 0 \<longleftrightarrow> unat x < 10" for x :: uint
  by (simp add: word_unat_eq_iff unat_div div_eq_0_iff)

lemma digits_loop_value:
  "digits_value (rev (digits_loop user_digits 10 x)) = unat x \<and>
   (\<forall>c \<in> set (digits_loop user_digits 10 x). 48 \<le> unat c \<and> unat c \<le> 57)"
proof (induction "unat x" arbitrary: x rule: less_induct)
  case less
  have d: "unat (user_digits ! unat (x mod 10)) = 48 + unat x mod 10"
    using digit_nth [of "unat (x mod 10)"] by (simp add: unat_mod)
  have eq: "digits_loop user_digits 10 x =
      user_digits ! unat (x mod 10) # (if x div 10 = 0 then [] else digits_loop user_digits 10 (x div 10))"
    by (subst digits_loop.simps) simp
  show ?case
  proof (cases "unat x < 10")
    case True
    then show ?thesis using d by (simp add: eq div_ten digits_value_def)
  next
    case False
    then have "unat (x div 10) < unat x" by (simp add: unat_div)
    from less [OF this] have ih: "digits_value (rev (digits_loop user_digits 10 (x div 10))) = unat x div 10"
      "\<forall>c \<in> set (digits_loop user_digits 10 (x div 10)). 48 \<le> unat c \<and> unat c \<le> 57"
      by (simp_all add: unat_div)
    show ?thesis using False d ih by (simp add: eq div_ten digits_value_def)
  qed
qed

lemma atoi_digits:
  assumes "\<forall>c \<in> set ds. 48 \<le> unat c \<and> unat c \<le> 57"
  shows "atoi_loop (of_nat k) ds = of_nat (foldl (\<lambda>n c. n * 10 + (unat c - 48)) k ds)"
  using assms
proof (induction ds arbitrary: k)
  case (Cons c ds)
  have c: "48 \<le> unat c" "unat c \<le> 57" using Cons.prems by simp_all
  then have le: "0x30 \<le> c" "c \<le> 0x39" by (simp_all add: word_le_nat_alt)
  have "(ucast c :: cint) = of_nat (unat c)" by simp
  then have "of_nat k * 10 + ucast c - 0x30 = (of_nat (k * 10 + (unat c - 48)) :: cint)"
    using c(1) by (simp only: of_nat_add of_nat_mult of_nat_diff) simp
  then have "atoi_loop (of_nat k) (c # ds) = atoi_loop (of_nat (k * 10 + (unat c - 48))) ds"
    using le by (simp only: atoi_loop.simps simp_thms if_True)
  then show ?case using Cons.IH [of "k * 10 + (unat c - 48)"] Cons.prems by simp
qed simp

text \<open>C30: numbers survive printing. The decimal digits that \<^verbatim>\<open>printf("%d", x)\<close> writes for a non-negative \<open>x\<close> are read back by
  \<^verbatim>\<open>atoi\<close> as \<open>x\<close>.\<close>

theorem atoi_printint:
  assumes "0 \<le>s x"
  shows "printf [0x25, 0x64] [ArgInt x] = Inr (user_printint x 10 True) \<and> atoi (user_printint x 10 True) = x"
proof -
  have "\<not> x <s 0" using assms by (simp add: word_sle_eq word_sless_alt)
  then have p: "user_printint x 10 True = rev (digits_loop user_digits 10 x)"
    by (simp add: user_printint_def printint_buf_def)
  have "atoi_loop (of_nat 0) (rev (digits_loop user_digits 10 x)) = of_nat (unat x)"
    using digits_loop_value [of x] atoi_digits [of "rev (digits_loop user_digits 10 x)" 0] by (simp add: digits_value_def)
  then show ?thesis by (simp add: printf_def atoi_def p)
qed

theorem atoi_printint_witness: "atoi (user_printint 537 10 True) = 537"
  using atoi_printint [of 537] by (simp add: word_sle_eq)

subsection \<open>The buffer of printint\<close>

lemma digits_loop_length:
  assumes "10 \<le> base" "unat x < 10 ^ Suc k"
  shows "length (digits_loop ds base x) \<le> Suc k"
  using assms(2)
proof (induction k arbitrary: x)
  case 0
  have "unat x < unat base" using 0 assms(1) by (simp add: word_le_nat_alt)
  then have "x div base = 0" by (simp add: word_unat_eq_iff unat_div)
  then show ?case by (subst digits_loop.simps) simp
next
  case (Suc k)
  have "unat (x div base) \<le> unat x div 10"
    using assms(1) by (simp add: unat_div word_le_nat_alt div_le_mono2)
  also have "\<dots> < 10 ^ Suc k" using Suc.prems by (simp add: div_less_iff_less_mult)
  finally have "length (digits_loop ds base (x div base)) \<le> Suc k" by (rule Suc.IH)
  then show ?case by (subst digits_loop.simps) simp
qed

text \<open>C31: neither \<^verbatim>\<open>printint\<close>, the kernel's or the user's, can overflow its \<^verbatim>\<open>buf[16]\<close>: with a base of ten or more, which is what
  every caller passes, at most eleven characters are stored, whatever the number and the sign.\<close>

theorem printint_fits_buf:
  assumes "10 \<le> base"
  shows "length (printint_buf ds x base sign) \<le> 11 \<and> length (printint x base sign) \<le> 11 \<and>
    length (user_printint x base sign) \<le> 11"
proof -
  have "length (digits_loop d base y) \<le> Suc 9" for d y
    by (rule digits_loop_length [OF assms]) (use unat_lt32 [of y] in simp)
  then have "length (printint_buf d x base sign) \<le> 11" for d
    using le_SucI by (fastforce simp: printint_buf_def Let_def)
  then show ?thesis by (simp add: printint_def user_printint_def)
qed

theorem printint_fits_buf_witness: "length (printint (- 2147483648) 10 True) \<le> 11"
  using printint_fits_buf [of 10 "[]" "- 2147483648" True] by simp

text \<open>C32: unlike the kernel's, the user library's \<^verbatim>\<open>memmove\<close> is wrong for overlapping ranges: moving \<open>n\<close> bytes up by one fills
  the range with copies of the first byte.\<close>

theorem user_memmove_smears:
  assumes "0 \<le>s n" "i \<le> unat n"
  shows "user_memmove (p + 1) p n m (p + of_nat i) = m p"
proof -
  have smear: "(i \<le> k \<longrightarrow> copy_up k (q + 1) q m' (q + of_nat i) = m' q) \<and>
      (\<forall>a. k \<le> unat (a - q - 1) \<longrightarrow> copy_up k (q + 1) q m' a = m' a)" if "k < 2147483648" for k q i m'
    using that
  proof (induction k arbitrary: q i m')
    case (Suc k)
    let ?m = "m'(q + 1 := m' q)"
    have step: "copy_up (Suc k) (q + 1) q m' = copy_up k (q + 1 + 1) (q + 1) ?m" by simp
    have ih: "j \<le> k \<longrightarrow> copy_up k (q + 1 + 1) (q + 1) ?m (q + 1 + of_nat j) = ?m (q + 1)"
      "k \<le> unat (a - (q + 1) - 1) \<Longrightarrow> copy_up k (q + 1 + 1) (q + 1) ?m a = ?m a" for j a
      using Suc.IH [of j "q + 1" ?m] Suc_lessD [OF Suc.prems] by blast+
    have frame: "copy_up (Suc k) (q + 1) q m' a = m' a" if "Suc k \<le> unat (a - q - 1)" for a
    proof -
      have "unat (a - q - 1 - 1) = unat (a - q - 1) - 1" using that unat_sub_if' [of "a - q - 1" 1] by simp
      then have "k \<le> unat (a - (q + 1) - 1)" using that by (simp add: algebra_simps)
      moreover have "a \<noteq> q + 1" using that by auto
      ultimately show ?thesis unfolding step using ih(2) by simp
    qed
    have "copy_up (Suc k) (q + 1) q m' (q + of_nat i) = m' q" if "i \<le> Suc k"
    proof (cases i)
      case 0
      then show ?thesis using frame [of q] Suc.prems by simp
    next
      case (Suc j)
      then have a: "q + of_nat i = q + 1 + of_nat j" by simp
      have "j \<le> k" using that Suc by simp
      then show ?thesis unfolding step a using ih(1) [of j] by simp
    qed
    then show ?case using frame by blast
  qed simp
  have "unat n < 2147483648" using assms(1) signed_neg [of n] by (simp add: word_sle_eq word_sless_alt)
  moreover from this have "nat (sint n) = unat n" using sint32 [of n] by simp
  ultimately show ?thesis using smear [of "unat n" i p m] assms(2) by (simp add: user_memmove_def)
qed

theorem user_memmove_smears_witness: "user_memmove 101 100 3 (\<lambda>a. ucast a) 103 = (100 :: byte)"
  using user_memmove_smears [of 3 3 100 "\<lambda>a. ucast a"] by (simp add: word_sle_eq)

end
