(* ===== verification/Shell.thy ===== *)
theory Shell
  imports Prelude
begin

text \<open>
  The command parser of the shell (\<^verbatim>\<open>sh.c\<close>). The line is the list \<open>b\<close> of its bytes, the terminating zero is
  at index \<open>length b\<close>, and the pointers \<^verbatim>\<open>s\<close>, \<^verbatim>\<open>q\<close>, \<^verbatim>\<open>eq\<close> are indices into it. A parsed command is a tree whose strings
  are pairs of the index of the first byte and the index behind the last one. \<^verbatim>\<open>panic\<close> prints and
  exits. \<^verbatim>\<open>malloc\<close> is taken to succeed.
\<close>

abbreviation (input) MAXARGS :: nat where "MAXARGS \<equiv> 10"

definition whitespace :: "byte list" where
  "whitespace = [0x20, 0x09, 0x0d, 0x0a, 0x0b]"

definition symbols :: "byte list" where
  "symbols = [0x3c, 0x7c, 0x3e, 0x26, 0x3b, 0x28, 0x29]"

definition char_at :: "byte list \<Rightarrow> nat \<Rightarrow> byte" where
  "char_at b s = (if s < length b then b ! s else 0)"

datatype cmd =
    EXEC "(nat \<times> nat) list"
  | REDIR cmd "nat \<times> nat" cint cint
  | PIPE cmd cmd
  | LIST cmd cmd
  | BACK cmd

subsection \<open>Tokens\<close>

function skip_space :: "byte list \<Rightarrow> nat \<Rightarrow> nat" where
  "skip_space b s = (if s < length b \<and> b ! s \<in> set whitespace then skip_space b (s + 1) else s)"
  by pat_completeness auto
termination
  by (relation "measure (\<lambda>(b, s). length b - s)") auto

function skip_word :: "byte list \<Rightarrow> nat \<Rightarrow> nat" where
  "skip_word b s =
     (if s < length b \<and> b ! s \<notin> set whitespace \<and> b ! s \<notin> set symbols then skip_word b (s + 1) else s)"
  by pat_completeness auto
termination
  by (relation "measure (\<lambda>(b, s). length b - s)") auto

declare skip_space.simps [simp del] skip_word.simps [simp del]

text \<open>The token, its start and end, and where the next one starts.\<close>

definition gettoken :: "byte list \<Rightarrow> nat \<Rightarrow> byte \<times> nat \<times> nat \<times> nat" where
  "gettoken b s =
     (let q = skip_space b s; c = char_at b q;
          (ret, eq) = (if c = 0 then (0, q)
                       else if c \<in> {0x7c, 0x28, 0x29, 0x3b, 0x26, 0x3c} then (c, q + 1)
                       else if c = 0x3e then (if char_at b (q + 1) = 0x3e then (0x2b, q + 2) else (c, q + 1))
                       else (0x61, skip_word b q))
      in (ret, q, eq, skip_space b eq))"

definition peek :: "byte list \<Rightarrow> nat \<Rightarrow> byte list \<Rightarrow> nat \<times> bool" where
  "peek b s toks = (let s1 = skip_space b s; c = char_at b s1 in (s1, c \<noteq> 0 \<and> c \<in> set toks))"

lemma skip_space_ge: "s \<le> skip_space b s"
  by (induction b s rule: skip_space.induct) (subst skip_space.simps, auto)

lemma skip_word_ge: "s \<le> skip_word b s"
  by (induction b s rule: skip_word.induct) (subst skip_word.simps, auto)

lemma gettoken_ge: "gettoken b s = (t, q, eq, s') \<Longrightarrow> s \<le> q \<and> q \<le> eq \<and> eq \<le> s'"
  using skip_space_ge [of s b] skip_space_ge [of eq b] skip_word_ge [of "skip_space b s" b]
  by (auto simp: gettoken_def Let_def split: if_splits)

lemma skip_space_idem [simp]: "skip_space b (skip_space b s) = skip_space b s"
  by (induction b s rule: skip_space.induct) (metis skip_space.simps)

lemma char_at_pos: "char_at b s \<noteq> 0 \<Longrightarrow> s < length b"
  by (simp add: char_at_def split: if_splits)

text \<open>A token that is there takes at least one byte.\<close>

lemma gettoken_moves:
  assumes "char_at b (skip_space b s) \<noteq> 0" "gettoken b s = (t, q, eq, s')"
  shows "s < s'"
proof -
  let ?q = "skip_space b s"
  have q: "?q < length b" "b ! ?q = char_at b ?q" using assms(1) char_at_pos [OF assms(1)] by (auto simp: char_at_def)
  have ns: "b ! ?q \<notin> set whitespace"
    using skip_space_idem [of b s] skip_space_ge [of "?q + 1" b] q(1) by (subst (asm) skip_space.simps [of b ?q]) (auto split: if_splits)
  have "?q < skip_word b ?q" if "char_at b ?q \<notin> set symbols"
    using that q ns skip_word_ge [of "?q + 1" b] by (subst skip_word.simps) auto
  moreover have "char_at b ?q \<in> set symbols \<Longrightarrow> char_at b ?q \<in> {0x7c, 0x28, 0x29, 0x3b, 0x26, 0x3c} \<or> char_at b ?q = 0x3e"
    by (auto simp: symbols_def)
  ultimately have "?q < eq" using assms by (auto simp: gettoken_def Let_def split: if_splits)
  then show ?thesis using skip_space_ge [of s b] gettoken_ge [OF assms(2)] by simp
qed

lemma peek_moves: "peek b s toks = (s1, True) \<Longrightarrow> gettoken b s1 = (t, q, eq, s2) \<Longrightarrow> s < s2"
  using gettoken_moves [of b s1] skip_space_ge [of s b] by (auto simp: peek_def Let_def)

lemma token_moves:
  "peek b s toks = (s1, True) \<Longrightarrow> gettoken b s1 = (t, q, eq, s2) \<Longrightarrow> length b - s2 < length b - s"
  using peek_moves [of b s toks s1 t q eq s2] char_at_pos [of b s1] skip_space_ge [of s b] by (auto simp: peek_def Let_def)

lemma two_tokens_move:
  "peek b s toks = (s1, True) \<Longrightarrow> gettoken b s1 = (t, q, eq, s2) \<Longrightarrow> gettoken b s2 = (t', q', eq', s3) \<Longrightarrow>
     length b - s3 < length b - s"
  using token_moves [of b s toks s1 t q eq s2] gettoken_ge [of b s2 t' q' eq' s3] by linarith

subsection \<open>Parsing\<close>

abbreviation (input) O_RDONLY :: cint where "O_RDONLY \<equiv> 0"
abbreviation (input) O_WRONLY_CREATE :: cint where "O_WRONLY_CREATE \<equiv> 0x201"

function parseredirs :: "cmd \<Rightarrow> byte list \<Rightarrow> nat \<Rightarrow> (cmd \<times> nat) res" where
  "parseredirs cmd b s =
     (case peek b s [0x3c, 0x3e] of
        (s1, False) \<Rightarrow> Inr (cmd, s1)
      | (s1, True) \<Rightarrow>
          (case gettoken b s1 of (tok, _, _, s2) \<Rightarrow>
             (case gettoken b s2 of (t, q, eq, s3) \<Rightarrow>
                if t \<noteq> 0x61 then panic ''missing file for redirection''
                else parseredirs (if tok = 0x3c then REDIR cmd (q, eq) O_RDONLY 0
                                  else if tok = 0x3e then REDIR cmd (q, eq) O_WRONLY_CREATE 1
                                  else if tok = 0x2b then REDIR cmd (q, eq) O_WRONLY_CREATE 1
                                  else cmd) b s3)))"
  by pat_completeness auto
termination
  by (relation "measure (\<lambda>(cmd, b, s). length b - s)") (auto dest: two_tokens_move [OF sym sym sym])

declare parseredirs.simps [simp del]

text \<open>The argument goes to the \<^verbatim>\<open>execcmd\<close> inside the redirections.\<close>

fun add_arg :: "nat \<times> nat \<Rightarrow> cmd \<Rightarrow> cmd" where
  "add_arg a (EXEC as) = EXEC (as @ [a])"
| "add_arg a (REDIR c f mode fd) = REDIR (add_arg a c) f mode fd"
| "add_arg a c = c"

text \<open>The loop of \<^verbatim>\<open>parseexec\<close>.\<close>

function parseargs :: "nat \<Rightarrow> cmd \<Rightarrow> byte list \<Rightarrow> nat \<Rightarrow> (cmd \<times> nat) res" where
  "parseargs argc ret b s =
     (case peek b s [0x7c, 0x29, 0x26, 0x3b] of
        (s1, True) \<Rightarrow> Inr (ret, s1)
      | (s1, False) \<Rightarrow>
          (case gettoken b s1 of (tok, q, eq, s2) \<Rightarrow>
             if tok = 0 then Inr (ret, s2)
             else if tok \<noteq> 0x61 then panic ''syntax''
             else if argc + 1 \<ge> MAXARGS then panic ''too many args''
             else (case parseredirs (add_arg (q, eq) ret) b s2 of
                     Inl e \<Rightarrow> Inl e
                   | Inr (ret1, s3) \<Rightarrow> parseargs (argc + 1) ret1 b s3)))"
  by pat_completeness auto
termination
  by (relation "measure (\<lambda>(argc, ret, b, s). MAXARGS - argc)") auto

declare parseargs.simps [simp del]

text \<open>The loop of \<^verbatim>\<open>parseline\<close>.\<close>

function parsebacks :: "cmd \<Rightarrow> byte list \<Rightarrow> nat \<Rightarrow> cmd \<times> nat" where
  "parsebacks cmd b s =
     (case peek b s [0x26] of
        (s1, False) \<Rightarrow> (cmd, s1)
      | (s1, True) \<Rightarrow> (case gettoken b s1 of (_, _, _, s2) \<Rightarrow> parsebacks (BACK cmd) b s2))"
  by pat_completeness auto
termination
  by (relation "measure (\<lambda>(cmd, b, s). length b - s)") (auto dest: token_moves [OF sym sym])

declare parsebacks.simps [simp del]

text \<open>The recursive descent; \<open>f\<close> is fuel.\<close>

fun parseline :: "nat \<Rightarrow> byte list \<Rightarrow> nat \<Rightarrow> (cmd \<times> nat) res"
  and parsepipe :: "nat \<Rightarrow> byte list \<Rightarrow> nat \<Rightarrow> (cmd \<times> nat) res"
  and parseexec :: "nat \<Rightarrow> byte list \<Rightarrow> nat \<Rightarrow> (cmd \<times> nat) res"
  and parseblock :: "nat \<Rightarrow> byte list \<Rightarrow> nat \<Rightarrow> (cmd \<times> nat) res" where
  "parseline 0 b s = stuck ''parse''"
| "parseline (Suc f) b s =
     andThen (parsepipe f b s) (\<lambda>(cmd, s1).
       let (cmd1, s2) = parsebacks cmd b s1; (s3, semi) = peek b s2 [0x3b]
       in if semi
          then let (_, _, _, s4) = gettoken b s3
               in andThen (parseline f b s4) (\<lambda>(right, s5). Inr (LIST cmd1 right, s5))
          else Inr (cmd1, s3))"
| "parsepipe 0 b s = stuck ''parse''"
| "parsepipe (Suc f) b s =
     andThen (parseexec f b s) (\<lambda>(cmd, s1).
       let (s2, bar) = peek b s1 [0x7c]
       in if bar
          then let (_, _, _, s3) = gettoken b s2
               in andThen (parsepipe f b s3) (\<lambda>(right, s4). Inr (PIPE cmd right, s4))
          else Inr (cmd, s2))"
| "parseexec 0 b s = stuck ''parse''"
| "parseexec (Suc f) b s =
     (let (s1, paren) = peek b s [0x28]
      in if paren then parseblock f b s1
         else andThen (parseredirs (EXEC []) b s1) (\<lambda>(ret, s2). parseargs 0 ret b s2))"
| "parseblock 0 b s = stuck ''parse''"
| "parseblock (Suc f) b s =
     (let (s1, paren) = peek b s [0x28]
      in if \<not> paren then panic ''parseblock''
         else let (_, _, _, s2) = gettoken b s1
              in andThen (parseline f b s2) (\<lambda>(cmd, s3).
                   let (s4, close) = peek b s3 [0x29]
                   in if \<not> close then panic ''syntax - missing )''
                      else let (_, _, _, s5) = gettoken b s4 in parseredirs cmd b s5))"

text \<open>\<^verbatim>\<open>nulterminate\<close> on the bytes of the line and its terminating zero.\<close>

fun nulterminate :: "cmd \<Rightarrow> byte list \<Rightarrow> byte list" where
  "nulterminate (EXEC as) m = fold (\<lambda>(q, eq) m. m[eq := 0]) as m"
| "nulterminate (REDIR c (q, eq) mode fd) m = (nulterminate c m)[eq := 0]"
| "nulterminate (PIPE l r) m = nulterminate r (nulterminate l m)"
| "nulterminate (LIST l r) m = nulterminate r (nulterminate l m)"
| "nulterminate (BACK c) m = nulterminate c m"

definition parse_fuel :: "byte list \<Rightarrow> nat" where
  "parse_fuel b = 4 * length b + 4"

definition parsecmd :: "byte list \<Rightarrow> (cmd \<times> byte list) res" where
  "parsecmd b =
     andThen (parseline (parse_fuel b) b 0) (\<lambda>(cmd, s).
       let (s1, _) = peek b s []
       in if s1 \<noteq> length b then panic ''syntax'' else Inr (cmd, nulterminate cmd (b @ [0])))"

end
