(* ===== verification/Shell_Spec.thy ===== *)
theory Shell_Spec
  imports Shell
begin

text \<open>
  Correctness of the shell's parser: it always ends, its fuel is enough, every string of the tree it
  builds is a maximal word of the line and is terminated in place, and the text of a command tree
  is parsed back into that tree.
\<close>

subsection \<open>Words\<close>

definition word_char :: "byte \<Rightarrow> bool" where
  "word_char c \<longleftrightarrow> c \<notin> set whitespace \<and> c \<notin> set symbols"

definition slice_ok :: "byte list \<Rightarrow> nat \<times> nat \<Rightarrow> bool" where
  "slice_ok b = (\<lambda>(q, eq). q < eq \<and> eq \<le> length b \<and> (\<forall>i. q \<le> i \<and> i < eq \<longrightarrow> word_char (b ! i)) \<and>
     (eq < length b \<longrightarrow> \<not> word_char (b ! eq)))"

fun slices :: "cmd \<Rightarrow> (nat \<times> nat) list" where
  "slices (EXEC as) = as"
| "slices (REDIR c f mode fd) = slices c @ [f]"
| "slices (PIPE l r) = slices l @ slices r"
| "slices (LIST l r) = slices l @ slices r"
| "slices (BACK c) = slices c"

definition cmd_ok :: "byte list \<Rightarrow> cmd \<Rightarrow> bool" where
  "cmd_ok b c \<longleftrightarrow> (\<forall>x \<in> set (slices c). slice_ok b x)"

lemma cmd_ok_simps [simp]:
  "cmd_ok b (EXEC as) \<longleftrightarrow> (\<forall>x \<in> set as. slice_ok b x)" "cmd_ok b (REDIR c f mode fd) \<longleftrightarrow> cmd_ok b c \<and> slice_ok b f"
  "cmd_ok b (PIPE l r) \<longleftrightarrow> cmd_ok b l \<and> cmd_ok b r" "cmd_ok b (LIST l r) \<longleftrightarrow> cmd_ok b l \<and> cmd_ok b r"
  "cmd_ok b (BACK c) \<longleftrightarrow> cmd_ok b c"
  by (auto simp: cmd_ok_def)

lemma cmd_ok_add_arg: "cmd_ok b c \<Longrightarrow> slice_ok b a \<Longrightarrow> cmd_ok b (add_arg a c)"
  by (induction c) auto

lemma skip_space_end: "skip_space b s < length b \<Longrightarrow> b ! skip_space b s \<notin> set whitespace"
proof (induction b s rule: skip_space.induct)
  case (1 b s)
  then show ?case
    by (cases "s < length b \<and> b ! s \<in> set whitespace") (auto simp: skip_space.simps [of b s])
qed

lemma skip_word_spec:
  "s \<le> length b \<Longrightarrow> skip_word b s \<le> length b \<and> (\<forall>i. s \<le> i \<and> i < skip_word b s \<longrightarrow> word_char (b ! i)) \<and>
     (skip_word b s < length b \<longrightarrow> \<not> word_char (b ! skip_word b s))"
proof (induction b s rule: skip_word.induct)
  case (1 b s)
  show ?case
  proof (cases "s < length b \<and> b ! s \<notin> set whitespace \<and> b ! s \<notin> set symbols")
    case True
    then have e: "skip_word b s = skip_word b (s + 1)" by (simp add: skip_word.simps [of b s])
    have ih: "skip_word b (s + 1) \<le> length b" "\<And>i. s + 1 \<le> i \<Longrightarrow> i < skip_word b (s + 1) \<Longrightarrow> word_char (b ! i)"
      "skip_word b (s + 1) < length b \<Longrightarrow> \<not> word_char (b ! skip_word b (s + 1))"
      using 1(1) [OF True] True by simp_all
    have "word_char (b ! i)" if "s \<le> i" "i < skip_word b (s + 1)" for i
      using that True ih(2) [of i] by (cases "i = s") (auto simp: word_char_def)
    then show ?thesis using ih(1, 3) unfolding e by blast
  next
    case False
    then have "skip_word b s = s" by (auto simp: skip_word.simps [of b s])
    then show ?thesis using 1(2) False by (auto simp: word_char_def)
  qed
qed

lemma word_token:
  assumes "gettoken b s = (0x61, q, eq, s')"
  shows "slice_ok b (q, eq)"
proof -
  let ?q = "skip_space b s"
  have c: "char_at b ?q \<noteq> 0" "char_at b ?q \<notin> set symbols" and e: "q = ?q" "eq = skip_word b ?q"
    using assms by (auto simp: gettoken_def Let_def symbols_def split: if_splits)
  have l: "?q < length b" using char_at_pos [OF c(1)] .
  then have "word_char (b ! ?q)" using skip_space_end [OF l] c(2) by (simp add: word_char_def char_at_def)
  moreover from this have "?q < skip_word b ?q"
    using l skip_word_ge [of "?q + 1" b] by (subst skip_word.simps) (auto simp: word_char_def)
  ultimately show ?thesis using skip_word_spec [of ?q b] l by (simp add: slice_ok_def e)
qed

subsection \<open>The parser ends and makes words\<close>

definition parsed :: "byte list \<Rightarrow> nat \<Rightarrow> (cmd \<times> nat) res \<Rightarrow> bool" where
  "parsed b s r \<longleftrightarrow> (case r of Inl e \<Rightarrow> \<exists>msg. e = Panic msg | Inr (cmd, s') \<Rightarrow> s \<le> s' \<and> cmd_ok b cmd)"

lemma parsed_simps [simp]:
  "parsed b s (panic msg)" "parsed b s (Inr (cmd, s')) \<longleftrightarrow> s \<le> s' \<and> cmd_ok b cmd"
  by (simp_all add: parsed_def)

lemma parsed_bind_at:
  assumes "parsed b s r" "\<And>cmd s'. r = Inr (cmd, s') \<Longrightarrow> s \<le> s' \<Longrightarrow> cmd_ok b cmd \<Longrightarrow> parsed b s (g (cmd, s'))"
  shows "parsed b s (andThen r g)"
  using assms by (cases r) (auto simp: parsed_def)

lemma parsed_bind:
  assumes "parsed b s r" "\<And>cmd s'. s \<le> s' \<Longrightarrow> cmd_ok b cmd \<Longrightarrow> parsed b s (g (cmd, s'))"
  shows "parsed b s (andThen r g)"
  using assms by (rule parsed_bind_at)

lemma parsed_le: "parsed b s' r \<Longrightarrow> s \<le> s' \<Longrightarrow> parsed b s r"
  by (cases r) (auto simp: parsed_def)

lemma peek_ge: "peek b s toks = (s1, r) \<Longrightarrow> s \<le> s1"
  using skip_space_ge [of s b] by (auto simp: peek_def Let_def)

lemma parseredirs_parsed: "cmd_ok b cmd \<Longrightarrow> parsed b s (parseredirs cmd b s)"
proof (induction cmd b s rule: parseredirs.induct)
  case (1 cmd b s)
  obtain s1 r where p: "peek b s [0x3c, 0x3e] = (s1, r)" by fastforce
  obtain t q1 e1 s2 where g1: "gettoken b s1 = (t, q1, e1, s2)" by (cases "gettoken b s1")
  obtain t2 q e s3 where g2: "gettoken b s2 = (t2, q, e, s3)" by (cases "gettoken b s2")
  let ?c = "if t = 0x3c then REDIR cmd (q, e) O_RDONLY 0 else if t = 0x3e then REDIR cmd (q, e) O_WRONLY_CREATE 1
     else if t = 0x2b then REDIR cmd (q, e) O_WRONLY_CREATE 1 else cmd"
  have eq: "parseredirs cmd b s =
      (if r then if t2 = 0x61 then parseredirs ?c b s3 else panic ''missing file for redirection'' else Inr (cmd, s1))"
    by (subst parseredirs.simps) (simp add: p g1 g2 split: bool.split)
  show ?case
  proof (cases "r \<and> t2 = 0x61")
    case True
    then have "cmd_ok b ?c" using word_token [of b s2 q e s3] 1(2) g2 by simp
    then have "parsed b s3 (parseredirs ?c b s3)"
      using 1(1) [OF p [symmetric] _ g1 [symmetric] refl refl g2 [symmetric] refl refl] True by simp
    moreover have "s \<le> s3" using peek_ge [OF p] gettoken_ge [OF g1] gettoken_ge [OF g2] by linarith
    ultimately have "parsed b s (parseredirs ?c b s3)" by (rule parsed_le)
    then show ?thesis using True unfolding eq by (simp only: if_True simp_thms)
  next
    case False
    then show ?thesis using 1(2) peek_ge [OF p] unfolding eq by (cases r) simp_all
  qed
qed

lemma parseargs_parsed: "cmd_ok b ret \<Longrightarrow> parsed b s (parseargs argc ret b s)"
proof (induction argc ret b s rule: parseargs.induct)
  case (1 argc ret b s)
  obtain s1 r where p: "peek b s [0x7c, 0x29, 0x26, 0x3b] = (s1, r)" by fastforce
  obtain t q e s2 where g: "gettoken b s1 = (t, q, e, s2)" by (cases "gettoken b s1")
  have eq: "parseargs argc ret b s = (if r then Inr (ret, s1) else if t = 0 then Inr (ret, s2)
      else if t \<noteq> 0x61 then panic ''syntax'' else if argc + 1 \<ge> MAXARGS then panic ''too many args''
      else andThen (parseredirs (add_arg (q, e) ret) b s2) (\<lambda>(ret1, s3). parseargs (argc + 1) ret1 b s3))"
    by (subst parseargs.simps) (simp add: p g andThen_def split: bool.split sum.split prod.split)
  have le: "s \<le> s1" "s \<le> s2" using peek_ge [OF p] gettoken_ge [OF g] by linarith+
  show ?case
  proof (cases "\<not> r \<and> t = 0x61 \<and> \<not> argc + 1 \<ge> MAXARGS")
    case True
    have "cmd_ok b (add_arg (q, e) ret)" using word_token [of b s1 q e s2] g True 1(2) by (simp add: cmd_ok_add_arg)
    then have "parsed b s2 (parseredirs (add_arg (q, e) ret) b s2)" by (rule parseredirs_parsed)
    then have "parsed b s2 (andThen (parseredirs (add_arg (q, e) ret) b s2) (\<lambda>(ret1, s3). parseargs (argc + 1) ret1 b s3))"
    proof (rule parsed_bind_at)
      fix cmd s3 assume r: "parseredirs (add_arg (q, e) ret) b s2 = Inr (cmd, s3)" and c: "s2 \<le> s3" "cmd_ok b cmd"
      have "parsed b s3 (parseargs (argc + 1) cmd b s3)"
        using 1(1) [OF p [symmetric] _ g [symmetric] refl refl _ _ _ r refl c(2)] True by simp
      then show "parsed b s2 (case (cmd, s3) of (ret1, s3) \<Rightarrow> parseargs (argc + 1) ret1 b s3)"
        using c(1) by (simp add: parsed_le)
    qed
    then show ?thesis using True parsed_le [OF _ le(2)] unfolding eq by simp
  next
    case False
    then show ?thesis using 1(2) le unfolding eq by auto
  qed
qed

lemma parsebacks_parsed: "cmd_ok b cmd \<Longrightarrow> parsebacks cmd b s = (cmd1, s1) \<Longrightarrow> s \<le> s1 \<and> cmd_ok b cmd1"
proof (induction cmd b s arbitrary: cmd1 s1 rule: parsebacks.induct)
  case (1 cmd b s)
  obtain s2 r where p: "peek b s [0x26] = (s2, r)" by fastforce
  obtain t q e s3 where g: "gettoken b s2 = (t, q, e, s3)" by (cases "gettoken b s2")
  have eq: "parsebacks cmd b s = (if r then parsebacks (BACK cmd) b s3 else (cmd, s2))"
    by (subst parsebacks.simps) (simp add: p g split: bool.split)
  show ?case
  proof (cases r)
    case True
    then have "s3 \<le> s1 \<and> cmd_ok b cmd1"
      using 1(1) [OF p [symmetric] _ g [symmetric] refl refl, of cmd1 s1] 1(2,3) eq by simp
    then show ?thesis using peek_ge [OF p] gettoken_ge [OF g] by linarith
  next
    case False
    then show ?thesis using 1(2,3) eq peek_ge [OF p] by simp
  qed
qed

text \<open>Fuel for each of the four: a nested command line starts behind at least one more byte.\<close>

definition fuel_ok :: "byte list \<Rightarrow> nat \<Rightarrow> bool" where
  "fuel_ok b f \<longleftrightarrow> (\<forall>s.
     (4 * (length b - s) + 4 \<le> f \<longrightarrow> parsed b s (parseline f b s)) \<and>
     (4 * (length b - s) + 3 \<le> f \<longrightarrow> parsed b s (parsepipe f b s)) \<and>
     (4 * (length b - s) + 2 \<le> f \<longrightarrow> parsed b s (parseexec f b s)) \<and>
     (4 * (length b - s) + 1 \<le> f \<longrightarrow> parsed b s (parseblock f b s)))"

lemma fuel_okD:
  "fuel_ok b f \<Longrightarrow> 4 * (length b - s) + 4 \<le> f \<Longrightarrow> parsed b s (parseline f b s)"
  "fuel_ok b f \<Longrightarrow> 4 * (length b - s) + 3 \<le> f \<Longrightarrow> parsed b s (parsepipe f b s)"
  "fuel_ok b f \<Longrightarrow> 4 * (length b - s) + 2 \<le> f \<Longrightarrow> parsed b s (parseexec f b s)"
  "fuel_ok b f \<Longrightarrow> 4 * (length b - s) + 1 \<le> f \<Longrightarrow> parsed b s (parseblock f b s)"
  by (simp_all add: fuel_ok_def)

lemma parseline_parsed:
  assumes f: "fuel_ok b f" "4 * (length b - s) + 4 \<le> Suc f"
  shows "parsed b s (parseline (Suc f) b s)"
  unfolding parseline.simps
proof (rule parsed_bind)
  show "parsed b s (parsepipe f b s)" using f by (simp add: fuel_okD)
  fix cmd s1 assume le: "s \<le> s1" and ok: "cmd_ok b cmd"
  obtain cmd1 s2 where bk: "parsebacks cmd b s1 = (cmd1, s2)" by fastforce
  obtain s3 r where p: "peek b s2 [0x3b] = (s3, r)" by fastforce
  obtain t q e s4 where g: "gettoken b s3 = (t, q, e, s4)" by (cases "gettoken b s3")
  note b = parsebacks_parsed [OF ok bk] and p3 = peek_ge [OF p]
  have "parsed b s (andThen (parseline f b s4) (\<lambda>(right, s5). Inr (LIST cmd1 right, s5)))" if r
  proof (rule parsed_bind)
    have "length b - s4 < length b - s2" using token_moves [of b s2 _ s3] p g that by simp
    then have "4 * (length b - s4) + 4 \<le> f" using f(2) le b by linarith
    moreover have "s \<le> s4" using le b p3 gettoken_ge [OF g] by linarith
    ultimately show "parsed b s (parseline f b s4)" using fuel_okD(1) [OF f(1)] parsed_le by blast
  qed (use b in simp)
  then show "parsed b s (case (cmd, s1) of (cmd, s1) \<Rightarrow>
       let (cmd1, s2) = parsebacks cmd b s1; (s3, semi) = peek b s2 [0x3b]
       in if semi then let (_, _, _, s4) = gettoken b s3
               in andThen (parseline f b s4) (\<lambda>(right, s5). Inr (LIST cmd1 right, s5)) else Inr (cmd1, s3))"
    using b p3 le by (simp add: bk p g)
qed

lemma parsepipe_parsed:
  assumes f: "fuel_ok b f" "4 * (length b - s) + 3 \<le> Suc f"
  shows "parsed b s (parsepipe (Suc f) b s)"
  unfolding parsepipe.simps
proof (rule parsed_bind)
  show "parsed b s (parseexec f b s)" using f by (simp add: fuel_okD)
  fix cmd s1 assume le: "s \<le> s1" and ok: "cmd_ok b cmd"
  obtain s2 r where p: "peek b s1 [0x7c] = (s2, r)" by fastforce
  obtain t q e s3 where g: "gettoken b s2 = (t, q, e, s3)" by (cases "gettoken b s2")
  note p2 = peek_ge [OF p]
  have "parsed b s (andThen (parsepipe f b s3) (\<lambda>(right, s4). Inr (PIPE cmd right, s4)))" if r
  proof (rule parsed_bind)
    have "length b - s3 < length b - s1" using token_moves [of b s1 _ s2] p g that by simp
    then have "4 * (length b - s3) + 3 \<le> f" using f(2) le by linarith
    moreover have "s \<le> s3" using le p2 gettoken_ge [OF g] by linarith
    ultimately show "parsed b s (parsepipe f b s3)" using fuel_okD(2) [OF f(1)] parsed_le by blast
  qed (use ok in simp)
  then show "parsed b s (case (cmd, s1) of (cmd, s1) \<Rightarrow>
       let (s2, bar) = peek b s1 [0x7c]
       in if bar then let (_, _, _, s3) = gettoken b s2
               in andThen (parsepipe f b s3) (\<lambda>(right, s4). Inr (PIPE cmd right, s4)) else Inr (cmd, s2))"
    using p2 le ok by (simp add: p g)
qed

lemma parseexec_parsed:
  assumes f: "fuel_ok b f" "4 * (length b - s) + 2 \<le> Suc f"
  shows "parsed b s (parseexec (Suc f) b s)"
proof -
  obtain s1 r where p: "peek b s [0x28] = (s1, r)" by fastforce
  have le: "s \<le> s1" using peek_ge [OF p] .
  have "parsed b s1 (parseblock f b s1)" using fuel_okD(4) [OF f(1)] f(2) le by simp
  moreover have "parsed b s1 (andThen (parseredirs (EXEC []) b s1) (\<lambda>(ret, s2). parseargs 0 ret b s2))"
    by (rule parsed_bind [OF parseredirs_parsed]) (auto intro: parsed_le [OF parseargs_parsed])
  ultimately show ?thesis using parsed_le [OF _ le] by (simp add: p)
qed

lemma parseblock_parsed:
  assumes f: "fuel_ok b f" "4 * (length b - s) + 1 \<le> Suc f"
  shows "parsed b s (parseblock (Suc f) b s)"
proof -
  obtain s1 r where p: "peek b s [0x28] = (s1, r)" by fastforce
  obtain t q e s2 where g: "gettoken b s1 = (t, q, e, s2)" by (cases "gettoken b s1")
  have le: "s \<le> s2" using peek_ge [OF p] gettoken_ge [OF g] by linarith
  have "parsed b s (andThen (parseline f b s2) (\<lambda>(cmd, s3). let (s4, close) = peek b s3 [0x29]
      in if \<not> close then panic ''syntax - missing )'' else let (_, _, _, s5) = gettoken b s4 in parseredirs cmd b s5))" if r
  proof (rule parsed_bind)
    have "length b - s2 < length b - s" using token_moves [of b s _ s1] p g that by simp
    then show "parsed b s (parseline f b s2)" using fuel_okD(1) [OF f(1), of s2] f(2) parsed_le [OF _ le] by simp
    fix cmd s3 assume "s \<le> s3" "cmd_ok b cmd"
    moreover obtain s4 r' where p': "peek b s3 [0x29] = (s4, r')" by fastforce
    moreover obtain t' q' e' s5 where g': "gettoken b s4 = (t', q', e', s5)" by (cases "gettoken b s4")
    moreover have "s3 \<le> s5" using peek_ge [OF p'] gettoken_ge [OF g'] by linarith
    ultimately show "parsed b s (case (cmd, s3) of (cmd, s3) \<Rightarrow> let (s4, close) = peek b s3 [0x29]
      in if \<not> close then panic ''syntax - missing )'' else let (_, _, _, s5) = gettoken b s4 in parseredirs cmd b s5)"
      using parsed_le [OF parseredirs_parsed, of b cmd s s5] by simp
  qed
  then show ?thesis by (simp add: p g)
qed

lemma fuel_enough: "fuel_ok b f"
proof (induction f)
  case (Suc f)
  show ?case
    unfolding fuel_ok_def
    by (intro allI conjI impI parseline_parsed parsepipe_parsed parseexec_parsed parseblock_parsed Suc)
qed (simp add: fuel_ok_def)

lemma parseline_enough: "parsed b 0 (parseline (parse_fuel b) b 0)"
  using fuel_enough [of b "parse_fuel b"] by (simp add: fuel_okD parse_fuel_def)

text \<open>
  C33: the shell's recursive descent parser always ends: on every line \<^verbatim>\<open>parsecmd\<close> either
  returns a command or calls \<^verbatim>\<open>panic\<close> with one of the shell's own messages. The fuel of
  the model never runs out, however deeply the line nests parentheses, pipes and lists.
\<close>

theorem parsecmd_ends:
  "(\<exists>cmd m. parsecmd b = Inr (cmd, m)) \<or> (\<exists>msg. parsecmd b = panic msg)"
  using parseline_enough [of b]
  by (cases "parseline (parse_fuel b) b 0") (auto simp: parsecmd_def parsed_def Let_def split: prod.split)

subsection \<open>Terminating the words in place\<close>

lemma length_nulterminate [simp]: "length (nulterminate c m) = length m"
proof (induction c arbitrary: m)
  case (EXEC as)
  then show ?case by (induction as arbitrary: m) auto
next
  case (REDIR c f mode fd)
  then show ?case by (cases f) simp
qed simp_all

lemma nulterminate_nth:
  "i < length m \<Longrightarrow> nulterminate c m ! i = (if i \<in> snd ` set (slices c) then 0 else m ! i)"
proof (induction c arbitrary: m)
  case (EXEC as)
  then show ?case by (induction as arbitrary: m) (force simp: nth_list_update)+
next
  case (REDIR c f mode fd)
  then show ?case by (cases f; cases "snd f = i") (simp_all add: image_Un)
qed auto

definition c_string :: "byte list \<Rightarrow> nat \<Rightarrow> byte list" where
  "c_string m a = takeWhile (\<lambda>c. c \<noteq> 0) (drop a m)"

lemma c_string_eq:
  assumes "q \<le> e" "e < length m" "m ! e = 0" "\<And>i. q \<le> i \<Longrightarrow> i < e \<Longrightarrow> m ! i \<noteq> 0"
  shows "c_string m q = take (e - q) (drop q m)"
  unfolding c_string_def
proof (rule takeWhile_eq_take_P_nth)
  show "\<not> drop q m ! (e - q) \<noteq> 0" using assms by simp
qed (use assms in auto)

text \<open>
  C34: when \<^verbatim>\<open>parsecmd\<close> returns a command for a line without zero bytes, every string of the
  command tree (an argument or the file of a redirection) is a maximal run of word characters of
  the line, and after \<^verbatim>\<open>nulterminate\<close> the C string its pointer denotes in the modified buffer
  is exactly that run: no terminator of one word cuts another word.
\<close>

theorem parsecmd_words:
  assumes "parsecmd b = Inr (cmd, m)" "0 \<notin> set b" "(q, e) \<in> set (slices cmd)"
  shows "slice_ok b (q, e) \<and> c_string m q = take (e - q) (drop q b)"
proof -
  have ok: "cmd_ok b cmd" and m: "m = nulterminate cmd (b @ [0])"
    using assms(1) parseline_enough [of b]
    by (cases "parseline (parse_fuel b) b 0", auto simp: parsecmd_def parsed_def Let_def split: prod.splits if_splits)+
  then have s: "slice_ok b x" if "x \<in> set (slices cmd)" for x using that by (simp add: cmd_ok_def)
  have qe: "slice_ok b (q, e)" using s assms(3) .
  then have le: "q < e" "e \<le> length b" by (auto simp: slice_ok_def)
  have keep: "m ! i = b ! i" if i: "q \<le> i" "i < e" for i
  proof -
    have "i \<noteq> e'" if "(q', e') \<in> set (slices cmd)" for q' e'
      using s [OF that] qe i by (auto simp: slice_ok_def)
    then have "i \<notin> snd ` set (slices cmd)" by force
    then show ?thesis using i le by (simp add: m nulterminate_nth nth_append)
  qed
  have "c_string m q = take (e - q) (drop q m)"
  proof (rule c_string_eq)
    show "m ! e = 0" using le assms(3) by (force simp: m nulterminate_nth nth_append)
    show "m ! i \<noteq> 0" if "q \<le> i" "i < e" for i using keep [OF that] that le assms(2) by (metis nth_mem order_less_le_trans)
  qed (use le m in auto)
  also have "\<dots> = take (e - q) (drop q b)"
    using le keep by (intro nth_equalityI) (auto simp: m)
  finally show ?thesis using qe by simp
qed

theorem parsecmd_words_witness:
  "\<exists>cmd m. parsecmd [0x6c, 0x73, 0x20, 0x3e, 0x66, 0x3b, 0x28, 0x61, 0x29] = Inr (cmd, m) \<and>
     slices cmd = [(0, 2), (4, 5), (7, 8)] \<and> c_string m 0 = [0x6c, 0x73] \<and> c_string m 4 = [0x66]"
proof -
  let ?b = "[0x6c, 0x73, 0x20, 0x3e, 0x66, 0x3b, 0x28, 0x61, 0x29] :: byte list"
  have e: "parsecmd ?b = Inr (LIST (REDIR (EXEC [(0, 2)]) (4, 5) 0x201 1) (EXEC [(7, 8)]),
      [0x6c, 0x73, 0, 0x3e, 0x66, 0, 0x28, 0x61, 0, 0])"
    by code_simp
  show ?thesis
    using parsecmd_words [OF e, of 0 2] parsecmd_words [OF e, of 4 5] by (simp add: e)
qed

end
