(* ===== verification/Shell_Run.thy ===== *)
theory Shell_Run
  imports Shell_Spec Sysfile
begin

text \<open>
  The shell runs a command tree (\<^verbatim>\<open>runcmd\<close> of \<^verbatim>\<open>sh.c\<close>). A process is its descriptor table; what
  the processes of one command do is the list of their programs, waits and failures, in the order of
  the code, with the table each has at that moment. The file a descriptor denotes is a name: the
  console, an opened file, or an end of the \<open>n\<close>-th pipe. A new descriptor is the one the kernel's
  \<^const>\<open>free_fd\<close> finds. Whether a file opens is the parameter \<open>opens\<close>; \<^verbatim>\<open>fork\<close> succeeds.
\<close>

datatype endpoint = Dev | Opened "nat \<times> nat" cint | ReadEnd nat | WriteEnd nat

type_synonym table = "endpoint option list"

datatype event =
    Exec "(nat \<times> nat) list" table
  | Wait table
  | OpenFailed "nat \<times> nat"
  | PipeFailed

definition fd_close :: "nat \<Rightarrow> table \<Rightarrow> table" where
  "fd_close fd t = t[fd := None]"

definition fd_put :: "endpoint \<Rightarrow> table \<Rightarrow> (nat \<times> table) option" where
  "fd_put x t = map_option (\<lambda>fd. (fd, t[fd := Some x])) (free_fd NOFILE 0 t)"

text \<open>\<^verbatim>\<open>dup\<close>; its result is not looked at.\<close>

definition fd_dup :: "nat \<Rightarrow> table \<Rightarrow> table" where
  "fd_dup fd t =
     (case t ! fd of None \<Rightarrow> t | Some x \<Rightarrow> (case fd_put x t of None \<Rightarrow> t | Some (_, t1) \<Rightarrow> t1))"

definition fd_pipe :: "nat \<Rightarrow> table \<Rightarrow> (nat \<times> nat \<times> table) option" where
  "fd_pipe n t =
     (case fd_put (ReadEnd n) t of
        None \<Rightarrow> None
      | Some (fd0, t1) \<Rightarrow> (case fd_put (WriteEnd n) t1 of None \<Rightarrow> None | Some (fd1, t2) \<Rightarrow> Some (fd0, fd1, t2)))"

text \<open>\<open>n\<close> is the number of pipes made so far.\<close>

fun runcmd :: "(nat \<times> nat \<Rightarrow> cint \<Rightarrow> bool) \<Rightarrow> cmd \<Rightarrow> table \<Rightarrow> nat \<Rightarrow> event list \<times> nat" where
  "runcmd opens (EXEC as) t n = (if as = [] then ([], n) else ([Exec as t], n))"
| "runcmd opens (REDIR c f mode fd) t n =
     (let t1 = fd_close (unat fd) t
      in if opens f mode
         then (case fd_put (Opened f mode) t1 of
                 None \<Rightarrow> ([OpenFailed f], n)
               | Some (_, t2) \<Rightarrow> runcmd opens c t2 n)
         else ([OpenFailed f], n))"
| "runcmd opens (LIST l r) t n =
     (let (es1, n1) = runcmd opens l t n; (es2, n2) = runcmd opens r t n1
      in (es1 @ [Wait t] @ es2, n2))"
| "runcmd opens (PIPE l r) t n =
     (case fd_pipe n t of
        None \<Rightarrow> ([PipeFailed], n)
      | Some (p0, p1, t1) \<Rightarrow>
          let (es1, n1) = runcmd opens l (fd_close p1 (fd_close p0 (fd_dup p1 (fd_close 1 t1)))) (n + 1);
              (es2, n2) = runcmd opens r (fd_close p1 (fd_close p0 (fd_dup p0 (fd_close 0 t1)))) n1;
              t2 = fd_close p1 (fd_close p0 t1)
          in (es1 @ es2 @ [Wait t2, Wait t2], n2))"
| "runcmd opens (BACK c) t n = runcmd opens c t n"

text \<open>Standard input, output and error are open, the other thirteen descriptors are free.\<close>

definition std :: "endpoint \<Rightarrow> endpoint \<Rightarrow> endpoint \<Rightarrow> table" where
  "std i out err = [Some i, Some out, Some err] @ replicate 13 None"

lemma free_fd_std:
  "free_fd NOFILE 0 (std i out err) = Some 3"
  "free_fd NOFILE 0 ((std i out err)[3 := Some x]) = Some 4"
  "free_fd NOFILE 0 ((std i out err)[3 := Some x, 4 := Some y, 0 := None]) = Some 0"
  "free_fd NOFILE 0 ((std i out err)[3 := Some x, 4 := Some y, 1 := None]) = Some 1"
  "free_fd NOFILE 0 ((std i out err)[0 := None]) = Some 0" "free_fd NOFILE 0 ((std i out err)[1 := None]) = Some 1"
  by (simp_all add: std_def eval_nat_numeral)

lemma pipe_std: "fd_pipe n (std i out err) = Some (3, 4, (std i out err)[3 := Some (ReadEnd n), 4 := Some (WriteEnd n)])"
  by (simp add: fd_pipe_def fd_put_def free_fd_std)

text \<open>Each side of a pipe has its end in place of the standard descriptor and nothing more.\<close>

lemma pipe_sides:
  fixes i out err n
  defines "t \<equiv> (std i out err)[3 := Some (ReadEnd n), 4 := Some (WriteEnd n)]"
  shows "fd_close 4 (fd_close 3 (fd_dup 4 (fd_close 1 t))) = std i (WriteEnd n) err"
    "fd_close 4 (fd_close 3 (fd_dup 3 (fd_close 0 t))) = std (ReadEnd n) out err"
    "fd_close 4 (fd_close 3 t) = std i out err"
  by (simp_all add: t_def fd_dup_def fd_close_def fd_put_def std_def eval_nat_numeral)


subsection \<open>Pipelines\<close>

text \<open>The tree the parser makes of \<open>c\<^sub>1 | c\<^sub>2 | \<dots>\<close>, and the program events of a run.\<close>

fun pipeline :: "(nat \<times> nat) list \<Rightarrow> (nat \<times> nat) list list \<Rightarrow> cmd" where
  "pipeline as [] = EXEC as"
| "pipeline as (bs # rest) = PIPE (EXEC as) (pipeline bs rest)"

fun wired :: "endpoint \<Rightarrow> endpoint \<Rightarrow> endpoint \<Rightarrow> nat \<Rightarrow> (nat \<times> nat) list \<Rightarrow> (nat \<times> nat) list list \<Rightarrow> event list" where
  "wired i out err n as [] = [Exec as (std i out err)]"
| "wired i out err n as (bs # rest) = Exec as (std i (WriteEnd n) err) # wired (ReadEnd n) out err (n + 1) bs rest"

definition is_exec :: "event \<Rightarrow> bool" where
  "is_exec e \<longleftrightarrow> (case e of Exec _ _ \<Rightarrow> True | _ \<Rightarrow> False)"

definition plain_wait :: "event \<Rightarrow> bool" where
  "plain_wait e \<longleftrightarrow> (case e of Wait t \<Rightarrow> \<forall>x \<in> set (drop 3 t). x = None | _ \<Rightarrow> False)"

text \<open>
  C35: the programs of a pipeline of any length started with the three standard descriptors are
  wired one to the next: each program but the first reads the pipe the one before it writes, the
  first keeps the standard input and the last the standard output, and no program holds any other
  descriptor. The shells that wait for them have closed both ends of every pipe they made, so the
  only writers of a pipe are the program on its left, and its reader sees the end of file when
  that program ends.
\<close>

theorem pipeline_wired:
  assumes "as \<noteq> []" "[] \<notin> set rest"
  shows "filter is_exec (fst (runcmd opens (pipeline as rest) (std i out err) n)) = wired i out err n as rest \<and>
    (\<forall>e \<in> set (fst (runcmd opens (pipeline as rest) (std i out err) n)). is_exec e \<or> plain_wait e)"
  using assms
proof (induction rest arbitrary: as i n)
  case Nil
  then show ?case by (simp add: is_exec_def)
next
  case (Cons bs rest)
  have w: "plain_wait (Wait (std i out err))" "\<not> is_exec (Wait (std i out err))"
    by (simp_all add: plain_wait_def is_exec_def std_def eval_nat_numeral)
  have "bs \<noteq> []" "[] \<notin> set rest" using Cons.prems by auto
  note ih = Cons.IH [OF this, of "ReadEnd n" "Suc n"]
  obtain es m where r: "runcmd opens (pipeline bs rest) (std (ReadEnd n) out err) (Suc n) = (es, m)" by fastforce
  show ?case
    using ih w Cons.prems(1) by (auto simp: Let_def pipe_std pipe_sides pipe_sides [unfolded One_nat_def] r is_exec_def [of "Exec _ _"])
qed

theorem pipeline_wired_witness:
  "filter is_exec (fst (runcmd (\<lambda>_ _. False) (pipeline [(0, 2)] [[(3, 5)], [(6, 7)]]) (std Dev Dev Dev) 0)) =
     [Exec [(0, 2)] (std Dev (WriteEnd 0) Dev), Exec [(3, 5)] (std (ReadEnd 0) (WriteEnd 1) Dev),
      Exec [(6, 7)] (std (ReadEnd 1) Dev Dev)]"
  using pipeline_wired [of "[(0, 2)]" "[[(3, 5)], [(6, 7)]]" "\<lambda>_ _. False" Dev Dev Dev 0] by simp

end
