(* ===== verification/Umalloc.thy ===== *)
theory Umalloc
  imports Prelude
begin

text \<open>
  The user memory allocator (\<^verbatim>\<open>umalloc.c\<close>): a ring of free blocks in the order of their addresses.
  The memory is seen through the headers: the two words of the header at an address. \<^verbatim>\<open>base\<close>, the
  static header that starts the ring, is at an address the linker chooses. The loops follow pointers
  and are partial functions; that they end is part of the theorems.
\<close>

record heap =
  h_ptr :: "uint \<Rightarrow> uint"
  h_size :: "uint \<Rightarrow> uint"
  freep :: uint
  brk :: uint

definition set_ptr :: "uint \<Rightarrow> uint \<Rightarrow> heap \<Rightarrow> heap" where
  "set_ptr p q h = h\<lparr>h_ptr := (h_ptr h)(p := q)\<rparr>"

definition set_size :: "uint \<Rightarrow> uint \<Rightarrow> heap \<Rightarrow> heap" where
  "set_size p n h = h\<lparr>h_size := (h_size h)(p := n)\<rparr>"

text \<open>The header behind a block of \<open>n\<close> headers at \<open>p\<close>: \<^verbatim>\<open>p + n\<close> on \<^verbatim>\<open>Header *\<close>.\<close>

definition hdr_plus :: "uint \<Rightarrow> uint \<Rightarrow> uint" where
  "hdr_plus p n = p + 8 * n"

partial_function (option) free_loop :: "uint \<Rightarrow> uint \<Rightarrow> heap \<Rightarrow> uint option" where
  "free_loop bp p h =
     (if bp > p \<and> bp < h_ptr h p then Some p
      else if p \<ge> h_ptr h p \<and> (bp > p \<or> bp < h_ptr h p) then Some p
      else free_loop bp (h_ptr h p) h)"

text \<open>Join the block with its upper neighbour, or link it.\<close>

definition join_up :: "uint \<Rightarrow> uint \<Rightarrow> heap \<Rightarrow> heap" where
  "join_up bp p h =
     (let q = h_ptr h p
      in if hdr_plus bp (h_size h bp) = q
         then let h1 = set_size bp (h_size h bp + h_size h q) h in set_ptr bp (h_ptr h1 q) h1
         else set_ptr bp q h)"

definition join_down :: "uint \<Rightarrow> uint \<Rightarrow> heap \<Rightarrow> heap" where
  "join_down bp p h =
     (if hdr_plus p (h_size h p) = bp
      then let h1 = set_size p (h_size h p + h_size h bp) h in set_ptr p (h_ptr h1 bp) h1
      else set_ptr p bp h)"

definition free :: "uint \<Rightarrow> heap \<Rightarrow> heap option" where
  "free ap h =
     (let bp = ap - 8
      in map_option (\<lambda>p. (join_down bp p (join_up bp p h))\<lparr>freep := p\<rparr>) (free_loop bp (freep h) h))"

text \<open>
  \<^verbatim>\<open>sbrk\<close> as \<^verbatim>\<open>sys_sbrk\<close> and \<^verbatim>\<open>growproc\<close> of the kernel do it; \<open>enough\<close> says whether the
  kernel finds the memory.
\<close>

definition sbrk :: "bool \<Rightarrow> cint \<Rightarrow> heap \<Rightarrow> uint \<times> heap" where
  "sbrk enough n h =
     (let old = brk h; new = old + n
      in if 0 <s n
         then if new \<ge> KERNBASE then (-1, h)
              else if new < old then (if old = 0 then -1 else old, h)
              else if enough then (old, h\<lparr>brk := new\<rparr>) else (-1, h)
         else if n <s 0
         then let sz = (if new \<ge> old then old else new) in if sz = 0 then (-1, h) else (old, h\<lparr>brk := sz\<rparr>)
         else (old, h))"

definition morecore :: "bool \<Rightarrow> uint \<Rightarrow> heap \<Rightarrow> (uint \<times> heap) option" where
  "morecore enough nu h =
     (let nu = (if nu < 4096 then 4096 else nu); (p, h1) = sbrk enough (nu * 8) h
      in if p = -1 then Some (0, h1)
         else map_option (\<lambda>h2. (freep h2, h2)) (free (p + 8) (set_size p nu h1)))"

text \<open>Cut \<open>nunits\<close> headers from the end of the block at \<open>p\<close>, or take it whole.\<close>

definition take_block :: "uint \<Rightarrow> uint \<Rightarrow> uint \<Rightarrow> heap \<Rightarrow> uint \<times> heap" where
  "take_block nunits prevp p h =
     (if h_size h p = nunits then (p + 8, (set_ptr prevp (h_ptr h p) h)\<lparr>freep := prevp\<rparr>)
      else let h1 = set_size p (h_size h p - nunits) h; q = hdr_plus p (h_size h1 p)
           in (q + 8, (set_size q nunits h1)\<lparr>freep := prevp\<rparr>))"

partial_function (option) malloc_loop :: "bool \<Rightarrow> uint \<Rightarrow> uint \<Rightarrow> uint \<Rightarrow> heap \<Rightarrow> (uint \<times> heap) option" where
  "malloc_loop enough nunits prevp p h =
     (if h_size h p \<ge> nunits then Some (take_block nunits prevp p h)
      else if p = freep h
      then Option.bind (morecore enough nunits h) (\<lambda>(r, h1).
             if r = 0 then Some (0, h1) else malloc_loop enough nunits r (h_ptr h1 r) h1)
      else malloc_loop enough nunits p (h_ptr h p) h)"

definition units :: "uint \<Rightarrow> uint" where
  "units nbytes = (nbytes + 8 - 1) div 8 + 1"

definition malloc :: "uint \<Rightarrow> bool \<Rightarrow> uint \<Rightarrow> heap \<Rightarrow> (uint \<times> heap) option" where
  "malloc base enough nbytes h =
     (let h1 = (if freep h = 0 then set_size base 0 ((set_ptr base base h)\<lparr>freep := base\<rparr>) else h); prevp = freep h1
      in malloc_loop enough (units nbytes) prevp (h_ptr h1 prevp) h1)"

lemma heap_simps [simp]:
  "h_ptr (set_ptr p q h) = (h_ptr h)(p := q)" "h_size (set_ptr p q h) = h_size h" "freep (set_ptr p q h) = freep h"
  "brk (set_ptr p q h) = brk h" "h_ptr (set_size p n h) = h_ptr h" "h_size (set_size p n h) = (h_size h)(p := n)"
  "freep (set_size p n h) = freep h" "brk (set_size p n h) = brk h"
  by (simp_all add: set_ptr_def set_size_def)

lemma unat_hdr_plus: "unat p + 8 * unat n < 4294967296 \<Longrightarrow> unat (hdr_plus p n) = unat p + 8 * unat n"
  by (simp add: hdr_plus_def unat_word_ariths)

subsection \<open>The ring\<close>

fun path :: "(uint \<Rightarrow> uint) \<Rightarrow> uint \<Rightarrow> uint list \<Rightarrow> uint \<Rightarrow> bool" where
  "path nxt a [] b \<longleftrightarrow> a = b"
| "path nxt a (x # xs) b \<longleftrightarrow> a = x \<and> path nxt (nxt x) xs b"

lemma path_append [simp]: "path nxt a (xs @ ys) b \<longleftrightarrow> (\<exists>c. path nxt a xs c \<and> path nxt c ys b)"
  by (induction xs arbitrary: a) auto

lemma path_upd [simp]: "x \<notin> set xs \<Longrightarrow> path (nxt(x := y)) a xs b = path nxt a xs b"
  by (induction xs arbitrary: a) auto

lemma path_cong: "\<forall>x \<in> set xs. f x = g x \<Longrightarrow> path f a xs b \<Longrightarrow> path g a xs b"
  by (induction xs arbitrary: a) auto

definition stop :: "heap \<Rightarrow> uint \<Rightarrow> nat" where
  "stop h p = unat p + 8 * unat (h_size h p)"

definition block :: "heap \<Rightarrow> uint \<Rightarrow> nat set" where
  "block h p = {unat p ..< stop h p}"

definition space :: "heap \<Rightarrow> uint list \<Rightarrow> nat set" where
  "space h ps = (\<Union>p \<in> set ps. block h p)"

definition ring :: "uint \<Rightarrow> heap \<Rightarrow> uint list \<Rightarrow> bool" where
  "ring base h ps \<longleftrightarrow> (\<exists>rest. ps = base # rest \<and> (\<forall>p \<in> set rest. h_size h p \<noteq> 0)) \<and> base \<noteq> 0 \<and> h_size h base = 0 \<and>
     base < brk h \<and> brk h < KERNBASE \<and>
     path (h_ptr h) base ps base \<and> sorted_wrt (\<lambda>p q. stop h p < unat q) ps \<and>
     (\<forall>p \<in> set ps. stop h p \<le> unat (brk h)) \<and> freep h \<in> set ps"

lemma space_simps [simp]: "space h [] = {}" "space h (p # ps) = block h p \<union> space h ps"
  "space h (ps @ qs) = space h ps \<union> space h qs"
  by (auto simp: space_def)

lemma space_cong: "(\<And>p. p \<in> set ps \<Longrightarrow> h_size h p = h_size h' p) \<Longrightarrow> space h ps = space h' ps"
  by (simp add: space_def block_def stop_def)

lemma stop_ge: "unat p \<le> stop h p"
  by (simp add: stop_def)

lemma sorted_cong:
  "(\<And>p. p \<in> set ps \<Longrightarrow> h_size h p = h_size h' p) \<Longrightarrow> sorted_wrt (\<lambda>p q. stop h p < unat q) ps \<Longrightarrow> sorted_wrt (\<lambda>p q. stop h' p < unat q) ps"
  by (induction ps) (auto simp: stop_def)

subsection \<open>Freeing\<close>

text \<open>A block outside the ring that may be freed.\<close>

definition loose :: "uint \<Rightarrow> heap \<Rightarrow> uint list \<Rightarrow> uint \<Rightarrow> bool" where
  "loose base h ps bp \<longleftrightarrow> base < bp \<and> h_size h bp \<noteq> 0 \<and> stop h bp \<le> unat (brk h) \<and> block h bp \<inter> space h ps = {}"

lemma loose_sides:
  assumes "ring base h ps" "loose base h ps bp" "p \<in> set ps"
  shows "stop h p \<le> unat bp \<and> unat p < unat bp \<or> stop h bp \<le> unat p \<and> unat bp < unat p"
proof (cases "p = base")
  case True
  then show ?thesis using assms by (auto simp: ring_def loose_def stop_def word_less_nat_alt)
next
  case False
  then have "h_size h p \<noteq> 0" using assms(1,3) by (auto simp: ring_def)
  then have p: "unat p < stop h p" "unat bp < stop h bp" using assms(2) by (auto simp: stop_def loose_def unat_gt_0)
  have "block h bp \<inter> block h p = {}" using assms(2,3) by (auto simp: loose_def space_def)
  then have "{unat bp ..< stop h bp} \<inter> {unat p ..< stop h p} = {}" by (simp add: block_def)
  then have "\<not> (unat bp \<le> unat p \<and> unat p < stop h bp)" "\<not> (unat p \<le> unat bp \<and> unat bp < stop h p)" using p by fastforce+
  then show ?thesis using p by linarith
qed

lemma ring_succ:
  assumes "ring base h (xs @ p # q # ys)"
  shows "h_ptr h p = q" "p < q" "\<forall>r \<in> set ys. q < r"
proof -
  have s: "sorted_wrt (\<lambda>p q. stop h p < unat q) (xs @ p # q # ys)" and l: "path (h_ptr h) base (xs @ p # q # ys) base"
    using assms by (auto simp: ring_def)
  show "h_ptr h p = q" using l by auto
  have "stop h p < unat q" "\<forall>r \<in> set ys. stop h q < unat r" using s by (auto simp: sorted_wrt_append)
  then show "p < q" "\<forall>r \<in> set ys. q < r" using stop_ge order_le_less_trans by (fastforce simp: word_less_nat_alt)+
qed

lemma ring_last:
  assumes "ring base h (xs @ [p])"
  shows "h_ptr h p = base" "base \<le> p"
proof -
  have s: "sorted_wrt (\<lambda>p q. stop h p < unat q) (xs @ [p])" and l: "path (h_ptr h) base (xs @ [p]) base"
    using assms by (auto simp: ring_def)
  show "h_ptr h p = base" using l by auto
  have "hd (xs @ [p]) = base" using assms by (auto simp: ring_def)
  then show "base \<le> p"
    using s stop_ge [of base h] by (cases xs) (auto simp: word_le_nat_alt)
qed

definition found :: "uint list \<Rightarrow> uint \<Rightarrow> uint \<Rightarrow> bool" where
  "found ps bp p \<longleftrightarrow> (\<exists>xs ys. ps = xs @ p # ys \<and> p < bp \<and> (\<forall>q \<in> set ys. bp < q))"

lemma ring_head: "ring base h ps \<Longrightarrow> \<exists>rest. ps = base # rest \<and> (\<forall>p \<in> set rest. h_size h p \<noteq> 0) \<and> h_size h base = 0"
  by (auto simp: ring_def)

lemma ring_member:
  assumes "ring base h ps" "p \<in> set ps"
  shows "base \<le> p" "p \<noteq> base \<Longrightarrow> h_size h p \<noteq> 0" "stop h p \<le> unat (brk h)"
proof -
  obtain rest where b: "ps = base # rest" "\<forall>p \<in> set rest. h_size h p \<noteq> 0" using assms(1) by (auto simp: ring_def)
  have "\<forall>q \<in> set rest. stop h base < unat q" using assms(1) b(1) by (auto simp: ring_def)
  then show "base \<le> p" using assms(2) b(1) stop_ge [of base h] by (fastforce simp: word_le_nat_alt)
  show "p \<noteq> base \<Longrightarrow> h_size h p \<noteq> 0" using assms(2) b by auto
  show "stop h p \<le> unat (brk h)" using assms by (simp add: ring_def)
qed

lemma ring_freep: "ring base h ps \<Longrightarrow> freep h \<noteq> 0"
  using ring_member(1) [of base h ps "freep h"] by (auto simp: ring_def)

lemma foundI: "p < bp \<Longrightarrow> \<forall>q \<in> set ys. bp < q \<Longrightarrow> found (xs @ p # ys) bp p"
  unfolding found_def by blast

text \<open>From a block below it, the search goes up to the place of \<open>bp\<close>.\<close>

lemma search_up:
  assumes "ring base h (xs @ p # ys)" "loose base h (xs @ p # ys) bp" "p < bp"
  shows "\<exists>r. free_loop bp p h = Some r \<and> found (xs @ p # ys) bp r"
  using assms
proof (induction ys arbitrary: xs p)
  case Nil
  note ring_last [OF Nil.prems(1)]
  then have "free_loop bp p h = Some p" using Nil.prems(3) by (subst free_loop.simps) simp
  then show ?case using Nil.prems(3) by (simp add: foundI)
next
  case (Cons q ys)
  note n = ring_succ(1) [OF Cons.prems(1)] and lt = ring_succ(2) [OF Cons.prems(1)]
  have "q < bp \<or> bp < q" using loose_sides [OF Cons.prems(1,2), of q] by (auto simp: word_less_nat_alt)
  then show ?case
  proof
    assume "bp < q"
    then have "free_loop bp p h = Some p" using Cons.prems(3) n by (subst free_loop.simps) simp
    moreover have "\<forall>r \<in> set (q # ys). bp < r"
      using ring_succ(3) [OF Cons.prems(1)] \<open>bp < q\<close> order_less_trans by auto
    ultimately show ?case using Cons.prems(3) foundI by blast
  next
    assume q: "q < bp"
    then have "free_loop bp p h = free_loop bp q h" using n lt by (subst free_loop.simps) auto
    then show ?case using Cons.IH [of "xs @ [p]" q] Cons.prems(1,2) q by simp
  qed
qed

text \<open>From a block above it, the search goes around.\<close>

lemma search_around:
  assumes "ring base h (xs @ p # ys)" "loose base h (xs @ p # ys) bp" "bp < p"
  shows "free_loop bp p h = free_loop bp base h"
  using assms
proof (induction ys arbitrary: xs p)
  case Nil
  have "h_ptr h p = base" by (rule ring_last(1) [OF Nil.prems(1)])
  moreover have "base < bp" using Nil.prems(2) by (simp add: loose_def)
  ultimately show ?case using Nil.prems(3) by (subst free_loop.simps) auto
next
  case (Cons q ys)
  note n = ring_succ(1) [OF Cons.prems(1)] and lt = ring_succ(2) [OF Cons.prems(1)]
  have "free_loop bp p h = free_loop bp q h" using n lt Cons.prems(3) by (subst free_loop.simps) auto
  also have "\<dots> = free_loop bp base h" using Cons.IH [of "xs @ [p]" q] Cons.prems lt by simp
  finally show ?case .
qed

lemma search_finds:
  assumes r: "ring base h ps" and l: "loose base h ps bp"
  shows "\<exists>p. free_loop bp (freep h) h = Some p \<and> found ps bp p"
proof -
  obtain xs ys where ps: "ps = xs @ freep h # ys" using r by (auto simp: ring_def dest: split_list)
  obtain rest where b: "ps = [] @ base # rest" using r by (auto simp: ring_def)
  have up: "\<exists>p. free_loop bp base h = Some p \<and> found ps bp p"
    using search_up [of base h "[]" base rest bp] r l b by (simp add: loose_def)
  have "freep h < bp \<or> bp < freep h"
    using loose_sides [OF r l, of "freep h"] ps by (auto simp: word_less_nat_alt)
  then show ?thesis using search_up [of base h xs _ ys bp] search_around [of base h xs _ ys bp] r l ps up by auto
qed

text \<open>
  The upper part of the ring, from the freed block on, as the first half of \<^verbatim>\<open>free\<close> leaves it: the
  block, joined with its neighbour if they touch, in front of the blocks above it.
\<close>

definition upper :: "uint \<Rightarrow> heap \<Rightarrow> heap \<Rightarrow> uint \<Rightarrow> uint list \<Rightarrow> uint list \<Rightarrow> bool" where
  "upper base h h1 bp ys ys' \<longleftrightarrow> path (h_ptr h1) bp (bp # ys') base \<and> sorted_wrt (\<lambda>p q. stop h1 p < unat q) (bp # ys') \<and>
     space h1 (bp # ys') = block h bp \<union> space h ys \<and> set ys' \<subseteq> set ys \<and> (\<forall>q \<in> set (bp # ys'). stop h1 q \<le> unat (brk h)) \<and>
     h_size h1 bp \<noteq> 0 \<and> brk h1 = brk h \<and> (\<forall>q. q \<noteq> bp \<longrightarrow> h_ptr h1 q = h_ptr h q \<and> h_size h1 q = h_size h q)"

lemma join_sizes:
  assumes "stop h p \<le> unat q" "hdr_plus p (h_size h p) = q" "stop h q < 4294967296"
  shows "stop h p = unat q" "unat (h_size h p + h_size h q) = unat (h_size h p) + unat (h_size h q)"
proof -
  show "stop h p = unat q"
    using assms unat_hdr_plus [of p "h_size h p"] unat_lt32 [of q] by (simp add: stop_def)
  then show "unat (h_size h p + h_size h q) = unat (h_size h p) + unat (h_size h q)"
    using assms(3) by (simp add: stop_def unat_word_ariths)
qed

lemma stop_brk: "ring base h ps \<Longrightarrow> p \<in> set ps \<Longrightarrow> stop h p < 4294967296"
  using unat_lt32 [of "brk h"] by (auto simp: ring_def)

lemma ring_suffix:
  assumes "ring base h (xs @ p # ys)"
  shows "path (h_ptr h) (h_ptr h p) ys base" "path (h_ptr h) base xs p" "sorted_wrt (\<lambda>p q. stop h p < unat q) ys"
    "\<forall>q \<in> set (xs @ p # ys). stop h q \<le> unat (brk h)" "\<forall>x \<in> set (xs @ [p]). \<forall>q \<in> set ys. stop h x < unat q"
    "sorted_wrt (\<lambda>p q. stop h p < unat q) xs" "\<forall>x \<in> set xs. stop h x < unat p"
  using assms by (auto simp: ring_def sorted_wrt_append)

lemma upper_link:
  assumes r: "ring base h (xs @ p # ys)" and l: "loose base h (xs @ p # ys) bp"
    and f: "\<forall>q \<in> set ys. stop h bp < unat q"
  shows "upper base h (set_ptr bp (h_ptr h p) h) bp ys ys"
proof -
  have n: "bp \<notin> set ys" using f stop_ge [of bp h] by fastforce
  have s: "stop (set_ptr bp x h) = stop h" "block (set_ptr bp x h) = block h" "space (set_ptr bp x h) = space h" for x
    by (auto simp: stop_def block_def space_def fun_eq_iff)
  show ?thesis
    using ring_suffix [OF r] l f n by (auto simp: upper_def s loose_def)
qed

lemma upper_join:
  assumes r: "ring base h (xs @ p # q # ys)" and l: "loose base h (xs @ p # q # ys) bp"
    and f: "stop h bp \<le> unat q" "hdr_plus bp (h_size h bp) = q"
  shows "upper base h (join_up bp p h) bp (q # ys) ys"
proof -
  let ?h = "join_up bp p h"
  note rs = ring_suffix [OF r]
  have nx: "h_ptr h p = q" by (rule ring_succ(1) [OF r])
  have e: "?h = set_ptr bp (h_ptr h q) (set_size bp (h_size h bp + h_size h q) h)" by (simp add: join_up_def nx f(2) Let_def)
  note j = join_sizes [OF f stop_brk [OF r, of q]]
  have "base \<le> p" "p < q" using ring_member(1) [OF r, of p] ring_succ(2) [OF r] by simp_all
  then have sz: "h_size h q \<noteq> 0" using ring_member(2) [OF r, of q] by auto
  have lt: "\<forall>x \<in> set ys. stop h q < unat x" "\<forall>x \<in> set ys. unat bp < unat x"
    using rs(3) f(1) stop_ge [of q h] stop_ge [of bp h] by fastforce+
  then have n: "bp \<notin> set ys" by blast
  have sb: "stop ?h bp = stop h q" using j by (simp add: e stop_def)
  have so: "stop ?h x = stop h x" if "x \<in> set ys" for x using that n by (auto simp: e stop_def)
  have "block ?h bp = block h bp \<union> block h q"
    using j(1) stop_ge [of q h] stop_ge [of bp h] by (auto simp: block_def sb)
  moreover have "space ?h ys = space h ys" using n by (intro space_cong) (auto simp: e)
  moreover have "sorted_wrt (\<lambda>p q. stop ?h p < unat q) ys"
    by (rule sorted_cong [of ys h]) (use rs(3) n in \<open>auto simp: e\<close>)
  moreover have "unat (h_size ?h bp) \<noteq> 0" using j(2) sz by (simp add: e unat_eq_zero)
  then have "h_size ?h bp \<noteq> 0" by auto
  moreover have "path (h_ptr ?h) bp (bp # ys) base" using rs(1) n nx by (simp add: e)
  moreover have "brk ?h = brk h" "\<And>x. x \<noteq> bp \<Longrightarrow> h_ptr ?h x = h_ptr h x \<and> h_size ?h x = h_size h x" by (simp_all add: e)
  ultimately show ?thesis
    using rs(4) lt so unfolding upper_def by (auto simp: sb)
qed

lemma upper_exists:
  assumes r: "ring base h (xs @ p # ys)" and l: "loose base h (xs @ p # ys) bp"
    and f: "p < bp" "\<forall>q \<in> set ys. bp < q"
  shows "\<exists>ys'. upper base h (join_up bp p h) bp ys ys'"
proof -
  have up: "stop h bp \<le> unat q" if "q \<in> set ys" for q
    using loose_sides [OF r l, of q] that f(2) by (auto simp: word_less_nat_alt)
  have e: "unat (hdr_plus bp (h_size h bp)) = stop h bp"
    using l unat_lt32 [of "brk h"] by (simp add: unat_hdr_plus loose_def stop_def)
  show ?thesis
  proof (cases ys)
    case Nil
    have "h_ptr h p = base" using ring_last r Nil by simp
    moreover have "hdr_plus bp (h_size h bp) \<noteq> base" using e l stop_ge [of bp h] by (auto simp: loose_def word_less_nat_alt)
    ultimately have "join_up bp p h = set_ptr bp (h_ptr h p) h" by (simp add: join_up_def)
    then show ?thesis using upper_link [OF r l] Nil by auto
  next
    case (Cons q zs)
    have n: "h_ptr h p = q" using ring_succ(1) r Cons by simp
    show ?thesis
    proof (cases "hdr_plus bp (h_size h bp) = q")
      case True
      then show ?thesis using upper_join [of base h xs p q zs bp] r l up Cons by auto
    next
      case False
      then have "stop h bp \<noteq> unat q" using e by (metis word_unat_eq_iff)
      then have "stop h bp < unat q" using up [of q] Cons by simp
      then have "\<forall>x \<in> set ys. stop h bp < unat x" using ring_succ(3) r Cons by (fastforce simp: word_less_nat_alt)
      moreover have "join_up bp p h = set_ptr bp (h_ptr h p) h" using False n by (simp add: join_up_def)
      ultimately show ?thesis using upper_link [OF r l] by auto
    qed
  qed
qed

text \<open>Put the lower part of the ring in front of a new upper part.\<close>

lemma ring_rejoin:
  assumes r: "ring base h (xs @ p # ys)" and fp: "freep h' \<in> set (xs @ p # zs)"
    and b: "brk h' = brk h" "p = base \<longrightarrow> h_size h' p = 0" "p \<noteq> base \<longrightarrow> h_size h' p \<noteq> 0"
    and z: "path (h_ptr h') p (p # zs) base" "sorted_wrt (\<lambda>p q. stop h' p < unat q) (p # zs)"
      "\<forall>q \<in> set (p # zs). stop h' q \<le> unat (brk h)" "\<forall>q \<in> set zs. h_size h' q \<noteq> 0"
    and same: "\<forall>x \<in> set xs. h_ptr h' x = h_ptr h x \<and> h_size h' x = h_size h x"
  shows "ring base h' (xs @ p # zs)"
proof -
  note rs = ring_suffix [OF r]
  have s: "stop h' x = stop h x" if "x \<in> set xs" for x using same that by (simp add: stop_def)
  have px: "path (h_ptr h') base xs p" using path_cong [OF _ rs(2)] same by simp
  have lt: "stop h' x < unat q" if "x \<in> set xs" "q \<in> set (p # zs)" for x q
  proof -
    have "stop h' x < unat p" using rs(7) that(1) s by simp
    moreover have "unat p \<le> unat q" using z(2) that(2) stop_ge [of p h'] by fastforce
    ultimately show ?thesis by simp
  qed
  have sx: "sorted_wrt (\<lambda>p q. stop h' p < unat q) xs" by (rule sorted_cong [OF _ rs(6)]) (use same in simp)
  obtain rest where e: "xs @ p # zs = base # rest" and ne: "\<forall>q \<in> set rest. h_size h' q \<noteq> 0" and z0: "h_size h' base = 0"
  proof (cases xs)
    case Nil
    then have "p = base" using ring_head [OF r] by simp
    then show ?thesis using that [of zs] Nil b(2) z(4) by simp
  next
    case (Cons x xs')
    obtain rest where "xs @ p # ys = base # rest" "\<forall>q \<in> set rest. h_size h q \<noteq> 0" "h_size h base = 0"
      using ring_head [OF r] by blast
    then have x: "x = base" "\<forall>q \<in> set xs'. h_size h q \<noteq> 0" "h_size h base = 0" using Cons by auto
    have pb: "p \<noteq> base" using rs(7) x(1) Cons stop_ge [of base h] by auto
    have "h_size h' base = 0" using same Cons x by simp
    moreover have "\<forall>q \<in> set (xs' @ p # zs). h_size h' q \<noteq> 0" using x(2) same Cons b(3) pb z(4) by auto
    ultimately show ?thesis using that [of "xs' @ p # zs"] Cons x(1) by simp
  qed
  show ?thesis
    unfolding ring_def
  proof (intro conjI)
    show "\<exists>rest. xs @ p # zs = base # rest \<and> (\<forall>q \<in> set rest. h_size h' q \<noteq> 0)" using e ne by blast
    show "base \<noteq> 0" "base < brk h'" "brk h' < KERNBASE" using r b(1) by (simp_all add: ring_def)
    show "path (h_ptr h') base (xs @ p # zs) base" using px z(1) by auto
    show "sorted_wrt (\<lambda>p q. stop h' p < unat q) (xs @ p # zs)" using sx z(2) lt by (simp add: sorted_wrt_append)
    show "\<forall>q \<in> set (xs @ p # zs). stop h' q \<le> unat (brk h')" using rs(4) z(3) s b(1) by auto
  qed (use z0 fp in auto)
qed

lemma lower_link:
  assumes r: "ring base h (xs @ p # ys)" and l: "loose base h (xs @ p # ys) bp" and u: "upper base h h1 bp ys ys'"
    and f: "p < bp" and h': "h' = (join_down bp p h1)\<lparr>freep := p\<rparr>"
  shows "\<exists>zs. ring base h' (xs @ p # zs) \<and> space h' (xs @ p # zs) = space h (xs @ p # ys) \<union> block h bp \<and> set zs \<subseteq> insert bp (set ys)"
proof -
  note rs = ring_suffix [OF r]
  have u': "path (h_ptr h1) bp (bp # ys') base" "sorted_wrt (\<lambda>p q. stop h1 p < unat q) (bp # ys')"
    "space h1 (bp # ys') = block h bp \<union> space h ys" "set ys' \<subseteq> set ys" "\<forall>q \<in> set (bp # ys'). stop h1 q \<le> unat (brk h)"
    "h_size h1 bp \<noteq> 0" "brk h1 = brk h" "\<And>q. q \<noteq> bp \<Longrightarrow> h_ptr h1 q = h_ptr h q \<and> h_size h1 q = h_size h q"
    using u by (auto simp: upper_def)
  have le: "stop h p \<le> unat bp" using loose_sides [OF r l, of p] f by (auto simp: word_less_nat_alt)
  have ltp: "\<forall>q \<in> set ys'. unat p < unat q" using rs(5) u'(4) stop_ge [of p h] by fastforce
  have p1: "stop h1 p = stop h p" "h_size h1 p = h_size h p" using u'(8) f by (auto simp: stop_def)
  have xp: "\<forall>x \<in> set xs. unat x < unat p" using rs(7) stop_ge order_le_less_trans by blast
  then have out: "p \<notin> set ys'" "p \<notin> set xs" "bp \<notin> set xs" using ltp f by (auto simp: word_less_nat_alt)
  have xsame: "\<forall>x \<in> set xs. h_ptr h1 x = h_ptr h x \<and> h_size h1 x = h_size h x" using u'(8) out(3) by metis
  have base: "bp \<noteq> base" "bp \<notin> set ys'" using l u'(2) stop_ge [of bp h1] by (auto simp: loose_def)
  have szs: "\<forall>q \<in> set ys'. h_size h1 q \<noteq> 0"
  proof
    fix q assume q: "q \<in> set ys'"
    then have "q \<in> set (xs @ p # ys)" "base \<le> p" "p < q"
      using u'(4) ltp ring_member(1) [OF r, of p] by (auto simp: word_less_nat_alt)
    then have "h_size h q \<noteq> 0" using ring_member(2) [OF r, of q] by auto
    then show "h_size h1 q \<noteq> 0" using u'(8) q base(2) by metis
  qed
  show ?thesis
  proof (cases "hdr_plus p (h_size h1 p) = bp")
    case False
    have e: "h' = (set_ptr p bp h1)\<lparr>freep := p\<rparr>" using False by (simp add: h' join_down_def)
    have s: "stop h' = stop h1" "block h' = block h1" "space h' = space h1" by (auto simp: e stop_def block_def space_def fun_eq_iff)
    have "unat (hdr_plus p (h_size h p)) = stop h p" using stop_brk [OF r, of p] by (simp add: unat_hdr_plus stop_def)
    then have lt: "stop h p < unat bp" using le False p1 by (metis le_neq_implies_less word_unat_eq_iff)
    have "ring base h' (xs @ p # bp # ys')"
    proof (rule ring_rejoin [OF r])
      show "path (h_ptr h') p (p # bp # ys') base" using u'(1) f out by (auto simp: e)
      show "sorted_wrt (\<lambda>p q. stop h' p < unat q) (p # bp # ys')" using u'(2,4) lt p1 rs(5) by (auto simp: s)
      show "\<forall>q \<in> set (p # bp # ys'). stop h' q \<le> unat (brk h)" using u'(5) rs(4) p1 by (auto simp: s)
      show "p = base \<longrightarrow> h_size h' p = 0" "p \<noteq> base \<longrightarrow> h_size h' p \<noteq> 0"
        using ring_head [OF r] ring_member(2) [OF r, of p] p1 by (auto simp: e)
      show "\<forall>x \<in> set xs. h_ptr h' x = h_ptr h x \<and> h_size h' x = h_size h x" using xsame out(2) by (auto simp: e)
    qed (use u'(6,7) szs in \<open>simp_all add: e\<close>)
    moreover have "space h1 xs = space h xs" by (rule space_cong) (use xsame in simp)
    then have "space h' (xs @ p # bp # ys') = space h (xs @ p # ys) \<union> block h bp"
      using u'(3) p1 by (auto simp: s block_def)
    ultimately show ?thesis using u'(4) by (intro exI [of _ "bp # ys'"]) auto
  next
    case True
    have e: "h' = (set_ptr p (h_ptr h1 bp) (set_size p (h_size h1 p + h_size h1 bp) h1))\<lparr>freep := p\<rparr>"
      using True by (simp add: h' join_down_def Let_def)
    have "stop h1 bp < 4294967296" using u'(5) unat_lt32 [of "brk h"] by fastforce
    note j = join_sizes [OF le [folded p1(1)] True this]
    have sp: "stop h' p = stop h1 bp" using j by (simp add: e stop_def)
    have so: "\<forall>q \<in> set ys'. stop h' q = stop h1 q" using out(1) by (auto simp: e stop_def)
    have pb: "p \<noteq> base" using True p1(2) ring_head [OF r] f by (auto simp: hdr_plus_def)
    have "unat (h_size h' p) \<noteq> 0" using j(2) u'(6) by (simp add: e unat_eq_zero)
    then have sz: "h_size h' p \<noteq> 0" by auto
    have "ring base h' (xs @ p # ys')"
    proof (rule ring_rejoin [OF r])
      show "path (h_ptr h') p (p # ys') base" using u'(1) out by (simp add: e)
      have "sorted_wrt (\<lambda>p q. stop h' p < unat q) ys'"
        by (rule sorted_cong [of ys' h1]) (use u'(2) out in \<open>auto simp: e\<close>)
      then show "sorted_wrt (\<lambda>p q. stop h' p < unat q) (p # ys')" using u'(2) sp by auto
      show "\<forall>q \<in> set (p # ys'). stop h' q \<le> unat (brk h)" using u'(5) sp so out by auto
      show "\<forall>x \<in> set xs. h_ptr h' x = h_ptr h x \<and> h_size h' x = h_size h x" using xsame out(2) by (auto simp: e)
      show "\<forall>q \<in> set ys'. h_size h' q \<noteq> 0" using szs out(1) by (auto simp: e)
    qed (use u'(7) pb sz in \<open>simp_all add: e\<close>)
    moreover have "space h' (xs @ p # ys') = space h (xs @ p # ys) \<union> block h bp"
    proof -
      have "space h' xs = space h xs" by (rule space_cong) (use xsame out(2) in \<open>auto simp: e\<close>)
      moreover have "space h' ys' = space h1 ys'" by (rule space_cong) (use out(1) in \<open>auto simp: e\<close>)
      moreover have "block h' p = block h p \<union> block h1 bp"
        using j(1) p1 stop_ge [of bp h1] stop_ge [of p h] by (auto simp: block_def sp)
      ultimately show ?thesis using u'(3) by auto
    qed
    ultimately show ?thesis using u'(4) by auto
  qed
qed

text \<open>\<^verbatim>\<open>free\<close> returns and adds exactly the block to the free space; no other header changes its size.\<close>

lemma join_other: "x \<noteq> bp \<Longrightarrow> x \<noteq> p \<Longrightarrow> h_size (join_down bp p (join_up bp p h)) x = h_size h x"
  "brk (join_down bp p (join_up bp p h)) = brk h"
  by (auto simp: join_down_def join_up_def Let_def)

lemma free_ring:
  assumes r: "ring base h ps" and l: "loose base h ps bp" and ap: "ap - 8 = bp"
  shows "\<exists>h' ps'. free ap h = Some h' \<and> ring base h' ps' \<and> space h' ps' = space h ps \<union> block h bp \<and> brk h' = brk h \<and>
    (\<forall>x. x \<notin> insert bp (set ps) \<longrightarrow> h_size h' x = h_size h x)"
proof -
  obtain p where p: "free_loop bp (freep h) h = Some p" "found ps bp p" using search_finds [OF r l] by blast
  then obtain xs ys where ps: "ps = xs @ p # ys" and lt: "p < bp" "\<forall>q \<in> set ys. bp < q" by (auto simp: found_def)
  obtain ys' where u: "upper base h (join_up bp p h) bp ys ys'" using upper_exists r l lt ps by blast
  let ?h = "(join_down bp p (join_up bp p h))\<lparr>freep := p\<rparr>"
  obtain zs where z: "ring base ?h (xs @ p # zs)" "space ?h (xs @ p # zs) = space h ps \<union> block h bp"
    using lower_link [of base h xs p ys bp _ ys', OF _ _ u lt(1) refl] r l ps by blast
  have "free ap h = Some ?h" by (simp add: free_def ap p(1))
  moreover have "brk ?h = brk h" "\<forall>x. x \<notin> insert bp (set ps) \<longrightarrow> h_size ?h x = h_size h x"
    using join_other(1) [of _ bp p h] join_other(2) [of bp p h] ps by auto
  ultimately show ?thesis using z by blast
qed

subsection \<open>Taking a block\<close>

lemma blocks_disjoint:
  assumes r: "ring base h ps" and "p \<in> set ps" "q \<in> set ps" "p \<noteq> q"
  shows "stop h p < unat q \<or> stop h q < unat p"
proof -
  have s: "sorted_wrt (\<lambda>p q. stop h p < unat q) ps" using r by (simp add: ring_def)
  show ?thesis using s assms(2-4) by (induction ps) auto
qed

lemma pred_of:
  assumes r: "ring base h ps" and p: "p \<in> set ps" "h_ptr h p = q" "q \<noteq> base"
  shows "\<exists>as bs. ps = as @ p # q # bs"
proof -
  obtain as bs where ps: "ps = as @ p # bs" using p(1) by (meson split_list)
  show ?thesis
  proof (cases bs)
    case Nil
    then show ?thesis using ring_last(1) r ps p(2,3) by auto
  next
    case (Cons x xs)
    then show ?thesis using ring_succ(1) [of base h as p x xs] r ps p(2) by auto
  qed
qed

text \<open>A block \<open>bp\<close> of \<open>n\<close> headers is cut out of the free space.\<close>

definition taken :: "uint \<Rightarrow> heap \<Rightarrow> uint list \<Rightarrow> uint \<Rightarrow> heap \<Rightarrow> uint \<Rightarrow> uint list \<Rightarrow> bool" where
  "taken base h ps n h' bp ps' \<longleftrightarrow> ring base h' ps' \<and> base < bp \<and> h_size h' bp = n \<and> block h' bp \<subseteq> space h ps \<and>
     space h' ps' = space h ps - block h' bp \<and> brk h' = brk h \<and>
     (\<forall>x. unat x \<notin> space h ps \<longrightarrow> h_size h' x = h_size h x)"


lemma block_nonempty: "ring base h ps \<Longrightarrow> p \<in> set ps \<Longrightarrow> p \<noteq> base \<Longrightarrow> unat p \<in> space h ps"
  using ring_member(2) [of base h ps p] by (auto simp: space_def block_def stop_def unat_gt_0 intro!: bexI [of _ p])

lemma take_whole:
  assumes r: "ring base h (as @ p # q # bs)" and n: "h_size h q = n" "q \<noteq> base"
  defines "h' \<equiv> (set_ptr p (h_ptr h q) h)\<lparr>freep := p\<rparr>"
  shows "taken base h (as @ p # q # bs) n h' q (as @ p # bs)"
proof -
  let ?ps = "as @ p # q # bs"
  note rs = ring_suffix [OF r] and rq = ring_suffix [of base h "as @ [p]" q bs]
  have s: "stop h' = stop h" "block h' = block h" "space h' = space h" "h_size h' = h_size h" "brk h' = brk h"
    by (auto simp: h'_def stop_def block_def space_def fun_eq_iff)
  have d: "\<forall>x \<in> set ?ps. x \<noteq> q \<longrightarrow> block h x \<inter> block h q = {}"
    using blocks_disjoint [OF r, of _ q] by (fastforce simp: block_def)
  have srt: "sorted_wrt (\<lambda>p q. stop h p < unat q) ?ps" using r by (simp add: ring_def)
  have out: "p \<notin> set as" "p \<notin> set bs" "q \<notin> set as" "q \<notin> set bs" "p \<noteq> q"
    using srt stop_ge [of p h] stop_ge [of q h] by (fastforce simp: sorted_wrt_append)+
  have "ring base h' (as @ p # bs)"
  proof (rule ring_rejoin [OF r])
    show "path (h_ptr h') p (p # bs) base" using rq(1) r out by (simp add: h'_def)
    show "sorted_wrt (\<lambda>p q. stop h' p < unat q) (p # bs)" using srt by (simp add: s sorted_wrt_append)
    show "\<forall>x \<in> set (p # bs). stop h' x \<le> unat (brk h)" using rs(4) by (simp add: s)
    show "p = base \<longrightarrow> h_size h' p = 0" "p \<noteq> base \<longrightarrow> h_size h' p \<noteq> 0"
      using ring_head [OF r] ring_member(2) [OF r, of p] by (auto simp: s)
    have "base < q" using ring_member(1) [OF r, of q] n(2) by (simp add: order_less_le)
    then have "x \<noteq> base" if "x \<in> set bs" for x using that srt stop_ge [of q h] by (fastforce simp: sorted_wrt_append word_less_nat_alt)
    then show "\<forall>x \<in> set bs. h_size h' x \<noteq> 0" using ring_member(2) [OF r] by (simp add: s)
    show "\<forall>x \<in> set as. h_ptr h' x = h_ptr h x \<and> h_size h' x = h_size h x" using out(1) by (auto simp: h'_def)
  qed (simp_all add: h'_def)
  moreover have "space h (as @ p # bs) = space h ?ps - block h q" using d out by (auto simp: space_def)
  moreover have "base < q" using ring_member(1) [OF r, of q] n(2) by (simp add: order_less_le)
  ultimately show ?thesis using n(1) by (auto simp: taken_def s)
qed


lemma take_split:
  assumes r: "ring base h (as @ q # bs)" and n: "n < h_size h q" "n \<noteq> 0" "q \<noteq> base" and f: "f \<in> set (as @ q # bs)"
  defines "nb \<equiv> hdr_plus q (h_size h q - n)"
  defines "h' \<equiv> (set_size nb n (set_size q (h_size h q - n) h))\<lparr>freep := f\<rparr>"
  shows "taken base h (as @ q # bs) n h' nb (as @ q # bs)"
proof -
  let ?ps = "as @ q # bs"
  note rs = ring_suffix [OF r]
  have sz: "unat (h_size h q - n) = unat (h_size h q) - unat n" "unat n < unat (h_size h q)" "0 < unat n"
    using n by (auto simp: word_less_nat_alt unat_sub word_le_nat_alt unat_gt_0)
  have "stop h q < 4294967296" by (rule stop_brk [OF r]) simp
  then have nb: "unat nb = unat q + 8 * (unat (h_size h q) - unat n)"
    unfolding nb_def using sz by (subst unat_hdr_plus) (simp_all add: stop_def)
  have lt: "unat q < unat nb" "unat nb < stop h q" using nb sz by (simp_all add: stop_def)
  have out: "x \<noteq> nb" if "x \<in> set ?ps" for x
    using blocks_disjoint [OF r that, of q] lt stop_ge [of x h] by (cases "x = q") auto
  then have nq: "q \<noteq> nb" by simp
  have h': "h_ptr h' = h_ptr h" "h_size h' q = h_size h q - n" "h_size h' nb = n" "brk h' = brk h" "freep h' = f"
    "\<And>x. x \<noteq> q \<Longrightarrow> x \<noteq> nb \<Longrightarrow> h_size h' x = h_size h x"
    using nq by (auto simp: h'_def)
  have sq: "stop h' q = unat nb" and sn: "stop h' nb = stop h q" using nb sz h' by (simp_all add: stop_def)
  have srt: "sorted_wrt (\<lambda>p q. stop h p < unat q) ?ps" using r by (simp add: ring_def)
  have bs: "q \<notin> set bs" "q \<notin> set as" using srt stop_ge [of q h] by (fastforce simp: sorted_wrt_append)+
  have so: "\<forall>x \<in> set ?ps. x \<noteq> q \<longrightarrow> stop h' x = stop h x \<and> h_size h' x = h_size h x \<and> block h' x = block h x"
    using out h'(6) by (simp add: stop_def block_def)
  have ring: "ring base h' ?ps"
  proof (rule ring_rejoin [OF r])
    show "path (h_ptr h') q (q # bs) base" using rs(1) by (simp add: h'(1))
    have "sorted_wrt (\<lambda>p q. stop h' p < unat q) bs" by (rule sorted_cong [OF _ rs(3)]) (use so bs in auto)
    then show "sorted_wrt (\<lambda>p q. stop h' p < unat q) (q # bs)" using rs(5) sq lt by fastforce
    show "\<forall>x \<in> set (q # bs). stop h' x \<le> unat (brk h)" using rs(4) so bs(1) sq lt by fastforce
    have "unat (h_size h' q) \<noteq> 0" using sz h'(2) by simp
    then show "q \<noteq> base \<longrightarrow> h_size h' q \<noteq> 0" by auto
    have "base < q" using ring_member(1) [OF r, of q] n(3) by (simp add: order_less_le)
    then have "x \<noteq> base" if "x \<in> set bs" for x using that srt stop_ge [of q h] by (fastforce simp: sorted_wrt_append word_less_nat_alt)
    then have "\<forall>x \<in> set bs. h_size h x \<noteq> 0" using ring_member(2) [OF r] by simp
    moreover have "\<forall>x \<in> set bs. h_size h' x = h_size h x" using so bs(1) by force
    ultimately show "\<forall>x \<in> set bs. h_size h' x \<noteq> 0" by simp
    show "\<forall>x \<in> set as. h_ptr h' x = h_ptr h x \<and> h_size h' x = h_size h x" using so bs(2) h'(1) by auto
  qed (use h' f n(3) in auto)
  have blk: "block h q = block h' q \<union> block h' nb" "block h' q \<inter> block h' nb = {}"
    using lt by (auto simp: block_def sq sn)
  have d: "\<forall>x \<in> set ?ps. x \<noteq> q \<longrightarrow> block h x \<inter> block h q = {}"
    using blocks_disjoint [OF r, of _ q] by (fastforce simp: block_def)
  have "space h' ?ps = space h ?ps - block h' nb"
  proof -
    have "space h' as = space h as" "space h' bs = space h bs" using so bs by (auto intro!: space_cong)
    moreover have "space h as \<inter> block h q = {}" "space h bs \<inter> block h q = {}" using d bs by (auto simp: space_def)
    ultimately show ?thesis using blk by auto
  qed
  moreover have "h_size h' x = h_size h x" if "unat x \<notin> space h ?ps" for x
  proof -
    have "unat nb \<in> block h q" "unat q \<in> block h q" using lt by (auto simp: block_def)
    then show ?thesis using that h'(6) by force
  qed
  moreover have "base < nb" using ring_member(1) [OF r, of q] lt(1) by (simp add: word_less_nat_alt word_le_nat_alt)
  ultimately show ?thesis using ring h' blk(1) by (auto simp: taken_def)
qed

lemma take_block_taken:
  assumes r: "ring base h ps" and p: "p \<in> set ps" "h_ptr h p = q" and n: "n \<le> h_size h q" "n \<noteq> 0" and q: "q \<in> set ps"
  shows "\<exists>a h' ps'. take_block n p q h = (a, h') \<and> taken base h ps n h' (a - 8) ps'"
proof -
  have qb: "q \<noteq> base" using n ring_head [OF r] by auto
  obtain as bs where ps: "ps = as @ p # q # bs" using pred_of [OF r p qb] by blast
  show ?thesis
  proof (cases "h_size h q = n")
    case True
    then show ?thesis using take_whole [of base h as p q bs n] r ps qb by (auto simp: take_block_def)
  next
    case False
    then have "n < h_size h q" using n(1) by simp
    then show ?thesis
      using take_split [of base h "as @ [p]" q bs n p] r ps qb n(2) False by (auto simp: take_block_def Let_def)
  qed
qed

subsection \<open>The search of malloc\<close>

text \<open>One round over the ring: the first block that is large enough, or the call of \<^verbatim>\<open>morecore\<close>.\<close>

lemma walk:
  assumes "path (h_ptr h) p (as @ [freep h]) c" "freep h \<notin> set as" "h_ptr h prevp = p" "\<exists>q \<in> set (as @ [freep h]). n \<le> h_size h q"
  shows "\<exists>r q. r \<in> set (prevp # as) \<and> q \<in> set (as @ [freep h]) \<and> h_ptr h r = q \<and> n \<le> h_size h q \<and>
    malloc_loop enough n prevp p h = Some (take_block n r q h)"
  using assms
proof (induction as arbitrary: p prevp)
  case Nil
  then show ?case by (subst malloc_loop.simps) auto
next
  case (Cons x as)
  have x: "p = x" "p \<noteq> freep h" "path (h_ptr h) (h_ptr h p) (as @ [freep h]) c" using Cons.prems by auto
  show ?case
  proof (cases "n \<le> h_size h p")
    case True
    then have "malloc_loop enough n prevp p h = Some (take_block n prevp p h)" by (subst malloc_loop.simps) simp
    then show ?thesis using True x(1) Cons.prems(3) by auto
  next
    case False
    then have e: "malloc_loop enough n prevp p h = malloc_loop enough n p (h_ptr h p) h"
      using x(2) by (subst malloc_loop.simps) simp
    have "\<exists>q \<in> set (as @ [freep h]). n \<le> h_size h q" using Cons.prems(4) False x(1) by auto
    from Cons.IH [OF x(3) _ refl this] show ?thesis using Cons.prems(2) x(1) unfolding e by auto
  qed
qed

lemma walk_fails:
  assumes "path (h_ptr h) p (as @ [freep h]) c" "freep h \<notin> set as" "\<forall>q \<in> set (as @ [freep h]). h_size h q < n"
  shows "malloc_loop enough n prevp p h = Option.bind (morecore enough n h) (\<lambda>(r, h1).
    if r = 0 then Some (0, h1) else malloc_loop enough n r (h_ptr h1 r) h1)"
  using assms
proof (induction as arbitrary: p prevp)
  case Nil
  then show ?case by (subst malloc_loop.simps) auto
next
  case (Cons x as)
  then have "malloc_loop enough n prevp p h = malloc_loop enough n p (h_ptr h p) h"
    by (subst malloc_loop.simps) auto
  then show ?case using Cons.IH [of "h_ptr h p" p] Cons.prems by auto
qed

text \<open>The ring seen from \<^verbatim>\<open>freep\<close>.\<close>

lemma ring_round:
  assumes "ring base h ps"
  shows "\<exists>as c. path (h_ptr h) (h_ptr h (freep h)) (as @ [freep h]) c \<and> freep h \<notin> set as \<and> set (as @ [freep h]) = set ps"
proof -
  obtain xs ys where ps: "ps = xs @ freep h # ys" using assms by (auto simp: ring_def dest: split_list)
  note rs = ring_suffix [of base h xs "freep h" ys]
  have r: "ring base h (xs @ freep h # ys)" using assms ps by simp
  have "path (h_ptr h) (h_ptr h (freep h)) (ys @ xs @ [freep h]) (h_ptr h (freep h))" using rs(1,2) [OF r] by auto
  moreover have "freep h \<notin> set (ys @ xs)" using rs(5,7) [OF r] stop_ge [of "freep h" h] by fastforce
  moreover have "set ((ys @ xs) @ [freep h]) = set ps" by (auto simp: ps)
  ultimately show ?thesis by (metis append.assoc)
qed


subsection \<open>More memory\<close>

text \<open>The free space grows by what the break grows; the headers of the other blocks stay.\<close>

definition grown :: "uint \<Rightarrow> heap \<Rightarrow> uint list \<Rightarrow> heap \<Rightarrow> uint list \<Rightarrow> bool" where
  "grown base h ps h1 ps1 \<longleftrightarrow> ring base h1 ps1 \<and> brk h \<le> brk h1 \<and>
     space h1 ps1 = space h ps \<union> {unat (brk h) ..< unat (brk h1)} \<and>
     (\<forall>x. unat x \<notin> space h ps \<and> x < brk h \<and> x \<noteq> base \<longrightarrow> h_size h1 x = h_size h x)"

lemma grown_refl: "ring base h ps \<Longrightarrow> grown base h ps h ps"
  by (simp add: grown_def)

lemma covering_block:
  assumes r: "ring base h' ps" and s: "block h bp \<subseteq> space h' ps" and n: "h_size h bp \<noteq> 0"
  shows "\<exists>q \<in> set ps. h_size h bp \<le> h_size h' q"
proof -
  have b: "unat bp < stop h bp" using n by (simp add: stop_def unat_gt_0)
  then obtain q where q: "q \<in> set ps" "unat q \<le> unat bp" "unat bp < stop h' q"
    using s by (force simp: space_def block_def)
  have "stop h bp \<le> stop h' q"
  proof (rule ccontr)
    assume "\<not> stop h bp \<le> stop h' q"
    then have "stop h' q \<in> space h' ps" using s q(3) by (force simp: block_def)
    then obtain x where x: "x \<in> set ps" "unat x \<le> stop h' q" "stop h' q < stop h' x" by (auto simp: space_def block_def)
    then show False using blocks_disjoint [OF r x(1) q(1)] stop_ge [of q h'] by auto
  qed
  then show ?thesis using q(1,2) by (intro bexI [of _ q]) (auto simp: stop_def word_le_nat_alt)
qed

lemma ring_grow:
  fixes n
  assumes r: "ring base h ps" and b: "brk h \<le> b" "b < KERNBASE"
  defines "h1 \<equiv> set_size (brk h) n (h\<lparr>brk := b\<rparr>)"
  shows "ring base h1 ps" "space h1 ps = space h ps" "\<forall>x \<in> set ps. h_size h1 x = h_size h x"
proof -
  have "x \<noteq> brk h" if x: "x \<in> set ps" for x
  proof (cases "x = base")
    case True
    then show ?thesis using r by (auto simp: ring_def)
  next
    case False
    then show ?thesis
      using ring_member(2,3) [OF r x] by (auto simp: stop_def unat_eq_zero)
  qed
  then show s: "\<forall>x \<in> set ps. h_size h1 x = h_size h x" by (auto simp: h1_def)
  then show "space h1 ps = space h ps" by (intro space_cong) simp
  have "stop h1 x = stop h x" if "x \<in> set ps" for x using s that by (simp add: stop_def)
  moreover have "sorted_wrt (\<lambda>p q. stop h1 p < unat q) ps" by (rule sorted_cong [of ps h]) (use r s in \<open>auto simp: ring_def\<close>)
  moreover obtain rest where "ps = base # rest" "\<forall>p \<in> set rest. h_size h p \<noteq> 0" "h_size h base = 0" using ring_head [OF r] by blast
  ultimately show "ring base h1 ps"
    using r b s by (auto simp: ring_def h1_def word_le_nat_alt word_less_nat_alt dest: order_trans)
qed

lemma sbrk_grows:
  assumes "brk h < KERNBASE" "0 < unat n" "unat n < 2147483648"
  shows "sbrk enough n h = (-1, h) \<or>
    sbrk enough n h = (brk h, h\<lparr>brk := brk h + n\<rparr>) \<and> brk h + n < KERNBASE \<and> unat (brk h + n) = unat (brk h) + unat n"
proof -
  have "0 <s n" using signed_pos [of n] assms(2,3) by (simp add: word_sless_alt word_sle_eq)
  moreover have "unat (brk h + n) = unat (brk h) + unat n"
    using assms(1,3) by (simp add: unat_word_ariths word_less_nat_alt)
  moreover from this have "\<not> brk h + n < brk h" by (simp add: word_less_nat_alt)
  ultimately show ?thesis by (auto simp: sbrk_def Let_def not_le)
qed

lemma morecore_grown:
  assumes r: "ring base h ps" and n: "unat n < 268435456"
  shows "morecore enough n h = Some (0, h) \<or>
    (\<exists>h1 ps1. morecore enough n h = Some (freep h1, h1) \<and> grown base h ps h1 ps1 \<and> freep h1 \<noteq> 0 \<and> (\<exists>q \<in> set ps1. n \<le> h_size h1 q))"
proof -
  define nu where "nu = (if n < 4096 then 4096 else n)"
  have nu: "n \<le> nu" "nu \<noteq> 0" "unat nu < 268435456" using n by (auto simp: nu_def)
  then have nu8: "unat (nu * 8) = 8 * unat nu" "0 < unat nu" by (simp_all add: unat_word_ariths unat_gt_0)
  have bk: "brk h < KERNBASE" "base < brk h" using r by (simp_all add: ring_def)
  have m: "morecore enough n h = (let (p, h1) = sbrk enough (nu * 8) h in if p = -1 then Some (0, h1)
      else map_option (\<lambda>h2. (freep h2, h2)) (free (p + 8) (set_size p nu h1)))"
    by (simp only: morecore_def nu_def Let_def)
  consider "sbrk enough (nu * 8) h = (-1, h)"
    | "sbrk enough (nu * 8) h = (brk h, h\<lparr>brk := brk h + nu * 8\<rparr>)" "brk h + nu * 8 < KERNBASE"
      "unat (brk h + nu * 8) = unat (brk h) + unat (nu * 8)"
    using sbrk_grows [of h "nu * 8" enough] bk(1) nu nu8 by fastforce
  then show ?thesis
  proof cases
    case 1
    then show ?thesis by (simp add: m)
  next
    case 2
    let ?bp = "brk h" and ?h = "set_size (brk h) nu (h\<lparr>brk := brk h + nu * 8\<rparr>)"
    have le: "brk h \<le> brk h + nu * 8" using 2(3) by (simp add: word_le_nat_alt)
    note g = ring_grow [OF r le 2(2), of nu]
    have stop: "stop ?h ?bp = unat (brk ?h)" using 2(3) nu8 by (simp add: stop_def)
    have "block ?h ?bp \<inter> space ?h ps = {}"
      using ring_member(3) [OF r] unfolding g(2) by (fastforce simp: space_def block_def)
    then have l: "loose base ?h ps ?bp" using bk(2) nu(2) stop by (simp add: loose_def)
    obtain h1 ps1 where f: "free (?bp + 8) ?h = Some h1" "ring base h1 ps1" "space h1 ps1 = space ?h ps \<union> block ?h ?bp"
        "brk h1 = brk ?h" "\<forall>x. x \<notin> insert ?bp (set ps) \<longrightarrow> h_size h1 x = h_size ?h x"
      using free_ring [OF g(1) l, of "?bp + 8"] by auto
    have "?bp \<noteq> -1" using bk(1) by auto
    then have e: "morecore enough n h = Some (freep h1, h1)" by (simp add: m 2(1) f(1))
    have sp: "space h1 ps1 = space h ps \<union> {unat ?bp ..< unat (brk h1)}"
      using f(3,4) g(2) stop by (simp add: block_def)
    have "h_size h1 x = h_size h x" if "unat x \<notin> space h ps" "x < brk h" "x \<noteq> base" for x
    proof -
      have "x \<notin> set ps" using block_nonempty [OF r, of x] that(1,3) by blast
      then show ?thesis using f(5) that(2) by auto
    qed
    then have "grown base h ps h1 ps1" using f(2,4) sp le by (auto simp: grown_def)
    moreover have "freep h1 \<noteq> 0" by (rule ring_freep [OF f(2)])
    moreover have "\<exists>q \<in> set ps1. nu \<le> h_size h1 q"
      using covering_block [OF f(2), of ?h ?bp] f(3) nu(2) by auto
    ultimately show ?thesis using e nu(1) by (meson order_trans)
  qed
qed


subsection \<open>The interface\<close>

text \<open>Before the first call, or with a ring.\<close>

definition ready :: "uint \<Rightarrow> heap \<Rightarrow> uint list \<Rightarrow> bool" where
  "ready base h ps \<longleftrightarrow> freep h = 0 \<and> ps = [] \<and> base \<noteq> 0 \<and> base < brk h \<and> brk h < KERNBASE \<or> ring base h ps"

lemma units_enough:
  assumes "nbytes < 0x7ffffff0"
  shows "unat (units nbytes) < 268435456" "units nbytes \<noteq> 0" "unat nbytes + 8 \<le> 8 * unat (units nbytes)"
proof -
  have n: "unat nbytes < 2147483632" using assms by (simp add: word_less_nat_alt)
  then have "unat (nbytes + 8 - 1) = unat nbytes + 7" by (simp add: unat_word_ariths)
  then have "unat ((nbytes + 8 - 1) div 8) = (unat nbytes + 7) div 8" by (simp add: unat_div)
  then have u: "unat (units nbytes) = (unat nbytes + 7) div 8 + 1" using n by (simp add: units_def unat_word_ariths)
  show "unat (units nbytes) < 268435456" "unat nbytes + 8 \<le> 8 * unat (units nbytes)" using n u by linarith+
  show "units nbytes \<noteq> 0" using u by auto
qed

lemma taken_below:
  assumes r: "ring base h ps" and "taken base h ps n h' bp ps'" "n \<noteq> 0"
  shows "stop h' bp \<le> unat (brk h)" "bp + 8 \<noteq> 0"
proof -
  have b: "block h' bp \<subseteq> space h ps" "unat bp < stop h' bp" using assms(2,3) by (auto simp: taken_def stop_def unat_gt_0)
  then have "stop h' bp - 1 \<in> space h ps" by (force simp: block_def)
  then have "stop h' bp - 1 < unat (brk h)" using ring_member(3) [OF r] by (fastforce simp: space_def block_def)
  then show s: "stop h' bp \<le> unat (brk h)" by simp
  have "unat (brk h) < 2147483648" using r by (simp add: ring_def word_less_nat_alt)
  then have "unat (bp + 8) \<noteq> 0" using s b(2) by (simp add: unat_word_ariths)
  then show "bp + 8 \<noteq> 0" by auto
qed

lemma malloc_round:
  assumes r: "ring base h ps" and q: "\<exists>q \<in> set ps. n \<le> h_size h q" and n: "n \<noteq> 0"
  shows "\<exists>a h' ps'. malloc_loop enough n (freep h) (h_ptr h (freep h)) h = Some (a, h') \<and> taken base h ps n h' (a - 8) ps' \<and> a \<noteq> 0"
proof -
  obtain as c where w: "path (h_ptr h) (h_ptr h (freep h)) (as @ [freep h]) c" "freep h \<notin> set as" "set (as @ [freep h]) = set ps"
    using ring_round [OF r] by blast
  obtain p q where "p \<in> set (freep h # as)" "q \<in> set (as @ [freep h])" "h_ptr h p = q" "n \<le> h_size h q"
    "malloc_loop enough n (freep h) (h_ptr h (freep h)) h = Some (take_block n p q h)"
    using walk [OF w(1,2) refl, of n enough] q unfolding w(3) by blast
  then show ?thesis using take_block_taken [OF r, of p q n] w(3) n taken_below(2) [OF r _ n, of _ "_ - 8"] by fastforce
qed

text \<open>\<^verbatim>\<open>malloc\<close> returns: 0 with the free space as it was, or a block of the free space, grown if need be.\<close>

lemma malloc_outcome:
  assumes h: "ready base h ps" and n: "nbytes < 0x7ffffff0"
  shows "\<exists>a h1 ps1 h' ps'. malloc base enough nbytes h = Some (a, h') \<and> grown base h ps h1 ps1 \<and>
    (a = 0 \<and> h' = h1 \<or> a \<noteq> 0 \<and> taken base h1 ps1 (units nbytes) h' (a - 8) ps')"
proof -
  define h0 where "h0 = (if freep h = 0 then set_size base 0 ((set_ptr base base h)\<lparr>freep := base\<rparr>) else h)"
  define ps0 where "ps0 = (if freep h = 0 then [base] else ps)"
  note u = units_enough [OF n]
  note fp = ring_freep [of base h ps]
  have r0: "ring base h0 ps0" using h fp by (auto simp: ready_def h0_def ps0_def ring_def stop_def word_less_nat_alt)
  have g0: "grown base h ps h0 ps0"
    using h fp r0 by (auto simp: ready_def h0_def ps0_def grown_def block_def stop_def)
  have step: "grown base h ps h1 ps1" if "grown base h0 ps0 h1 ps1" for h1 ps1
  proof -
    have "brk h0 = brk h" "space h0 ps0 = space h ps" using g0 by (auto simp: h0_def grown_def)
    then show ?thesis using g0 that by (simp add: grown_def)
  qed
  have m: "malloc base enough nbytes h = malloc_loop enough (units nbytes) (freep h0) (h_ptr h0 (freep h0)) h0"
    by (simp add: malloc_def h0_def Let_def)
  show ?thesis
  proof (cases "\<exists>q \<in> set ps0. units nbytes \<le> h_size h0 q")
    case True
    then show ?thesis using malloc_round [OF r0 True u(2), of enough] m g0 by metis
  next
    case False
    obtain as c where w: "path (h_ptr h0) (h_ptr h0 (freep h0)) (as @ [freep h0]) c" "freep h0 \<notin> set as" "set (as @ [freep h0]) = set ps0"
      using ring_round [OF r0] by blast
    have mc: "malloc base enough nbytes h = Option.bind (morecore enough (units nbytes) h0) (\<lambda>(r, h1).
        if r = 0 then Some (0, h1) else malloc_loop enough (units nbytes) r (h_ptr h1 r) h1)"
      unfolding m by (rule walk_fails [OF w(1,2)]) (use False w(3) in \<open>auto simp: not_le\<close>)
    from morecore_grown [OF r0 u(1), of enough] show ?thesis
    proof (elim disjE exE conjE)
      assume "morecore enough (units nbytes) h0 = Some (0, h0)"
      then show ?thesis using mc g0 by auto
    next
      fix h1 ps1 assume a: "morecore enough (units nbytes) h0 = Some (freep h1, h1)" "grown base h0 ps0 h1 ps1" "freep h1 \<noteq> 0"
        "\<exists>q \<in> set ps1. units nbytes \<le> h_size h1 q"
      then have "malloc base enough nbytes h = malloc_loop enough (units nbytes) (freep h1) (h_ptr h1 (freep h1)) h1" by (simp add: mc)
      moreover have "ring base h1 ps1" using a(2) by (simp add: grown_def)
      ultimately show ?thesis using malloc_round [OF _ a(4) u(2), of base enough] step [OF a(2)] by metis
    qed
  qed
qed


subsection \<open>A program that allocates and frees\<close>

text \<open>
  The heap together with the pointers the program holds and the sizes it asked for. The program frees
  only pointers it holds and asks for less than two gigabytes at once.
\<close>

inductive heap_step :: "uint \<Rightarrow> heap \<times> (uint \<rightharpoonup> uint) \<Rightarrow> heap \<times> (uint \<rightharpoonup> uint) \<Rightarrow> bool" for base where
  step_malloc: "malloc base enough nbytes h = Some (a, h') \<Longrightarrow> nbytes < 0x7ffffff0 \<Longrightarrow>
    heap_step base (h, us) (h', if a = 0 then us else us(a \<mapsto> nbytes))"
| step_free: "us a = Some nbytes \<Longrightarrow> free a h = Some h' \<Longrightarrow> heap_step base (h, us) (h', us(a := None))"

inductive_cases heap_stepE: "heap_step base (h, us) (h', us')"

definition held :: "uint \<Rightarrow> heap \<Rightarrow> uint list \<Rightarrow> (uint \<rightharpoonup> uint) \<Rightarrow> bool" where
  "held base h ps us \<longleftrightarrow> ready base h ps \<and> (freep h = 0 \<longrightarrow> us = Map.empty) \<and>
     (\<forall>a n. us a = Some n \<longrightarrow> loose base h ps (a - 8) \<and> h_size h (a - 8) = units n \<and> n < 0x7ffffff0) \<and>
     (\<forall>a b. a \<in> dom us \<and> b \<in> dom us \<and> a \<noteq> b \<longrightarrow> block h (a - 8) \<inter> block h (b - 8) = {})"

lemma heldD:
  assumes "held base h ps us"
  shows "us a = Some n \<Longrightarrow> loose base h ps (a - 8) \<and> h_size h (a - 8) = units n \<and> n < 0x7ffffff0"
    "us a = Some m \<Longrightarrow> us b = Some n \<Longrightarrow> a \<noteq> b \<Longrightarrow> block h (a - 8) \<inter> block h (b - 8) = {}"
  using assms unfolding held_def by blast+

lemma block_cong: "h_size h' p = h_size h p \<Longrightarrow> block h' p = block h p \<and> stop h' p = stop h p"
  by (simp add: block_def stop_def)

text \<open>A block the program holds keeps its header when the heap grows, when a block is taken, and when one is freed.\<close>

lemma loose_grown:
  assumes l: "loose base h ps bp" and g: "grown base h ps h1 ps1"
  shows "loose base h1 ps1 bp \<and> h_size h1 bp = h_size h bp"
proof -
  have b: "unat bp < stop h bp" "stop h bp \<le> unat (brk h)" using l by (auto simp: loose_def stop_def unat_gt_0)
  then have "unat bp \<in> block h bp" "bp < brk h" "bp \<noteq> base" using l by (auto simp: block_def word_less_nat_alt loose_def)
  then have s: "h_size h1 bp = h_size h bp" using g l by (auto simp: grown_def loose_def)
  then show ?thesis
    using l g b block_cong [OF s] by (fastforce simp: loose_def grown_def block_def word_le_nat_alt)
qed

lemma loose_taken:
  assumes r: "ring base h ps" and l: "loose base h ps bp" and t: "taken base h ps n h' np ps'"
  shows "loose base h' ps' bp \<and> h_size h' bp = h_size h bp \<and> block h' bp \<inter> block h' np = {}"
proof -
  have "unat bp \<in> block h bp" using l by (auto simp: loose_def block_def stop_def unat_gt_0)
  then have s: "h_size h' bp = h_size h bp" using t l by (auto simp: taken_def loose_def)
  then show ?thesis using l t block_cong [OF s] by (auto simp: loose_def taken_def)
qed

lemma taken_loose:
  assumes r: "ring base h ps" and t: "taken base h ps n h' bp ps'" and n: "n \<noteq> 0"
  shows "loose base h' ps' bp"
  using t n taken_below(1) [OF r t n] by (auto simp: loose_def taken_def)

lemma held_malloc:
  assumes h: "held base h ps us" and m: "malloc base enough nbytes h = Some (a, h')" and n: "nbytes < 0x7ffffff0"
  shows "\<exists>ps'. held base h' ps' (if a = 0 then us else us(a \<mapsto> nbytes))"
proof -
  have rd: "ready base h ps" using h by (simp add: held_def)
  obtain h1 ps1 ps' where g: "grown base h ps h1 ps1"
    and c: "a = 0 \<and> h' = h1 \<or> a \<noteq> 0 \<and> taken base h1 ps1 (units nbytes) h' (a - 8) ps'"
    using malloc_outcome [OF rd n, of enough] m by auto
  have r1: "ring base h1 ps1" using g by (simp add: grown_def)
  have l1: "loose base h1 ps1 (b - 8) \<and> h_size h1 (b - 8) = units k \<and> k < 0x7ffffff0" if "us b = Some k" for b k
    using loose_grown [OF _ g] h that by (auto simp: held_def)
  have d1: "block h1 (b - 8) \<inter> block h1 (c - 8) = {}" if "b \<in> dom us" "c \<in> dom us" "b \<noteq> c" for b c
    using that h l1 block_cong [of h1 _ h] by (fastforce simp: held_def)
  have h1: "held base h1 ps1 us" using r1 l1 d1 ring_freep [OF r1] unfolding held_def ready_def by blast
  show ?thesis
  proof (cases "a = 0")
    case True
    then show ?thesis using h1 c by auto
  next
    case False
    then have t: "taken base h1 ps1 (units nbytes) h' (a - 8) ps'" using c by simp
    note u = units_enough(2) [OF n] and lt = loose_taken [OF r1 _ t]
    have r': "ring base h' ps'" and sa: "h_size h' (a - 8) = units nbytes" using t by (simp_all add: taken_def)
    have l': "loose base h' ps' (b - 8) \<and> h_size h' (b - 8) = units k \<and> block h' (b - 8) \<inter> block h' (a - 8) = {} \<and>
        block h' (b - 8) = block h1 (b - 8)"
      if "us b = Some k" for b k
      using lt [of "b - 8"] l1 [OF that] block_cong [of h' "b - 8" h1] by auto
    have "held base h' ps' (us(a \<mapsto> nbytes))"
      unfolding held_def
    proof (intro conjI allI impI)
      show "ready base h' ps'" using r' by (simp add: ready_def)
      show "us(a \<mapsto> nbytes) = Map.empty" if "freep h' = 0" using that ring_freep [OF r'] by simp
      show "loose base h' ps' (b - 8)" "h_size h' (b - 8) = units k" "k < 0x7ffffff0" if "(us(a \<mapsto> nbytes)) b = Some k" for b k
        using that l' l1 taken_loose [OF r1 t u] sa n by (auto split: if_splits)
      show "block h' (b - 8) \<inter> block h' (c - 8) = {}"
        if "b \<in> dom (us(a \<mapsto> nbytes)) \<and> c \<in> dom (us(a \<mapsto> nbytes)) \<and> b \<noteq> c" for b c
        using that l' d1 by (cases "b = a"; cases "c = a") (auto, blast+)
    qed
    then show ?thesis using False by auto
  qed
qed

lemma held_free:
  assumes h: "held base h ps us" and a: "us a = Some n"
  shows "\<exists>h' ps'. free a h = Some h' \<and> held base h' ps' (us(a := None))"
proof -
  let ?bp = "a - 8"
  have l: "loose base h ps ?bp" using h a by (auto simp: held_def)
  have r: "ring base h ps" using h a by (auto simp: held_def ready_def)
  obtain h' ps' where f: "free a h = Some h'" "ring base h' ps'" "space h' ps' = space h ps \<union> block h ?bp" "brk h' = brk h"
      "\<forall>x. x \<notin> insert ?bp (set ps) \<longrightarrow> h_size h' x = h_size h x"
    using free_ring [OF r l refl] by blast
  have b: "loose base h' ps' (b - 8) \<and> h_size h' (b - 8) = units k \<and> k < 0x7ffffff0 \<and> block h' (b - 8) = block h (b - 8)"
    if "us b = Some k" "b \<noteq> a" for b k
  proof -
    have lb: "loose base h ps (b - 8)" "h_size h (b - 8) = units k" "k < 0x7ffffff0" "block h (b - 8) \<inter> block h ?bp = {}"
      using heldD [OF h] that a by auto
    have "unat (b - 8) \<in> block h (b - 8)" using lb(1) by (auto simp: loose_def block_def stop_def unat_gt_0)
    then have "b - 8 \<notin> set ps" using lb(1) block_nonempty [OF r, of "b - 8"] by (auto simp: loose_def)
    moreover have "b - 8 \<noteq> ?bp" using that(2) by simp
    ultimately have s: "h_size h' (b - 8) = h_size h (b - 8)" using f(5) by simp
    then show ?thesis using lb block_cong [OF s] f(3,4) by (auto simp: loose_def)
  qed
  have "held base h' ps' (us(a := None))"
    unfolding held_def
  proof (intro conjI allI impI)
    show "ready base h' ps'" using f(2) by (simp add: ready_def)
    show "us(a := None) = Map.empty" if "freep h' = 0" using that ring_freep [OF f(2)] by simp
    show "loose base h' ps' (b - 8)" "h_size h' (b - 8) = units k" "k < 0x7ffffff0" if "(us(a := None)) b = Some k" for b k
      using that b by (auto split: if_splits)
    show "block h' (b - 8) \<inter> block h' (c - 8) = {}" if "b \<in> dom (us(a := None)) \<and> c \<in> dom (us(a := None)) \<and> b \<noteq> c" for b c
    proof -
      have "block h (b - 8) \<inter> block h (c - 8) = {}" using that h by (auto simp: held_def split: if_splits)
      then show ?thesis using that b by (auto split: if_splits)
    qed
  qed
  then show ?thesis using f(1) by blast
qed

lemma held_reachable:
  assumes "(heap_step base)\<^sup>*\<^sup>* (h0, Map.empty) (h, us)" "held base h0 [] Map.empty"
  shows "\<exists>ps. held base h ps us"
  using assms
proof (induction "(h, us)" arbitrary: h us rule: rtranclp_induct)
  case base
  then show ?case by blast
next
  case (step s)
  obtain h1 us1 where s: "s = (h1, us1)" by (cases s)
  obtain ps where ps: "held base h1 ps us1" using step.hyps(3) [OF s step.prems] by blast
  from step.hyps(2) have "heap_step base (h1, us1) (h, us)" by (simp only: s)
  then show ?case
  proof (rule heap_stepE)
    fix enough nbytes a
    assume "us = (if a = 0 then us1 else us1(a \<mapsto> nbytes))" "malloc base enough nbytes h1 = Some (a, h)" "nbytes < 0x7ffffff0"
    then show ?thesis using held_malloc [OF ps] by blast
  next
    fix a nbytes
    assume "us = us1(a := None)" "us1 a = Some nbytes" "free a h1 = Some h"
    then show ?thesis using held_free [OF ps, of a nbytes] by auto
  qed
qed

text \<open>
  C36: a program that calls \<^verbatim>\<open>malloc\<close> and \<^verbatim>\<open>free\<close> in any order, frees only what it holds and asks
  for less than two gigabytes at once never gets overlapping memory: in every reachable state the
  bytes behind two pointers it holds are disjoint, they lie below the break, and the next call
  returns, whether or not the kernel has memory left. The allocator's loops over the ring end.
\<close>

theorem heap_regions_disjoint:
  assumes "(heap_step base)\<^sup>*\<^sup>* (h0, Map.empty) (h, us)"
    and "freep h0 = 0" "base \<noteq> 0" "base < brk h0" "brk h0 < KERNBASE"
  shows "(\<forall>a b m n. us a = Some m \<and> us b = Some n \<and> a \<noteq> b \<longrightarrow> {unat a ..< unat a + unat m} \<inter> {unat b ..< unat b + unat n} = {}) \<and>
    (\<forall>a m. us a = Some m \<longrightarrow> unat a + unat m \<le> unat (brk h) \<and> (\<exists>h'. free a h = Some h')) \<and>
    (\<forall>enough m. m < 0x7ffffff0 \<longrightarrow> (\<exists>a h'. malloc base enough m h = Some (a, h')))"
proof -
  have "held base h0 [] Map.empty" using assms(2-5) by (simp add: held_def ready_def)
  then obtain ps where h: "held base h ps us" using held_reachable [OF assms(1)] by blast
  have bytes: "{unat a ..< unat a + unat m} \<subseteq> block h (a - 8) \<and> unat a + unat m \<le> unat (brk h)" if "us a = Some m" for a m
  proof -
    have l: "loose base h ps (a - 8)" "h_size h (a - 8) = units m" "m < 0x7ffffff0" using h that by (auto simp: held_def)
    have st: "stop h (a - 8) \<le> unat (brk h)" using l(1) by (simp add: loose_def)
    note u = units_enough [OF l(3)]
    have "unat (a - 8) + 8 < 4294967296" using st u(3) unat_lt32 [of "brk h"] by (simp add: stop_def l(2))
    then have "unat (a - 8 + 8) = unat (a - 8) + 8" by (simp only: unat_word_ariths) simp
    then have "unat a = unat (a - 8) + 8" by simp
    then show ?thesis using st u(3) by (auto simp: block_def stop_def l(2))
  qed
  show ?thesis
  proof (intro conjI allI impI)
    show "{unat a ..< unat a + unat m} \<inter> {unat b ..< unat b + unat n} = {}" if "us a = Some m \<and> us b = Some n \<and> a \<noteq> b" for a b m n
      using heldD(2) [OF h, of a m b n] bytes [of a m] bytes [of b n] that by blast
    show "unat a + unat m \<le> unat (brk h)" if "us a = Some m" for a m using bytes [OF that] by simp
    show "\<exists>h'. free a h = Some h'" if "us a = Some m" for a m using held_free [OF h that] by blast
    show "\<exists>a h'. malloc base enough m h = Some (a, h')" if "m < 0x7ffffff0" for enough m
      using malloc_outcome [OF _ that, of base h ps enough] h by (auto simp: held_def)
  qed
qed


declare free_loop.simps [code] malloc_loop.simps [code]

definition heap_sample :: heap where
  "heap_sample = \<lparr>h_ptr = \<lambda>_. 0, h_size = \<lambda>_. 0, freep = 0, brk = 0x4000\<rparr>"

definition heap_after :: "uint \<Rightarrow> heap \<Rightarrow> heap" where
  "heap_after nbytes h = snd (the (malloc 0x3000 True nbytes h))"

lemma sample_mallocs:
  "map_option fst (malloc 0x3000 True 100 heap_sample) = Some 0xbf98"
  "map_option fst (malloc 0x3000 True 50 (heap_after 100 heap_sample)) = Some 0xbf58"
  by code_simp+

theorem heap_regions_disjoint_witness:
  "\<exists>h us. (heap_step 0x3000)\<^sup>*\<^sup>* (heap_sample, Map.empty) (h, us) \<and> us 0xbf98 = Some 100 \<and> us 0xbf58 = Some 50 \<and>
     {unat (0xbf98 :: uint) ..< unat (0xbf98 :: uint) + unat (100 :: uint)} \<inter> {unat (0xbf58 :: uint) ..< unat (0xbf58 :: uint) + unat (50 :: uint)} = {} \<and>
     (\<exists>h'. free 0xbf98 h = Some h')"
proof -
  let ?h1 = "heap_after 100 heap_sample" let ?h2 = "heap_after 50 ?h1" let ?us = "[0xbf98 \<mapsto> 100, 0xbf58 \<mapsto> 50] :: uint \<rightharpoonup> uint"
  have m: "malloc 0x3000 True 100 heap_sample = Some (0xbf98, ?h1)" "malloc 0x3000 True 50 ?h1 = Some (0xbf58, ?h2)"
    using sample_mallocs by (auto simp: heap_after_def)
  have "heap_step 0x3000 (heap_sample, Map.empty) (?h1, [0xbf98 \<mapsto> 100])" "heap_step 0x3000 (?h1, [0xbf98 \<mapsto> 100]) (?h2, ?us)"
    using step_malloc [OF m(1), of Map.empty] step_malloc [OF m(2), of "[0xbf98 \<mapsto> 100]"] by simp_all
  then have r: "(heap_step 0x3000)\<^sup>*\<^sup>* (heap_sample, Map.empty) (?h2, ?us)" by auto
  have "freep heap_sample = 0" "(0x3000 :: uint) \<noteq> 0" "0x3000 < brk heap_sample" "brk heap_sample < KERNBASE" by (simp_all add: heap_sample_def)
  note d = heap_regions_disjoint [OF r this]
  have us: "?us 0xbf98 = Some 100" "?us 0xbf58 = Some 50" by simp_all
  have "{unat (0xbf98 :: uint) ..< unat (0xbf98 :: uint) + unat (100 :: uint)} \<inter> {unat (0xbf58 :: uint) ..< unat (0xbf58 :: uint) + unat (50 :: uint)} = {}"
    using d [THEN conjunct1, rule_format, of "0xbf98" 100 "0xbf58" 50] us by simp
  moreover have "\<exists>h'. free 0xbf98 ?h2 = Some h'" using d [THEN conjunct2, THEN conjunct1, rule_format, OF us(1)] by simp
  ultimately show ?thesis using r us by blast
qed

text \<open>
  C37: the size is rounded up with unsigned arithmetic, so a request for the largest seven sizes
  wraps around: \<^verbatim>\<open>malloc\<close> of at least \<open>0xfffffff9\<close> bytes does what \<^verbatim>\<open>malloc(0)\<close> does and
  returns, instead of 0, a block of a single header with no byte behind it.
\<close>

theorem malloc_wraps:
  assumes "0xfffffff9 \<le> nbytes" "ready base h ps"
  shows "malloc base enough nbytes h = malloc base enough 0 h \<and>
    (\<forall>a h'. malloc base enough nbytes h = Some (a, h') \<and> a \<noteq> 0 \<longrightarrow> h_size h' (a - 8) = 1)"
proof -
  define k where "k = nbytes - 0xfffffff9"
  have "unat k = unat nbytes - 4294967289" using assms(1) by (simp add: k_def unat_sub)
  then have "unat k < 8" using unat_lt32 [of nbytes] by simp
  moreover have "nbytes + 8 - 1 = k" by (simp add: k_def)
  ultimately have "unat (nbytes + 8 - 1) < 8" by simp
  then have "(nbytes + 8 - 1) div 8 = 0" by (simp add: word_unat_eq_iff unat_div)
  then have "units nbytes = 1" unfolding units_def by (simp only: add_0)
  moreover have u0: "units 0 = 1" by code_simp
  ultimately have u: "units nbytes = units 0" "units 0 = 1" by simp_all
  then have e: "malloc base enough nbytes h = malloc base enough 0 h" by (simp add: malloc_def)
  have "h_size h' (a - 8) = 1" if "malloc base enough 0 h = Some (a, h')" "a \<noteq> 0" for a h'
    using malloc_outcome [OF assms(2), of 0 enough] that u(2) by (auto simp: taken_def)
  then show ?thesis using e by simp
qed

theorem malloc_wraps_witness:
  "\<exists>a h'. malloc 0x3000 True 0xffffffff heap_sample = Some (a, h') \<and> a \<noteq> 0 \<and> h_size h' (a - 8) = 1"
proof -
  have r: "ready 0x3000 heap_sample []" by (simp add: ready_def heap_sample_def)
  have "\<exists>a h'. malloc 0x3000 True 0 heap_sample = Some (a, h') \<and> a \<noteq> 0"
  proof -
    have "map_option fst (malloc 0x3000 True 0 heap_sample) = Some 0xc000" by code_simp
    then show ?thesis by auto
  qed
  then show ?thesis using malloc_wraps [OF _ r, of "0xffffffff" True] by auto
qed

end
