(* ===== verification/Mkfs.thy ===== *)
theory Mkfs
  imports Fs
begin

text \<open>
  The builder of the file system image (\<^verbatim>\<open>mkfs.c\<close>). It runs on the build machine; the image is a
  list of sectors in a file, and the two counters are its global variables. A failed assertion or a
  failed read ends the program, which is the failure value. The machine is little-endian, as the
  disk format is.
\<close>

abbreviation (input) NINODES :: uint where "NINODES \<equiv> 200"

record dinode =
  d_type :: ushort
  d_major :: ushort
  d_minor :: ushort
  d_nlink :: ushort
  d_size :: uint
  d_addrs :: "uint list"

record image =
  img :: "nat \<Rightarrow> byte list"
  freeinode :: uint
  freeblock :: uint

definition xshort :: "ushort \<Rightarrow> ushort" where
  "xshort x = get16 [ucast x, ucast (drop_bit 8 x)] 0"

definition xint :: "uint \<Rightarrow> uint" where
  "xint x = get32 [ucast x, ucast (drop_bit 8 x), ucast (drop_bit 16 x), ucast (drop_bit 24 x)] 0"

definition nbitmap :: uint where "nbitmap = FSSIZE div (512 * 8) + 1"
definition ninodeblocks :: uint where "ninodeblocks = NINODES div 8 + 1"
definition nlog_blocks :: uint where "nlog_blocks = 30"
definition nmeta :: uint where "nmeta = 2 + nlog_blocks + ninodeblocks + nbitmap"

definition sb_image :: superblock where
  "sb_image = \<lparr>sb_size = xint FSSIZE, nblocks = xint (FSSIZE - nmeta), ninodes = xint NINODES, nlog = xint nlog_blocks,
     logstart = xint 2, inodestart = xint (2 + nlog_blocks), bmapstart = xint (2 + nlog_blocks + ninodeblocks)\<rparr>"

definition superblock_bytes :: "superblock \<Rightarrow> byte list" where
  "superblock_bytes s = le32 (sb_size s) @ le32 (nblocks s) @ le32 (ninodes s) @ le32 (nlog s) @ le32 (logstart s) @
     le32 (inodestart s) @ le32 (bmapstart s)"

text \<open>A read behind the end of the file fails.\<close>

definition rsect :: "uint \<Rightarrow> image \<Rightarrow> byte list res" where
  "rsect sec m = (if sec < FSSIZE then Inr (img m (unat sec)) else panic ''read'')"

definition wsect :: "uint \<Rightarrow> byte list \<Rightarrow> image \<Rightarrow> image" where
  "wsect sec bs m = m\<lparr>img := (img m)(unat sec := bs)\<rparr>"

definition dinode_at :: "byte list \<Rightarrow> nat \<Rightarrow> dinode" where
  "dinode_at bs k = \<lparr>d_type = get16 bs k, d_major = get16 bs (k + 2), d_minor = get16 bs (k + 4), d_nlink = get16 bs (k + 6),
     d_size = get32 bs (k + 8), d_addrs = map (\<lambda>i. get32 bs (k + 12 + 4 * i)) [0..<NDIRECT + 1]\<rparr>"

definition bytes_of_dinode :: "dinode \<Rightarrow> byte list" where
  "bytes_of_dinode d = le16 (d_type d) @ le16 (d_major d) @ le16 (d_minor d) @ le16 (d_nlink d) @ le32 (d_size d) @
     concat (map le32 (d_addrs d))"

definition winode :: "uint \<Rightarrow> dinode \<Rightarrow> image \<Rightarrow> image res" where
  "winode no d m =
     (let bn = IBLOCK no sb_image
      in andThen (rsect bn m) (\<lambda>buf. Inr (wsect bn (splice (dinode_off no) (bytes_of_dinode d) buf) m)))"

definition rinode :: "uint \<Rightarrow> image \<Rightarrow> dinode res" where
  "rinode no m = andThen (rsect (IBLOCK no sb_image) m) (\<lambda>buf. Inr (dinode_at buf (dinode_off no)))"

definition mkfs_ialloc :: "ushort \<Rightarrow> image \<Rightarrow> (uint \<times> image) res" where
  "mkfs_ialloc t m =
     (let no = freeinode m; d = \<lparr>d_type = xshort t, d_major = 0, d_minor = 0, d_nlink = xshort 1, d_size = xint 0, d_addrs = replicate 13 0\<rparr>
      in andThen (winode no d (m\<lparr>freeinode := no + 1\<rparr>)) (\<lambda>m1. Inr (no, m1)))"

fun bitmap_loop :: "nat \<Rightarrow> byte list \<Rightarrow> byte list" where
  "bitmap_loop 0 buf = buf"
| "bitmap_loop (Suc i) buf = (let b = bitmap_loop i buf in b[i div 8 := b ! (i div 8) OR push_bit (i mod 8) 1])"

definition mkfs_balloc :: "nat \<Rightarrow> image \<Rightarrow> image res" where
  "mkfs_balloc used m =
     (if used < 512 * 8 then Inr (wsect (bmapstart sb_image) (bitmap_loop used (replicate 512 0)) m) else panic ''assert'')"

text \<open>The block of the file at index \<open>fbn\<close>, allocated if it is not there.\<close>

definition file_block :: "nat \<Rightarrow> dinode \<Rightarrow> image \<Rightarrow> (uint \<times> dinode \<times> image) res" where
  "file_block fbn d m =
     (if fbn < NDIRECT
      then let (d1, m1) = (if xint (d_addrs d ! fbn) = 0
                           then (d\<lparr>d_addrs := (d_addrs d)[fbn := xint (freeblock m)]\<rparr>, m\<lparr>freeblock := freeblock m + 1\<rparr>) else (d, m))
           in Inr (xint (d_addrs d1 ! fbn), d1, m1)
      else let (d1, m1) = (if xint (d_addrs d ! NDIRECT) = 0
                           then (d\<lparr>d_addrs := (d_addrs d)[NDIRECT := xint (freeblock m)]\<rparr>, m\<lparr>freeblock := freeblock m + 1\<rparr>) else (d, m));
               ind = xint (d_addrs d1 ! NDIRECT)
           in andThen (rsect ind m1) (\<lambda>buf.
                let k = 4 * (fbn - NDIRECT)
                in if get32 buf k = 0
                   then let buf1 = splice k (le32 (xint (freeblock m1))) buf
                        in Inr (xint (get32 buf1 k), d1, wsect ind buf1 (m1\<lparr>freeblock := freeblock m1 + 1\<rparr>))
                   else Inr (xint (get32 buf k), d1, m1)))"

text \<open>The loop of \<^verbatim>\<open>iappend\<close>; its assertion keeps the offset small, so a natural number holds it.\<close>

function iappend_loop :: "dinode \<Rightarrow> nat \<Rightarrow> byte list \<Rightarrow> image \<Rightarrow> (dinode \<times> nat \<times> image) res" where
  "iappend_loop d off p m =
     (if p = [] then Inr (d, off, m)
      else let fbn = off div 512
           in if fbn \<ge> MAXFILE then panic ''assert''
              else case file_block fbn d m of
                     Inl e \<Rightarrow> Inl e
                   | Inr (x, d1, m1) \<Rightarrow>
                       let n1 = min (length p) ((fbn + 1) * 512 - off)
                       in case rsect x m1 of
                            Inl e \<Rightarrow> Inl e
                          | Inr buf \<Rightarrow> iappend_loop d1 (off + n1) (drop n1 p) (wsect x (splice (off - fbn * 512) (take n1 p) buf) m1))"
  by pat_completeness auto
termination
proof (relation "measure (\<lambda>(d, off, p, m). length p)", goal_cases)
  case (2 d off p m fbn aa b x y xa ya n1)
  have "off < (off div 512 + 1) * 512" using div_mult_mod_eq [of off 512] by (simp add: mod_less_divisor)
  then show ?case using 2 by (cases p) auto
qed simp

declare iappend_loop.simps [simp del]

definition iappend :: "uint \<Rightarrow> byte list \<Rightarrow> image \<Rightarrow> image res" where
  "iappend no p m =
     andThen (rinode no m) (\<lambda>d.
     andThen (iappend_loop d (unat (xint (d_size d))) p m) (\<lambda>(d1, off, m1).
       winode no (d1\<lparr>d_size := xint (of_nat off)\<rparr>) m1))"

text \<open>A file is read and appended in pieces of one block.\<close>

function copy_file :: "uint \<Rightarrow> byte list \<Rightarrow> image \<Rightarrow> image res" where
  "copy_file no bs m =
     (if bs = [] then Inr m
      else case iappend no (take 512 bs) m of Inl e \<Rightarrow> Inl e | Inr m1 \<Rightarrow> copy_file no (drop 512 bs) m1)"
  by pat_completeness auto
termination
  by (relation "measure (\<lambda>(no, bs, m). length bs)") auto

declare copy_file.simps [simp del]

definition add_file :: "byte list \<times> byte list \<Rightarrow> image \<Rightarrow> image res" where
  "add_file = (\<lambda>(name, bs) m.
     if 0x2f \<in> set name then panic ''assert''
     else let name = (case name of c # cs \<Rightarrow> if c = 0x5f then cs else name | [] \<Rightarrow> name)
          in andThen (mkfs_ialloc T_FILE m) (\<lambda>(no, m1).
             andThen (iappend ROOTINO (dirent_bytes (xshort (ucast no)) name) m1) (copy_file no bs)))"

fun add_files :: "(byte list \<times> byte list) list \<Rightarrow> image \<Rightarrow> image res" where
  "add_files [] m = Inr m"
| "add_files (f # fs) m = andThen (add_file f m) (add_files fs)"

definition image_start :: image where
  "image_start = wsect 1 (splice 0 (superblock_bytes sb_image) (replicate 512 0))
     \<lparr>img = \<lambda>_. replicate 512 0, freeinode = 1, freeblock = nmeta\<rparr>"

text \<open>\<^verbatim>\<open>main\<close>, given the names and contents of the files.\<close>

definition mkfs :: "(byte list \<times> byte list) list \<Rightarrow> image res" where
  "mkfs files =
     andThen (mkfs_ialloc T_DIR image_start) (\<lambda>(root, m1).
     if root \<noteq> ROOTINO then panic ''assert''
     else andThen (iappend root (dirent_bytes (xshort (ucast root)) [0x2e]) m1) (\<lambda>m2.
          andThen (iappend root (dirent_bytes (xshort (ucast root)) [0x2e, 0x2e]) m2) (\<lambda>m3.
          andThen (add_files files m3) (\<lambda>m4.
          andThen (rinode root m4) (\<lambda>d.
            let off = (xint (d_size d) div 512 + 1) * 512
            in andThen (winode root (d\<lparr>d_size := xint off\<rparr>) m4) (\<lambda>m5. mkfs_balloc (unat (freeblock m5)) m5))))))"

lemma xint_id [simp]: "xint x = x"
  using get32_le32 [of 0 "replicate 4 0" x] by (simp add: xint_def splice_def le32_def)

end
