(* ===== verification/Mkfs_Spec.thy ===== *)
theory Mkfs_Spec
  imports Mkfs
begin

text \<open>
  Correctness of the image builder: the on-disk inodes are written and read back, a file grows by
  exactly the bytes appended to it, no block is used twice, no other block changes, and the
  files stay within the free part of the disk.
\<close>

subsection \<open>Inodes on disk\<close>

lemma length_le16 [simp]: "length (le16 w) = 2"
  by (simp add: le16_def)

lemma get16_le16: "get16 (le16 w) 0 = w"
  by (rule bit_eqI) (auto simp: get16_def le16_def bit_simps)

lemma get32_le: "get32 (le32 w) 0 = w"
  using get32_le32 [of 0 "replicate 4 0" w] by (simp add: splice_def)

lemma get32_drop: "k + i + 4 \<le> length bs \<Longrightarrow> get32 bs (k + i) = get32 (drop k bs) i"
  by (simp add: get32_def ac_simps)

lemma get16_drop: "k + i + 2 \<le> length bs \<Longrightarrow> get16 bs (k + i) = get16 (drop k bs) i"
  by (simp add: get16_def ac_simps)

lemma get32_append [simp]: "i + 4 \<le> length xs \<Longrightarrow> get32 (xs @ ys) i = get32 xs i"
  by (simp add: get32_def nth_append)

lemma get16_append [simp]: "i + 2 \<le> length xs \<Longrightarrow> get16 (xs @ ys) i = get16 xs i"
  by (simp add: get16_def nth_append)

lemma get32_words: "i < length as \<Longrightarrow> get32 (concat (map le32 as)) (4 * i) = as ! i"
proof (induction as arbitrary: i)
  case (Cons a as)
  show ?case
  proof (cases i)
    case 0
    then show ?thesis by (simp add: get32_le)
  next
    case (Suc j)
    have "get32 (le32 a @ concat (map le32 as)) (4 + 4 * j) = get32 (concat (map le32 as)) (4 * j)"
      by (simp add: get32_def nth_append ac_simps)
    then show ?thesis using Suc Cons by simp
  qed
qed simp

lemma length_words [simp]: "length (concat (map le32 as)) = 4 * length as"
  by (induction as) auto

lemma length_dinode [simp]: "length (d_addrs d) = 13 \<Longrightarrow> length (bytes_of_dinode d) = 64"
  by (simp add: bytes_of_dinode_def)

lemma dinode_window: "k + 64 \<le> length bs \<Longrightarrow> dinode_at bs k = dinode_at (take 64 (drop k bs)) 0"
  by (simp add: dinode_at_def get16_def get32_def ac_simps)

lemma dinode_roundtrip:
  assumes "length (d_addrs d) = 13"
  shows "dinode_at (bytes_of_dinode d) 0 = d"
proof -
  let ?ws = "concat (map le32 (d_addrs d))"
  have e: "bytes_of_dinode d = le16 (d_type d) @ le16 (d_major d) @ le16 (d_minor d) @ le16 (d_nlink d) @ le32 (d_size d) @ ?ws"
    by (simp add: bytes_of_dinode_def)
  have a: "get32 (bytes_of_dinode d) (12 + 4 * i) = d_addrs d ! i" if "i < 13" for i
  proof -
    have "get32 (bytes_of_dinode d) (12 + 4 * i) = get32 (drop 12 (bytes_of_dinode d)) (4 * i)"
      using that assms by (intro get32_drop) simp
    also have "drop 12 (bytes_of_dinode d) = ?ws" by (simp add: e)
    finally show ?thesis using that assms by (simp add: get32_words)
  qed
  have "map (\<lambda>i. get32 (bytes_of_dinode d) (12 + 4 * i)) [0..<13] = d_addrs d"
    using a assms by (intro nth_equalityI) auto
  moreover have "get16 (bytes_of_dinode d) 0 = d_type d" "get16 (bytes_of_dinode d) (2 + 0) = d_major d"
    "get16 (bytes_of_dinode d) (4 + 0) = d_minor d" "get16 (bytes_of_dinode d) (6 + 0) = d_nlink d"
    "get32 (bytes_of_dinode d) (8 + 0) = d_size d"
    using assms by (simp_all only: get16_drop get32_drop length_dinode) (simp_all add: e get16_le16 get32_le)
  ultimately show ?thesis by (simp add: dinode_at_def numeral_2_eq_2)
qed

subsection \<open>The blocks of a file\<close>

definition nblk :: "nat \<Rightarrow> nat" where
  "nblk off = (off + 511) div 512"

definition blk :: "image \<Rightarrow> dinode \<Rightarrow> nat \<Rightarrow> uint" where
  "blk m d k = (if k < 12 then d_addrs d ! k else get32 (img m (unat (d_addrs d ! 12))) (4 * (k - 12)))"

definition used :: "image \<Rightarrow> dinode \<Rightarrow> nat \<Rightarrow> uint list" where
  "used m d n = map (blk m d) [0..<n] @ (if n > 12 then [d_addrs d ! 12] else [])"

definition image_ok :: "image \<Rightarrow> bool" where
  "image_ok m \<longleftrightarrow> (\<forall>b. length (img m b) = 512) \<and> 59 \<le> unat (freeblock m) \<and> unat (freeblock m) \<le> 1001 \<and>
     (\<forall>b \<ge> unat (freeblock m). img m b = replicate 512 0)"

definition file_ok :: "image \<Rightarrow> dinode \<Rightarrow> nat \<Rightarrow> bool" where
  "file_ok m d n \<longleftrightarrow> length (d_addrs d) = 13 \<and> n \<le> 140 \<and> distinct (used m d n) \<and>
     (\<forall>b \<in> set (used m d n). 59 \<le> unat b \<and> b < freeblock m) \<and> (\<forall>k. n \<le> k \<and> k < 12 \<longrightarrow> d_addrs d ! k = 0) \<and>
     (if n \<le> 12 then d_addrs d ! 12 = 0 else \<forall>k. n \<le> k \<and> k < 140 \<longrightarrow> blk m d k = 0)"

text \<open>The file has grown to \<open>n'\<close> blocks: its old blocks stay, the new ones were free, other blocks are not touched.\<close>

definition extends :: "image \<Rightarrow> dinode \<Rightarrow> nat \<Rightarrow> image \<Rightarrow> dinode \<Rightarrow> nat \<Rightarrow> bool" where
  "extends m d n m' d' n' \<longleftrightarrow> image_ok m' \<and> file_ok m' d' n' \<and> n \<le> n' \<and> (\<forall>k < n. blk m' d' k = blk m d k) \<and>
     freeblock m \<le> freeblock m' \<and> freeinode m' = freeinode m \<and> d' = d\<lparr>d_addrs := d_addrs d'\<rparr> \<and>
     (\<forall>b \<in> set (used m' d' n'). b \<in> set (used m d n) \<or> freeblock m \<le> b) \<and>
     (\<forall>b. b < unat (freeblock m) \<and> b \<notin> unat ` set (used m d n) \<longrightarrow> img m' b = img m b)"

lemma nblk_mod: "off mod 512 = 0 \<Longrightarrow> nblk off = off div 512" "off mod 512 \<noteq> 0 \<Longrightarrow> nblk off = off div 512 + 1"
proof -
  have "nblk off = (512 * (off div 512) + (off mod 512 + 511)) div 512" unfolding nblk_def by (simp add: algebra_simps)
  then have e: "nblk off = off div 512 + (off mod 512 + 511) div 512" by (simp only: div_mult_self4)
  show "off mod 512 = 0 \<Longrightarrow> nblk off = off div 512" unfolding e by simp
  have "off mod 512 < 512" by simp
  then show "nblk off = off div 512 + 1" if "off mod 512 \<noteq> 0"
    unfolding e using that by (simp add: div_if)
qed

lemma get32_zeros [simp]: "i + 4 \<le> n \<Longrightarrow> get32 (replicate n 0) i = 0"
  by (simp add: get32_def)

lemma used_in: "k < n \<Longrightarrow> blk m d k \<in> set (used m d n)" "n > 12 \<Longrightarrow> d_addrs d ! 12 \<in> set (used m d n)"
  by (auto simp: used_def)

text \<open>An index inside the file: nothing is allocated.\<close>

lemma file_block_there:
  assumes f: "file_ok m d n" and k: "k < n" and m: "image_ok m" "freeblock m \<le> FSSIZE"
  shows "file_block k d m = Inr (blk m d k, d, m)"
proof -
  have "59 \<le> unat (blk m d k)" using f used_in(1) [OF k, of m d] unfolding file_ok_def by blast
  then have b: "blk m d k \<noteq> 0" by auto
  show ?thesis
  proof (cases "k < 12")
    case True
    then show ?thesis using b by (simp add: file_block_def blk_def)
  next
    case False
    then have "d_addrs d ! 12 \<in> set (used m d n)" using k used_in(2) by simp
    then have i: "59 \<le> unat (d_addrs d ! 12)" "d_addrs d ! 12 < freeblock m" using f unfolding file_ok_def by blast+
    have "d_addrs d ! 12 \<noteq> 0" "d_addrs d ! 12 < FSSIZE" using i m(2) by auto
    moreover have "get32 (img m (unat (d_addrs d ! 12))) (4 * (k - 12)) \<noteq> 0" using b False by (simp add: blk_def)
    ultimately show ?thesis using False by (simp add: file_block_def blk_def rsect_def Let_def)
  qed
qed

text \<open>The index right behind the file: one block is allocated, and the indirect block with the thirteenth.\<close>

lemma file_ok_step:
  assumes f: "file_ok m d n" and n: "n < 140" "length (d_addrs d1) = 13"
    and same: "\<forall>k < n. blk m1 d1 k = blk m d k" and x: "blk m1 d1 n = x" "freeblock m \<le> x" "x < freeblock m1"
    and fb: "59 \<le> unat (freeblock m)"
    and direct: "n < 12 \<Longrightarrow> d_addrs d1 ! 12 = 0 \<and> (\<forall>k. n < k \<and> k < 12 \<longrightarrow> d_addrs d1 ! k = 0)"
    and indirect: "12 \<le> n \<Longrightarrow> \<forall>k. n < k \<and> k < 140 \<longrightarrow> blk m1 d1 k = 0"
    and first: "n = 12 \<Longrightarrow> freeblock m \<le> d_addrs d1 ! 12 \<and> d_addrs d1 ! 12 < x"
    and later: "12 < n \<Longrightarrow> d_addrs d1 ! 12 = d_addrs d ! 12"
  shows "file_ok m1 d1 (n + 1) \<and> (\<forall>b \<in> set (used m1 d1 (n + 1)). b \<in> set (used m d n) \<or> freeblock m \<le> b)"
proof -
  let ?old = "map (blk m d) [0..<n]" and ?i = "d_addrs d1 ! 12"
  have u: "used m1 d1 (n + 1) = ?old @ [x] @ (if 12 \<le> n then [?i] else [])"
    using same x(1) by (auto simp: used_def)
  have old: "distinct (used m d n)" "\<forall>b \<in> set (used m d n). 59 \<le> unat b \<and> b < freeblock m" using f by (auto simp: file_ok_def)
  have od: "distinct ?old" "set ?old \<subseteq> set (used m d n)" using old(1) by (auto simp: used_def)
  have i: "if 12 < n then ?i \<in> set (used m d n) \<and> ?i \<notin> set ?old else n = 12 \<longrightarrow> freeblock m \<le> ?i \<and> ?i < x"
    using old(1) later first by (auto simp: used_def split: if_splits)
  have nx: "b < freeblock m \<Longrightarrow> b \<noteq> x" for b using x(2) by auto
  have d: "distinct (used m1 d1 (n + 1))"
  proof (cases "12 < n")
    case True
    then show ?thesis unfolding u using od i old(2) nx by auto
  next
    case False
    have "x \<notin> set ?old" "n = 12 \<longrightarrow> ?i \<notin> set ?old" using od(2) old(2) x(2) i False by fastforce+
    then show ?thesis unfolding u using od(1) i False by auto
  qed
  have r: "\<forall>b \<in> set (used m1 d1 (n + 1)). b \<in> set (used m d n) \<or> freeblock m \<le> b \<and> b \<le> x"
  proof (cases "12 < n")
    case True
    then show ?thesis unfolding u using od(2) i x(2) by auto
  next
    case False
    then show ?thesis unfolding u using od(2) i x(2) by auto
  qed
  have "59 \<le> unat b \<and> b < freeblock m1" if "b \<in> set (used m1 d1 (n + 1))" for b
  proof -
    have "freeblock m < freeblock m1" using x(2,3) by simp
    then show ?thesis using r that old(2) x(3) fb by (meson le_trans word_le_nat_alt order_less_trans order_le_less_trans)
  qed
  then have "file_ok m1 d1 (n + 1)"
    using d n direct indirect unfolding file_ok_def by auto
  then show ?thesis using r by blast
qed

text \<open>What a successful allocation of the next block gives.\<close>

definition fresh :: "image \<Rightarrow> dinode \<Rightarrow> nat \<Rightarrow> uint \<Rightarrow> dinode \<Rightarrow> image \<Rightarrow> bool" where
  "fresh m d n x d1 m1 \<longleftrightarrow> extends m d n m1 d1 (n + 1) \<and> blk m1 d1 n = x \<and> freeblock m1 = x + 1 \<and> img m1 (unat x) = replicate 512 0 \<and>
     (\<forall>k < n. img m1 (unat (blk m d k)) = img m (unat (blk m d k)))"

lemma next_block: "unat (b :: uint) \<le> 1000 \<Longrightarrow> unat (b + 1) = unat b + 1 \<and> unat (b + 1 + 1) = unat b + 2"
  by (simp add: unat_word_ariths)

lemma entry_other:
  assumes "12 \<le> n" "n < 140" "12 \<le> k" "k < 140" "k \<noteq> n" "length bs = 512"
  shows "get32 (splice (4 * (n - 12)) (le32 w) bs) (4 * (k - 12)) = get32 bs (4 * (k - 12))"
proof (rule get32_other)
  show "4 * (k - 12) + 4 \<le> 4 * (n - 12) \<or> 4 * (n - 12) + length (le32 w) \<le> 4 * (k - 12)" using assms by (cases "k < n") auto
qed (use assms in auto)

lemma fresh_direct:
  assumes f: "file_ok m d n" and n: "n < 12" and m: "image_ok m" "freeblock m \<le> FSSIZE"
  shows "fresh m d n (freeblock m) (d\<lparr>d_addrs := (d_addrs d)[n := freeblock m]\<rparr>) (m\<lparr>freeblock := freeblock m + 1\<rparr>)"
    (is "fresh m d n ?x ?d ?m")
proof -
  have fb: "unat (freeblock m) \<le> 1000" "59 \<le> unat (freeblock m)" using m by (auto simp: word_le_nat_alt image_ok_def)
  note nb = next_block [OF fb(1)]
  have d: "length (d_addrs d) = 13" "d_addrs d ! 12 = 0" "\<forall>k. n \<le> k \<and> k < 12 \<longrightarrow> d_addrs d ! k = 0"
    using f n by (auto simp: file_ok_def)
  have x: "freeblock m < freeblock ?m" using nb by (simp add: word_less_nat_alt)
  have same: "\<forall>k < n. blk ?m ?d k = blk m d k" using n by (simp add: blk_def)
  have new: "blk ?m ?d n = ?x" using n d(1) by (simp add: blk_def)
  have "file_ok ?m ?d (n + 1) \<and> (\<forall>b \<in> set (used ?m ?d (n + 1)). b \<in> set (used m d n) \<or> freeblock m \<le> b)"
    by (rule file_ok_step [OF f _ _ same new]) (use n d x fb in auto)
  moreover have "image_ok ?m" using m(1) fb nb by (auto simp: image_ok_def)
  ultimately have "extends m d n ?m ?d (n + 1)" using same x by (simp add: extends_def)
  then show ?thesis using m(1) new unfolding fresh_def image_ok_def by simp
qed

lemma fresh_first:
  assumes f: "file_ok m d 12" and m: "image_ok m" "freeblock m < FSSIZE"
    and x: "x = freeblock m + 1" and d1: "d1 = d\<lparr>d_addrs := (d_addrs d)[12 := freeblock m]\<rparr>"
    and m1: "m1 = wsect (freeblock m) (splice 0 (le32 x) (replicate 512 0)) (m\<lparr>freeblock := x + 1\<rparr>)"
  shows "fresh m d 12 x d1 m1"
proof -
  let ?buf = "splice 0 (le32 x) (replicate 512 0)"
  have fb: "unat (freeblock m) < 1000" "59 \<le> unat (freeblock m)" using m by (auto simp: word_less_nat_alt image_ok_def)
  then have nb: "unat x = unat (freeblock m) + 1" "unat (x + 1) = unat (freeblock m) + 2" using next_block [of "freeblock m"] x by simp_all
  have d: "length (d_addrs d) = 13" using f by (simp add: file_ok_def)
  have im: "img m1 = (img m)(unat (freeblock m) := ?buf)" "freeblock m1 = x + 1" "freeinode m1 = freeinode m"
    by (simp_all add: wsect_def m1)
  have lt: "freeblock m \<le> x" "x < freeblock m1" "freeblock m < x" using nb im by (simp_all add: word_less_nat_alt word_le_nat_alt)
  have ind: "d_addrs d1 ! 12 = freeblock m" using d by (simp add: d1)
  have same: "\<forall>k < 12. blk m1 d1 k = blk m d k" by (simp add: blk_def d1)
  have new: "blk m1 d1 12 = x" using get32_le32 [of 0 "replicate 512 0" x] by (simp add: blk_def ind im)
  have zero: "\<forall>k. 12 < k \<and> k < 140 \<longrightarrow> blk m1 d1 k = 0"
  proof (intro allI impI)
    fix k :: nat assume k: "12 < k \<and> k < 140"
    then have "4 * (k - 12) + 4 \<le> 512" by arith
    then show "blk m1 d1 k = 0" using k
      entry_other [of 12 k "replicate 512 0" x] get32_zeros [of "4 * (k - 12)" 512] by (simp add: blk_def ind im)
  qed
  have "file_ok m1 d1 (12 + 1) \<and> (\<forall>b \<in> set (used m1 d1 (12 + 1)). b \<in> set (used m d 12) \<or> freeblock m \<le> b)"
    by (rule file_ok_step [OF f _ _ same new]) (use d lt fb ind zero d1 in auto)
  moreover have "image_ok m1" using m(1) fb nb by (auto simp: image_ok_def im)
  moreover have "freeblock m \<le> freeblock m1" using lt by simp
  ultimately have "extends m d 12 m1 d1 (12 + 1)" using same by (simp add: extends_def im d1)
  moreover have "\<forall>k < 12. blk m d k < freeblock m" using f used_in(1) unfolding file_ok_def by blast
  then have "\<forall>k < 12. unat (blk m d k) \<noteq> unat (freeblock m)" by (auto simp: word_less_nat_alt)
  ultimately show ?thesis using m(1) nb new by (auto simp: fresh_def im image_ok_def)
qed

lemma fresh_later:
  assumes f: "file_ok m d n" and n: "12 < n" "n < 140" and m: "image_ok m" "freeblock m \<le> FSSIZE"
  defines "buf \<equiv> splice (4 * (n - 12)) (le32 (freeblock m)) (img m (unat (d_addrs d ! 12)))"
  assumes m1: "m1 = wsect (d_addrs d ! 12) buf (m\<lparr>freeblock := freeblock m + 1\<rparr>)"
  shows "fresh m d n (freeblock m) d m1"
proof -
  have fb: "unat (freeblock m) \<le> 1000" "59 \<le> unat (freeblock m)" using m by (auto simp: word_le_nat_alt image_ok_def)
  note nb = next_block [OF fb(1)]
  have len: "length (img m b) = 512" for b using m(1) by (simp add: image_ok_def)
  have d: "length (d_addrs d) = 13" "\<forall>k. n \<le> k \<and> k < 140 \<longrightarrow> blk m d k = 0" "distinct (used m d n)"
    "\<forall>b \<in> set (used m d n). 59 \<le> unat b \<and> b < freeblock m"
    using f n by (auto simp: file_ok_def)
  have ind: "d_addrs d ! 12 \<in> set (used m d n)" "d_addrs d ! 12 < freeblock m" using used_in(2) n(1) d(4) by auto
  have im: "img m1 = (img m)(unat (d_addrs d ! 12) := buf)" "freeblock m1 = freeblock m + 1" "freeinode m1 = freeinode m"
    by (simp_all add: wsect_def m1)
  have x: "freeblock m < freeblock m1" using nb im by (simp add: word_less_nat_alt)
  have same: "\<forall>k < n. blk m1 d k = blk m d k"
  proof (intro allI impI)
    fix k assume k: "k < n"
    then show "blk m1 d k = blk m d k"
      using entry_other [of n k "img m (unat (d_addrs d ! 12))" "freeblock m"] n len
      by (auto simp: blk_def im buf_def)
  qed
  have new: "blk m1 d n = freeblock m" using get32_le32 [of "4 * (n - 12)"] n len by (simp add: blk_def im buf_def)
  have zero: "\<forall>k. n < k \<and> k < 140 \<longrightarrow> blk m1 d k = 0"
  proof (intro allI impI)
    fix k assume k: "n < k \<and> k < 140"
    then have "blk m1 d k = blk m d k"
      using entry_other [of n k "img m (unat (d_addrs d ! 12))" "freeblock m"] n len by (simp add: blk_def im buf_def)
    then show "blk m1 d k = 0" using d(2) k by simp
  qed
  have "file_ok m1 d (n + 1) \<and> (\<forall>b \<in> set (used m1 d (n + 1)). b \<in> set (used m d n) \<or> freeblock m \<le> b)"
    by (rule file_ok_step [OF f _ _ same new]) (use n d(1) x fb zero in auto)
  moreover have "length buf = 512" using n len by (simp add: buf_def)
  then have "image_ok m1" using m(1) fb nb ind(2) by (auto simp: image_ok_def im word_less_nat_alt)
  moreover have "freeblock m \<le> freeblock m1" using x by simp
  ultimately have "extends m d n m1 d (n + 1)" using same ind(1) by (auto simp: extends_def im)
  moreover have "\<forall>k < n. blk m d k \<noteq> d_addrs d ! 12" using d(3) n(1) by (force simp: used_def)
  then have "\<forall>k < n. unat (blk m d k) \<noteq> unat (d_addrs d ! 12)" by (simp add: word_unat_eq_iff [symmetric])
  moreover have "unat (d_addrs d ! 12) \<noteq> unat (freeblock m)" using ind(2) by (auto simp: word_less_nat_alt)
  ultimately show ?thesis using m(1) new by (auto simp: fresh_def im image_ok_def)
qed

lemma file_block_new:
  assumes f: "file_ok m d n" and n: "n < 140" and m: "image_ok m" "freeblock m \<le> FSSIZE" and e: "file_block n d m = Inr (x, d1, m1)"
  shows "fresh m d n x d1 m1"
proof -
  consider "n < 12" | "n = 12" | "12 < n" by linarith
  then show ?thesis
  proof cases
    case 1
    then have "d_addrs d ! n = 0" "length (d_addrs d) = 13" using f by (auto simp: file_ok_def)
    then show ?thesis using 1 e fresh_direct [OF f 1 m] by (auto simp: file_block_def)
  next
    case 2
    then have d: "d_addrs d ! 12 = 0" "length (d_addrs d) = 13" using f by (auto simp: file_ok_def)
    have z: "img m (unat (freeblock m)) = replicate 512 0" using m(1) by (simp add: image_ok_def)
    have lt: "freeblock m < FSSIZE" using e d 2 by (auto simp: file_block_def rsect_def Let_def split: if_splits)
    have "get32 (splice 0 (le32 (freeblock m + 1)) (replicate 512 0)) 0 = freeblock m + 1" by (rule get32_le32) simp
    then have "x = freeblock m + 1" "d1 = d\<lparr>d_addrs := (d_addrs d)[12 := freeblock m]\<rparr>"
      "m1 = wsect (freeblock m) (splice 0 (le32 x) (replicate 512 0)) (m\<lparr>freeblock := x + 1\<rparr>)"
      using e d 2 lt z by (auto simp: file_block_def rsect_def Let_def)
    then show ?thesis using fresh_first [OF f [unfolded 2] m(1) lt] 2 by simp
  next
    case 3
    have ind: "59 \<le> unat (d_addrs d ! 12)" "d_addrs d ! 12 < freeblock m" "blk m d n = 0"
      using f used_in(2) [OF 3, of d m] 3 n by (auto simp: file_ok_def)
    then have i: "d_addrs d ! 12 \<noteq> 0" "d_addrs d ! 12 < FSSIZE" using m(2) by auto
    have "length (img m (unat (d_addrs d ! 12))) = 512" using m(1) by (simp add: image_ok_def)
    then have "get32 (splice (4 * (n - 12)) (le32 (freeblock m)) (img m (unat (d_addrs d ! 12)))) (4 * (n - 12)) = freeblock m"
      using 3 n by (intro get32_le32) simp
    then show ?thesis
      using e 3 i ind(3) fresh_later [OF f 3 n m refl] by (auto simp: file_block_def rsect_def blk_def Let_def)
  qed
qed

subsection \<open>Appending\<close>

definition blocks :: "image \<Rightarrow> dinode \<Rightarrow> nat \<Rightarrow> byte list" where
  "blocks m d n = concat (map (\<lambda>k. img m (unat (blk m d k))) [0..<n])"

definition content :: "image \<Rightarrow> dinode \<Rightarrow> nat \<Rightarrow> byte list" where
  "content m d off = take off (blocks m d (nblk off))"

lemma length_blocks: "image_ok m \<Longrightarrow> length (blocks m d n) = 512 * n"
  by (induction n) (auto simp: blocks_def image_ok_def)

lemma blocks_Suc: "blocks m d (Suc n) = blocks m d n @ img m (unat (blk m d n))"
  by (simp add: blocks_def)

lemma blocks_cong: "(\<And>k. k < n \<Longrightarrow> img m' (unat (blk m' d' k)) = img m (unat (blk m d k))) \<Longrightarrow> blocks m' d' n = blocks m d n"
  unfolding blocks_def by (rule arg_cong [of _ _ concat]) auto

text \<open>Write into block \<open>n\<close> of a file with \<open>n + 1\<close> blocks.\<close>

lemma write_block:
  assumes m: "image_ok m" and f: "file_ok m d (n + 1)" and bs: "length bs = 512"
  defines "m' \<equiv> wsect (blk m d n) bs m"
  shows "image_ok m'" "file_ok m' d (n + 1)" "\<forall>k \<le> n. blk m' d k = blk m d k" "used m' d (n + 1) = used m d (n + 1)"
    "blocks m' d (n + 1) = blocks m d n @ bs" "freeblock m' = freeblock m" "freeinode m' = freeinode m"
proof -
  have im: "img m' = (img m)(unat (blk m d n) := bs)" "freeblock m' = freeblock m" "freeinode m' = freeinode m"
    by (simp_all add: m'_def wsect_def)
  show "freeblock m' = freeblock m" "freeinode m' = freeinode m" by (rule im)+
  have u: "distinct (used m d (n + 1))" "blk m d n < freeblock m"
    using f used_in(1) [of n "n + 1" m d] by (auto simp: file_ok_def)
  have "d_addrs d ! 12 \<noteq> blk m d n" if "n \<ge> 12" using u(1) that by (auto simp: used_def)
  then have ne: "unat (d_addrs d ! 12) \<noteq> unat (blk m d n)" if "n \<ge> 12" using that by (simp add: word_unat_eq_iff [symmetric])
  have b: "blk m' d k = blk m d k" if "n \<ge> 12 \<or> k < 12" for k using that ne unfolding blk_def [of m'] blk_def [of m d k] by (auto simp: im)
  show b': "\<forall>k \<le> n. blk m' d k = blk m d k" by (intro allI impI b) linarith
  then show u': "used m' d (n + 1) = used m d (n + 1)" by (simp add: used_def)
  show "image_ok m'" using m u(2) bs by (auto simp: image_ok_def im word_less_nat_alt)
  show "file_ok m' d (n + 1)" using f b unfolding file_ok_def u' im(2) by auto
  have "blocks m' d n = blocks m d n"
  proof (rule blocks_cong)
    fix k assume k: "k < n"
    have "distinct (map (blk m d) [0..<n + 1])" using u(1) unfolding used_def distinct_append by blast
    then have "inj_on (blk m d) {0..<n + 1}" by (simp only: distinct_map set_upt)
    then have "blk m d k \<noteq> blk m d n" using k by (auto dest: inj_onD)
    then have "unat (blk m d k) \<noteq> unat (blk m d n)" by (simp add: word_unat_eq_iff [symmetric])
    then show "img m' (unat (blk m' d k)) = img m (unat (blk m d k))" using b' k by (simp add: im)
  qed
  then show "blocks m' d (n + 1) = blocks m d n @ bs" using b' by (simp add: blocks_Suc im)
qed

lemma extends_trans:
  assumes "extends m d n m1 d1 n1" "extends m1 d1 n1 m2 d2 n2"
  shows "extends m d n m2 d2 n2"
proof -
  have e1: "n \<le> n1" "\<forall>k < n. blk m1 d1 k = blk m d k" "freeblock m \<le> freeblock m1" "freeinode m1 = freeinode m" "d1 = d\<lparr>d_addrs := d_addrs d1\<rparr>"
    "\<forall>b \<in> set (used m1 d1 n1). b \<in> set (used m d n) \<or> freeblock m \<le> b"
    "\<forall>b. b < unat (freeblock m) \<and> b \<notin> unat ` set (used m d n) \<longrightarrow> img m1 b = img m b"
    using assms(1) unfolding extends_def by blast+
  have e2: "image_ok m2" "file_ok m2 d2 n2" "n1 \<le> n2" "\<forall>k < n1. blk m2 d2 k = blk m1 d1 k" "freeblock m1 \<le> freeblock m2"
    "freeinode m2 = freeinode m1" "d2 = d1\<lparr>d_addrs := d_addrs d2\<rparr>" "\<forall>b \<in> set (used m2 d2 n2). b \<in> set (used m1 d1 n1) \<or> freeblock m1 \<le> b"
    "\<forall>b. b < unat (freeblock m1) \<and> b \<notin> unat ` set (used m1 d1 n1) \<longrightarrow> img m2 b = img m1 b"
    using assms(2) unfolding extends_def by blast+
  show ?thesis
    unfolding extends_def
  proof (intro conjI allI impI)
    fix b assume b: "b < unat (freeblock m) \<and> b \<notin> unat ` set (used m d n)"
    have "b \<notin> unat ` set (used m1 d1 n1)" using e1(6) b by (auto simp: word_le_nat_alt)
    moreover have "b < unat (freeblock m1)" using b e1(3) by (simp add: word_le_nat_alt)
    ultimately have "img m2 b = img m1 b" using e2(9) by blast
    then show "img m2 b = img m b" using e1(7) b by simp
  next
    show "d2 = d\<lparr>d_addrs := d_addrs d2\<rparr>" using e1(5) e2(7) by (metis dinode.surjective dinode.update_convs(6))
    show "blk m2 d2 k = blk m d k" if "k < n" for k using that e1(1,2) e2(4) by simp
    show "\<forall>b \<in> set (used m2 d2 n2). b \<in> set (used m d n) \<or> freeblock m \<le> b"
      using e1(3,6) e2(8) by (meson order_trans)
    show "freeblock m \<le> freeblock m2" using e1(3) e2(5) by (rule order_trans)
    show "n \<le> n2" using e1(1) e2(3) by simp
    show "freeinode m2 = freeinode m" using e1(4) e2(6) by simp
  qed (fact e2(1,2))+
qed

lemma extends_refl: "image_ok m \<Longrightarrow> file_ok m d n \<Longrightarrow> extends m d n m d n"
  by (simp add: extends_def)

text \<open>The block at the end of the file, there or new, and the data in front of it.\<close>

lemma end_block:
  assumes m: "image_ok m" "freeblock m \<le> FSSIZE" and f: "file_ok m d (nblk off)" and k: "off div 512 < 140"
    and e: "file_block (off div 512) d m = Inr (x, d1, m1)" and x: "x < FSSIZE"
  shows "extends m d (nblk off) m1 d1 (off div 512 + 1) \<and> blk m1 d1 (off div 512) = x \<and> freeblock m1 \<le> FSSIZE \<and>
    content m d off = blocks m1 d1 (off div 512) @ take (off mod 512) (img m1 (unat x))"
proof (cases "off mod 512 = 0")
  case True
  let ?n = "off div 512"
  have n: "nblk off = ?n" "off = 512 * ?n" using True nblk_mod(1) by auto
  have fr: "fresh m d ?n x d1 m1" using file_block_new [OF _ k m e] f n(1) by simp
  have "blocks m1 d1 ?n = blocks m d ?n"
    by (rule blocks_cong) (use fr in \<open>simp add: fresh_def extends_def\<close>)
  moreover have "content m d off = blocks m d ?n" using length_blocks [OF m(1), of d ?n] n by (simp add: content_def)
  moreover have "freeblock m1 \<le> FSSIZE" using fr x by (simp add: fresh_def inc_le)
  ultimately show ?thesis using fr n(1) True by (simp add: fresh_def)
next
  case False
  let ?n = "off div 512"
  have n: "nblk off = ?n + 1" using False nblk_mod(2) by blast
  have e': "x = blk m d ?n" "d1 = d" "m1 = m" using file_block_there [OF f _ m, of ?n] e n by auto
  have "off = 512 * ?n + off mod 512" by simp
  then have "content m d off = blocks m d ?n @ take (off mod 512) (img m (unat x))"
    using length_blocks [OF m(1), of d ?n] n e'(1) unfolding content_def by (simp add: blocks_Suc minus_mult_div_eq_mod)
  then show ?thesis using e' n extends_refl [OF m(1)] f m(2) by simp
qed

lemma extends_write:
  assumes e: "extends m d n m1 d1 (k + 1)" and bs: "length bs = 512"
  shows "extends m d n (wsect (blk m1 d1 k) bs m1) d1 (k + 1)"
proof -
  let ?m = "wsect (blk m1 d1 k) bs m1"
  have e1: "image_ok m1" "file_ok m1 d1 (k + 1)" "n \<le> k + 1" "\<forall>j < n. blk m1 d1 j = blk m d j"
    "\<forall>b \<in> set (used m1 d1 (k + 1)). b \<in> set (used m d n) \<or> freeblock m \<le> b"
    using e unfolding extends_def by blast+
  note w = write_block [OF e1(1,2) bs]
  have x: "blk m1 d1 k \<in> set (used m d n) \<or> freeblock m \<le> blk m1 d1 k" using e1(5) used_in(1) [of k "k + 1" m1 d1] by auto
  have "img ?m b = img m b" if b: "b < unat (freeblock m)" "b \<notin> unat ` set (used m d n)" for b
  proof -
    have "b \<noteq> unat (blk m1 d1 k)" using x b by (auto simp: word_le_nat_alt)
    then show ?thesis using e b unfolding extends_def by (simp add: wsect_def)
  qed
  moreover have "\<forall>j < n. blk ?m d1 j = blk m d j" using w(3) e1(3,4) by simp
  ultimately show ?thesis using e w unfolding extends_def by simp
qed

lemma take_past: "length xs = a \<Longrightarrow> take (a + b) (xs @ ys) = xs @ take b ys"
  by simp

lemma append_step:
  assumes m: "image_ok m" "freeblock m \<le> FSSIZE" and f: "file_ok m d (nblk off)" and k: "off div 512 < 140"
    and e: "file_block (off div 512) d m = Inr (x, d1, m1)" and x: "x < FSSIZE" and p: "p \<noteq> []" "length p \<le> 512 - off mod 512"
  defines "m2 \<equiv> wsect x (splice (off mod 512) p (img m1 (unat x))) m1"
  shows "extends m d (nblk off) m2 d1 (nblk (off + length p))" "freeblock m2 \<le> FSSIZE"
    "content m2 d1 (off + length p) = content m d off @ p"
proof -
  let ?n = "off div 512" and ?r = "off mod 512"
  have b: "extends m d (nblk off) m1 d1 (?n + 1)" "blk m1 d1 ?n = x" "freeblock m1 \<le> FSSIZE"
    "content m d off = blocks m1 d1 ?n @ take ?r (img m1 (unat x))"
    using end_block [OF m f k e x] by blast+
  have ok: "image_ok m1" "file_ok m1 d1 (?n + 1)" using b(1) by (auto simp: extends_def)
  have r: "?r < 512" by simp
  then have p512: "?r + length p \<le> 512" "0 < length p" using p by auto
  have len: "length (img m1 (unat x)) = 512" using ok(1) by (simp add: image_ok_def)
  let ?bs = "splice ?r p (img m1 (unat x))"
  have bs: "length ?bs = 512" "take (?r + length p) ?bs = take ?r (img m1 (unat x)) @ p"
    using p512 len by (simp_all add: splice_def)
  have off: "off = ?n * 512 + ?r" by simp
  have nb: "nblk (off + length p) = ?n + 1"
  proof -
    have "n * 512 + r + j + 511 = (n + 1) * 512 + (r + j - 1)" if "0 < j" for n r j :: nat using that by (cases j) simp_all
    from this [OF p512(2), of ?n ?r] have "off + length p + 511 = (?n + 1) * 512 + (?r + length p - 1)" by (simp only: div_mult_mod_eq)
    then show ?thesis unfolding nblk_def using p512(1,2) by (simp only: div_mult_self3)
  qed
  note w = write_block [OF ok bs(1), unfolded b(2), folded m2_def]
  show "extends m d (nblk off) m2 d1 (nblk (off + length p))"
    using extends_write [OF b(1) bs(1)] unfolding nb b(2) m2_def .
  show "freeblock m2 \<le> FSSIZE" using b(3) w(6) by simp
  have "off + length p = 512 * ?n + (?r + length p)" using off by linarith
  then have "content m2 d1 (off + length p) = take (512 * ?n + (?r + length p)) (blocks m1 d1 ?n @ ?bs)"
    unfolding content_def nb w(5) by (rule arg_cong)
  also have "\<dots> = blocks m1 d1 ?n @ take (?r + length p) ?bs" by (rule take_past) (rule length_blocks [OF ok(1)])
  also have "\<dots> = content m d off @ p" unfolding bs(2) b(4) by simp
  finally show "content m2 d1 (off + length p) = content m d off @ p" .
qed

lemma iappend_loop_content:
  assumes "iappend_loop d off p m = Inr (d', off', m')" "image_ok m" "freeblock m \<le> FSSIZE" "file_ok m d (nblk off)"
  shows "off' = off + length p \<and> extends m d (nblk off) m' d' (nblk off') \<and> freeblock m' \<le> FSSIZE \<and> content m' d' off' = content m d off @ p"
  using assms
proof (induction d off p m rule: iappend_loop.induct)
  case (1 d off p m)
  show ?case
  proof (cases "p = []")
    case True
    then show ?thesis using 1(2-5) extends_refl by (simp add: iappend_loop.simps [of d])
  next
    case False
    let ?n = "off div 512" let ?n1 = "min (length p) ((?n + 1) * 512 - off)" let ?q = "take ?n1 p"
    have r: "(?n + 1) * 512 - off = 512 - off mod 512" "off - ?n * 512 = off mod 512"
      by (metis add_mult_distrib mult_1 div_mult_mod_eq diff_diff_left add.commute add_diff_cancel_left, metis minus_div_mult_eq_mod)
    have k: "?n < 140" using 1(2) False by (auto simp: iappend_loop.simps [of d] Let_def split: if_splits)
    obtain x d1 m1 where b: "file_block ?n d m = Inr (x, d1, m1)"
      using 1(2) False k by (cases "file_block ?n d m") (auto simp: iappend_loop.simps [of d] Let_def)
    have x: "x < FSSIZE" using 1(2) False k b by (auto simp: iappend_loop.simps [of d] Let_def rsect_def split: if_splits)
    then have rs: "rsect x m1 = Inr (img m1 (unat x))" by (simp add: rsect_def)
    let ?m2 = "wsect x (splice (off mod 512) ?q (img m1 (unat x))) m1"
    have l: "iappend_loop d1 (off + ?n1) (drop ?n1 p) ?m2 = Inr (d', off', m')"
      using 1(2) False k b rs r(2) by (simp add: iappend_loop.simps [of d] Let_def)
    have q: "?q \<noteq> []" "length ?q \<le> 512 - off mod 512" "length ?q = ?n1" using False unfolding r(1) by (auto simp: min_def)
    note s = append_step [OF 1(3-5) k b x q(1,2)]
    have f: "image_ok ?m2" "file_ok ?m2 d1 (nblk (off + ?n1))" using s(1) unfolding q(3) extends_def by blast+
    have nk: "\<not> MAXFILE \<le> ?n" using k by simp
    have ih: "off' = off + ?n1 + length (drop ?n1 p) \<and> extends ?m2 d1 (nblk (off + ?n1)) m' d' (nblk off') \<and> freeblock m' \<le> FSSIZE \<and>
        content m' d' off' = content ?m2 d1 (off + ?n1) @ drop ?n1 p"
      by (rule 1(1) [OF False refl nk b refl refl refl rs, unfolded r(2), OF l f(1) s(2) f(2)])
    show ?thesis
      using ih extends_trans [OF s(1) [unfolded q(3)]] s(3) [unfolded q(3)] by auto
  qed
qed

end
