(* ===== verification/Mkfs_Image.thy ===== *)
theory Mkfs_Image
  imports Mkfs_Spec
begin

text \<open>
  The whole image: the inode table, the files of all inodes, and what \<^verbatim>\<open>mkfs\<close> leaves on the disk.
\<close>

subsection \<open>The inode table\<close>

definition ino :: "image \<Rightarrow> nat \<Rightarrow> dinode" where
  "ino m i = dinode_at (img m (32 + i div 8)) (i mod 8 * 64)"

definition fsize :: "image \<Rightarrow> nat \<Rightarrow> nat" where
  "fsize m i = unat (d_size (ino m i))"

definition file_of :: "image \<Rightarrow> nat \<Rightarrow> byte list" where
  "file_of m i = content m (ino m i) (fsize m i)"

definition owned :: "image \<Rightarrow> nat \<Rightarrow> uint set" where
  "owned m i = set (used m (ino m i) (nblk (fsize m i)))"

definition fs_ok :: "image \<Rightarrow> bool" where
  "fs_ok m \<longleftrightarrow> image_ok m \<and> freeblock m \<le> FSSIZE \<and> 1 \<le> unat (freeinode m) \<and> unat (freeinode m) \<le> 200 \<and>
     (\<forall>i. 1 \<le> i \<and> i < unat (freeinode m) \<longrightarrow> file_ok m (ino m i) (nblk (fsize m i))) \<and>
     (\<forall>i j. 1 \<le> i \<and> i < unat (freeinode m) \<and> 1 \<le> j \<and> j < unat (freeinode m) \<and> i \<noteq> j \<longrightarrow> owned m i \<inter> owned m j = {})"

lemma sb_layout: "inodestart sb_image = 32" "bmapstart sb_image = 58" "nmeta = 59"
  by (simp_all add: sb_image_def nlog_blocks_def ninodeblocks_def nbitmap_def nmeta_def)

lemma inode_place:
  assumes "i < 208"
  shows "unat (IBLOCK (of_nat i) sb_image) = 32 + i div 8" "dinode_off (of_nat i) = i mod 8 * 64" "IBLOCK (of_nat i) sb_image < FSSIZE"
proof -
  have i: "unat (of_nat i :: uint) = i" using assms by (simp add: unat_of_nat32)
  then have d: "unat (of_nat i div 8 :: uint) = i div 8" "unat (of_nat i mod 8 :: uint) = i mod 8" by (simp_all add: unat_div unat_mod)
  then show u: "unat (IBLOCK (of_nat i) sb_image) = 32 + i div 8"
    using assms by (simp add: IBLOCK_def sb_layout unat_word_ariths)
  show "dinode_off (of_nat i) = i mod 8 * 64" using d by (simp add: dinode_off_def)
  show "IBLOCK (of_nat i) sb_image < FSSIZE" using u assms by (simp add: word_less_nat_alt)
qed

lemma window_splice:
  assumes "k + length new \<le> length bs" "k' + 64 \<le> length bs" "k' + 64 \<le> k \<or> k + length new \<le> k'"
  shows "take 64 (drop k' (splice k new bs)) = take 64 (drop k' bs)"
proof (rule nth_equalityI)
  fix i assume "i < length (take 64 (drop k' (splice k new bs)))"
  then show "take 64 (drop k' (splice k new bs)) ! i = take 64 (drop k' bs) ! i"
    using assms by (auto simp: nth_splice)
qed (use assms in simp)

lemma rinode_ino: "i < 208 \<Longrightarrow> rinode (of_nat i) m = Inr (ino m i)"
  by (simp add: rinode_def rsect_def inode_place ino_def)

lemma winode_ino:
  assumes m: "\<forall>b. length (img m b) = 512" and d: "length (d_addrs d) = 13" and i: "i < 208"
  shows "\<exists>m'. winode (of_nat i) d m = Inr m' \<and> (\<forall>j < 208. ino m' j = (if j = i then d else ino m j)) \<and>
    (\<forall>b. b < 32 \<or> 58 \<le> b \<longrightarrow> img m' b = img m b) \<and> (\<forall>b. length (img m' b) = 512) \<and> freeblock m' = freeblock m \<and> freeinode m' = freeinode m"
proof -
  let ?b = "32 + i div 8" and ?k = "i mod 8 * 64"
  let ?bs = "splice ?k (bytes_of_dinode d) (img m ?b)"
  let ?m = "m\<lparr>img := (img m)(?b := ?bs)\<rparr>"
  have w: "winode (of_nat i) d m = Inr ?m" using i by (simp add: winode_def rsect_def wsect_def inode_place)
  have k: "?k + 64 \<le> 512" using mod_less_divisor [of 8 i] by linarith
  have len: "length ?bs = 512" using k m d by simp
  have same: "ino ?m i = d"
  proof -
    have "take 64 (drop ?k ?bs) = bytes_of_dinode d" using k m d by (simp add: splice_def)
    then show ?thesis using len k dinode_window [of ?k ?bs] dinode_roundtrip [OF d] by (simp add: ino_def)
  qed
  moreover have "ino ?m j = ino m j" if j: "j < 208" "j \<noteq> i" for j
  proof (cases "j div 8 = i div 8")
    case True
    have "j mod 8 \<noteq> i mod 8" using True j(2) by (metis div_mult_mod_eq)
    then have a: "j mod 8 * 64 + 64 \<le> ?k \<or> ?k + 64 \<le> j mod 8 * 64" by linarith
    have k': "j mod 8 * 64 + 64 \<le> 512" using mod_less_divisor [of 8 j] by linarith
    have "take 64 (drop (j mod 8 * 64) ?bs) = take 64 (drop (j mod 8 * 64) (img m ?b))"
      using window_splice [of ?k "bytes_of_dinode d" "img m ?b" "j mod 8 * 64"] a k k' m d by simp
    then show ?thesis
      using dinode_window [of "j mod 8 * 64" ?bs] dinode_window [of "j mod 8 * 64" "img m ?b"] len m k' True by (simp add: ino_def)
  qed (simp add: ino_def)
  moreover have "img ?m b = img m b" if "b < 32 \<or> 58 \<le> b" for b using that i by auto
  ultimately show ?thesis using w m len by (intro exI [of _ ?m]) auto
qed

text \<open>A file whose blocks are not touched stays as it is.\<close>

lemma file_frame:
  assumes f: "file_ok m d n" and i: "\<forall>b \<in> set (used m d n). img m' (unat b) = img m (unat b)" and fb: "freeblock m \<le> freeblock m'"
  shows "used m' d n = used m d n" "file_ok m' d n" "blocks m' d n = blocks m d n"
proof -
  have b: "blk m' d k = blk m d k" if "k < 12 \<or> 12 < n" for k
    using that i used_in(2) [of n d m] by (auto simp: blk_def)
  then have b': "\<forall>k < n. blk m' d k = blk m d k" by (metis less_le_trans not_less_iff_gr_or_eq linorder_not_less)
  then show u: "used m' d n = used m d n" by (simp add: used_def)
  show "file_ok m' d n" using f b fb unfolding file_ok_def u by (auto intro: order_less_le_trans)
  show "blocks m' d n = blocks m d n" by (rule blocks_cong) (use b' i used_in(1) in auto)
qed

text \<open>Every file outside \<open>S\<close> is kept.\<close>

definition keeps :: "image \<Rightarrow> image \<Rightarrow> nat set \<Rightarrow> bool" where
  "keeps m m' S \<longleftrightarrow> fs_ok m' \<and> freeinode m \<le> freeinode m' \<and> img m' 1 = img m 1 \<and>
     (\<forall>j. 1 \<le> j \<and> j < unat (freeinode m) \<and> j \<notin> S \<longrightarrow> file_of m' j = file_of m j \<and> fsize m' j = fsize m j)"

lemma keeps_trans: "keeps m m1 S \<Longrightarrow> keeps m1 m2 S' \<Longrightarrow> keeps m m2 (S \<union> S')"
  by (auto simp: keeps_def word_le_nat_alt)

text \<open>The loop of \<^verbatim>\<open>iappend\<close> on an inode of the table; the inode itself is still the old one.\<close>

definition appended :: "image \<Rightarrow> nat \<Rightarrow> byte list \<Rightarrow> image \<Rightarrow> dinode \<Rightarrow> bool" where
  "appended m i p m1 d1 \<longleftrightarrow> extends m (ino m i) (nblk (fsize m i)) m1 d1 (nblk (fsize m i + length p)) \<and>
     freeblock m1 \<le> FSSIZE \<and> content m1 d1 (fsize m i + length p) = file_of m i @ p"

lemma iappend_parts:
  assumes m: "fs_ok m" and i: "1 \<le> i" "i < unat (freeinode m)" and e: "iappend (of_nat i) p m = Inr m'"
  shows "\<exists>d1 m1. appended m i p m1 d1 \<and> winode (of_nat i) (d1\<lparr>d_size := of_nat (fsize m i + length p)\<rparr>) m1 = Inr m'"
proof -
  have ok: "image_ok m" "freeblock m \<le> FSSIZE" "file_ok m (ino m i) (nblk (fsize m i))" and i200: "i < 208"
    using m i by (auto simp: fs_ok_def)
  obtain d1 off m1 where l: "iappend_loop (ino m i) (fsize m i) p m = Inr (d1, off, m1)"
    and w: "winode (of_nat i) (d1\<lparr>d_size := of_nat off\<rparr>) m1 = Inr m'"
    using e i200 by (auto simp: iappend_def rinode_ino fsize_def res_simps)
  have "off = fsize m i + length p \<and> extends m (ino m i) (nblk (fsize m i)) m1 d1 (nblk off) \<and> freeblock m1 \<le> FSSIZE \<and>
      content m1 d1 off = content m (ino m i) (fsize m i) @ p"
    using iappend_loop_content [OF l ok] .
  then show ?thesis using w by (auto simp: appended_def file_of_def)
qed

lemma appendedD:
  assumes "appended m i p m1 d1"
  shows "image_ok m1" "file_ok m1 d1 (nblk (fsize m i + length p))" "freeblock m \<le> freeblock m1" "freeinode m1 = freeinode m"
    "freeblock m1 \<le> FSSIZE" "content m1 d1 (fsize m i + length p) = file_of m i @ p"
    "\<forall>b \<in> set (used m1 d1 (nblk (fsize m i + length p))). b \<in> owned m i \<or> freeblock m \<le> b"
    "\<And>b. b < unat (freeblock m) \<Longrightarrow> b \<notin> unat ` owned m i \<Longrightarrow> img m1 b = img m b"
  using assms unfolding appended_def extends_def owned_def by blast+

lemma small_size: "nblk off \<le> 140 \<Longrightarrow> unat (of_nat off :: uint) = off"
proof (rule unat_of_nat32)
  assume "nblk off \<le> 140"
  moreover have "off div 512 \<le> nblk off" unfolding nblk_def by (rule div_le_mono) simp
  ultimately have "off div 512 < 141" by simp
  then show "off < 2 ^ 32" by (simp add: div_less_iff_less_mult)
qed

text \<open>The image after \<^verbatim>\<open>iappend\<close>: one inode is new, the inode table is otherwise as before.\<close>

definition replaced :: "image \<Rightarrow> nat \<Rightarrow> image \<Rightarrow> dinode \<Rightarrow> image \<Rightarrow> bool" where
  "replaced m i m1 d' m' \<longleftrightarrow> (\<forall>j < 208. ino m' j = (if j = i then d' else ino m j)) \<and>
     (\<forall>b < 32. img m' b = img m b) \<and> (\<forall>b \<ge> 58. img m' b = img m1 b) \<and> (\<forall>b. length (img m' b) = 512) \<and> freeblock m' = freeblock m1 \<and> freeinode m' = freeinode m1"

lemma iappend_replaced:
  assumes m: "fs_ok m" and i: "1 \<le> i" "i < unat (freeinode m)" and a: "appended m i p m1 d1"
    and w: "winode (of_nat i) (d1\<lparr>d_size := of_nat (fsize m i + length p)\<rparr>) m1 = Inr m'"
  shows "replaced m i m1 (d1\<lparr>d_size := of_nat (fsize m i + length p)\<rparr>) m'"
proof -
  let ?d = "d1\<lparr>d_size := of_nat (fsize m i + length p)\<rparr>"
  have i200: "i < 208" "\<And>b. b \<in> owned m i \<Longrightarrow> 59 \<le> unat b" using m i by (auto simp: fs_ok_def file_ok_def owned_def)
  have "59 \<le> unat (freeblock m)" using m by (simp add: fs_ok_def image_ok_def)
  then have meta: "img m1 b = img m b" if "b < 59" for b using appendedD(8) [OF a, of b] that i200(2) by fastforce
  have inos: "ino m1 j = ino m j" if "j < 208" for j using meta [of "32 + j div 8"] that by (simp add: ino_def)
  have len: "\<forall>b. length (img m1 b) = 512" "length (d_addrs ?d) = 13"
    using appendedD(1,2) [OF a] by (simp_all add: image_ok_def file_ok_def)
  obtain m2 where m2: "winode (of_nat i) ?d m1 = Inr m2" "\<forall>j < 208. ino m2 j = (if j = i then ?d else ino m1 j)"
      "\<forall>b. b < 32 \<or> 58 \<le> b \<longrightarrow> img m2 b = img m1 b" "\<forall>b. length (img m2 b) = 512" "freeblock m2 = freeblock m1" "freeinode m2 = freeinode m1"
    using winode_ino [OF len i200(1)] by blast
  then have "m2 = m'" using w by simp
  then show ?thesis using m2 inos meta unfolding replaced_def by simp
qed

text \<open>The blocks of the inode's list depend only on its addresses.\<close>

lemma addrs_only:
  assumes "d_addrs d' = d_addrs d"
  shows "blk m d' = blk m d" "used m d' = used m d" "blocks m d' = blocks m d" "file_ok m d' = file_ok m d"
proof -
  show b: "blk m d' = blk m d" using assms by (simp add: blk_def fun_eq_iff)
  show u: "used m d' = used m d" using assms b by (simp add: used_def fun_eq_iff)
  show "blocks m d' = blocks m d" using b by (simp add: blocks_def fun_eq_iff)
  show "file_ok m d' = file_ok m d" using assms b u by (simp add: file_ok_def fun_eq_iff)
qed

lemma own_file:
  assumes i: "i < 208" and a: "appended m i p m1 d1" and r: "replaced m i m1 (d1\<lparr>d_size := of_nat (fsize m i + length p)\<rparr>) m'"
  shows "fsize m' i = fsize m i + length p" "file_of m' i = file_of m i @ p" "file_ok m' (ino m' i) (nblk (fsize m' i))"
    "\<forall>b \<in> owned m' i. b \<in> owned m i \<or> freeblock m \<le> b"
proof -
  let ?n = "fsize m i + length p"
  define d' where "d' = d1\<lparr>d_size := of_nat ?n\<rparr>"
  note f = appendedD(2) [OF a]
  have d: "ino m' i = d'" using r i by (simp add: replaced_def d'_def)
  have "d_size d' = of_nat ?n" "d_addrs d' = d_addrs d1" by (simp_all add: d'_def)
  then have n': "fsize m' i = ?n" and ao: "blocks m' d' = blocks m' d1" "file_ok m' d' = file_ok m' d1" "used m' d' = used m' d1"
    using d small_size [of ?n] f addrs_only [of d' d1 m'] by (simp_all add: fsize_def file_ok_def)
  show n: "fsize m' i = ?n" by (rule n')
  have "\<forall>b \<in> set (used m1 d1 (nblk ?n)). img m' (unat b) = img m1 (unat b)"
    using f r unfolding file_ok_def replaced_def by fastforce
  note fr = file_frame [OF f this]
  have fb: "freeblock m1 \<le> freeblock m'" using r by (simp add: replaced_def)
  show "file_of m' i = file_of m i @ p"
    using fr(3) [OF fb] appendedD(6) [OF a] by (simp add: file_of_def content_def n d ao)
  show "file_ok m' (ino m' i) (nblk (fsize m' i))" using fr(2) [OF fb] by (simp add: n d ao)
  show "\<forall>b \<in> owned m' i. b \<in> owned m i \<or> freeblock m \<le> b"
    using appendedD(7) [OF a] fr(1) [OF fb] by (simp add: owned_def n d ao)
qed

lemma other_file:
  assumes m: "fs_ok m" and i: "1 \<le> i" "i < unat (freeinode m)" and a: "appended m i p m1 d1" and r: "replaced m i m1 d' m'"
    and j: "1 \<le> j" "j < unat (freeinode m)" "j \<noteq> i"
  shows "fsize m' j = fsize m j" "file_of m' j = file_of m j" "file_ok m' (ino m' j) (nblk (fsize m' j))" "owned m' j = owned m j"
    "\<forall>b \<in> owned m j. b < freeblock m"
proof -
  have f: "file_ok m (ino m j) (nblk (fsize m j))" and dis: "owned m i \<inter> owned m j = {}" and j200: "j < 208"
    using m i j by (auto simp: fs_ok_def)
  have d: "ino m' j = ino m j" using r j j200 by (simp add: replaced_def)
  show n: "fsize m' j = fsize m j" by (simp add: fsize_def d)
  show fb: "\<forall>b \<in> owned m j. b < freeblock m" using f by (auto simp: file_ok_def owned_def)
  have "img m' (unat b) = img m (unat b)" if b: "b \<in> owned m j" for b
  proof -
    have "59 \<le> unat b" using f b by (auto simp: file_ok_def owned_def)
    then have "img m' (unat b) = img m1 (unat b)" using r by (simp add: replaced_def)
    moreover have "unat b \<notin> unat ` owned m i" using dis b by (metis disjoint_iff imageE word_unat_eq_iff)
    moreover have "unat b < unat (freeblock m)" using fb b by (simp add: word_less_nat_alt)
    ultimately show ?thesis using appendedD(8) [OF a] by simp
  qed
  then have same: "\<forall>b \<in> set (used m (ino m j) (nblk (fsize m j))). img m' (unat b) = img m (unat b)" by (simp add: owned_def)
  have "freeblock m \<le> freeblock m'" using appendedD(3) [OF a] r by (simp add: replaced_def)
  note fr = file_frame [OF f same this]
  show "file_of m' j = file_of m j" "file_ok m' (ino m' j) (nblk (fsize m' j))" "owned m' j = owned m j"
    using fr by (simp_all add: file_of_def content_def owned_def d n)
qed

lemma iappend_keeps:
  assumes m: "fs_ok m" and i: "1 \<le> i" "i < unat (freeinode m)" and e: "iappend (of_nat i) p m = Inr m'"
  shows "keeps m m' {i}" "file_of m' i = file_of m i @ p" "fsize m' i = fsize m i + length p" "freeinode m' = freeinode m"
proof -
  obtain d1 m1 where a: "appended m i p m1 d1" and w: "winode (of_nat i) (d1\<lparr>d_size := of_nat (fsize m i + length p)\<rparr>) m1 = Inr m'"
    using iappend_parts [OF m i e] by blast
  note r = iappend_replaced [OF m i a w]
  have i200: "i < 208" using m i by (simp add: fs_ok_def)
  note own = own_file [OF i200 a r] and oth = other_file [OF m i a r]
  show "file_of m' i = file_of m i @ p" "fsize m' i = fsize m i + length p" by (rule own)+
  show fi: "freeinode m' = freeinode m" using r appendedD(4) [OF a] by (simp add: replaced_def)
  have im: "image_ok m'" "freeblock m' \<le> FSSIZE"
    using appendedD(1,5) [OF a] r by (auto simp: image_ok_def replaced_def)
  have f: "file_ok m' (ino m' j) (nblk (fsize m' j))" if "1 \<le> j" "j < unat (freeinode m)" for j
    using own(3) oth(3) [OF that] by (cases "j = i") auto
  have d: "owned m' j \<inter> owned m' k = {}" if jk: "1 \<le> j" "j < unat (freeinode m)" "1 \<le> k" "k < unat (freeinode m)" "j \<noteq> k" for j k
  proof -
    have o: "owned m x \<inter> owned m y = {}" if "1 \<le> x" "x < unat (freeinode m)" "1 \<le> y" "y < unat (freeinode m)" "x \<noteq> y" for x y
      using m that by (simp add: fs_ok_def)
    have side: "owned m' i \<inter> owned m' x = {}" if "1 \<le> x" "x < unat (freeinode m)" "x \<noteq> i" for x
      using own(4) oth(4,5) [OF that] o [OF i that(1,2)] that(3) by fastforce
    show ?thesis using side [of j] side [of k] oth(4) [of j] oth(4) [of k] o [of j k] jk by (cases "j = i"; cases "k = i") auto
  qed
  have "fs_ok m'" using m im f d unfolding fs_ok_def fi by blast
  then show "keeps m m' {i}" using oth(1,2) fi r by (auto simp: keeps_def replaced_def)
qed

lemma empty_file: "d_addrs d = replicate 13 0 \<Longrightarrow> file_ok m d 0"
  by (auto simp: file_ok_def used_def nth_append)

lemma nblk_0 [simp]: "nblk 0 = 0"
  by (simp add: nblk_def)

lemma ialloc_keeps:
  assumes m: "fs_ok m" and n: "unat (freeinode m) < 200" and e: "mkfs_ialloc t m = Inr (no, m')"
  shows "no = freeinode m" "keeps m m' {}" "file_of m' (unat no) = []" "unat (freeinode m') = unat (freeinode m) + 1"
    "fsize m' (unat no) = 0"
proof -
  let ?i = "unat (freeinode m)" and ?m = "m\<lparr>freeinode := freeinode m + 1\<rparr>"
  define d where "d = \<lparr>d_type = xshort t, d_major = 0, d_minor = 0, d_nlink = xshort 1, d_size = xint 0, d_addrs = replicate 13 0\<rparr>"
  have d: "d_addrs d = replicate 13 0" "d_size d = 0" by (simp_all add: d_def)
  have ok: "image_ok m" "freeblock m \<le> FSSIZE" "1 \<le> ?i" using m by (auto simp: fs_ok_def)
  have w: "winode (of_nat ?i) d ?m = Inr m'" and no: "no = freeinode m"
    using e by (auto simp: mkfs_ialloc_def Let_def d_def res_simps)
  show "no = freeinode m" by (rule no)
  have "\<forall>b. length (img ?m b) = 512" using ok(1) by (simp add: image_ok_def)
  then obtain m2 where "winode (of_nat ?i) d ?m = Inr m2" "\<forall>j < 208. ino m2 j = (if j = ?i then d else ino ?m j)"
      "\<forall>b. b < 32 \<or> 58 \<le> b \<longrightarrow> img m2 b = img ?m b" "\<forall>b. length (img m2 b) = 512" "freeblock m2 = freeblock ?m" "freeinode m2 = freeinode ?m"
    using winode_ino [of ?m d ?i] d n by auto
  then have w': "\<forall>j < 208. ino m' j = (if j = ?i then d else ino m j)" "\<forall>b. 58 \<le> b \<longrightarrow> img m' b = img m b"
      "\<forall>b. length (img m' b) = 512" "freeblock m' = freeblock m" "freeinode m' = freeinode m + 1" "img m' 1 = img m 1"
    using w by (auto simp: ino_def)
  show fi: "unat (freeinode m') = ?i + 1" using w'(5) n by (simp add: unat_word_ariths)
  have new: "ino m' ?i = d" "fsize m' ?i = 0" using w'(1) n d(2) by (simp_all add: fsize_def)
  then show "file_of m' (unat no) = []" "fsize m' (unat no) = 0" by (simp_all add: no file_of_def content_def)
  have old: "ino m' j = ino m j" "fsize m' j = fsize m j" if "j < ?i" for j using w'(1) that n by (auto simp: fsize_def)
  have fr: "used m' (ino m j) (nblk (fsize m j)) = used m (ino m j) (nblk (fsize m j))" "file_ok m' (ino m j) (nblk (fsize m j))"
    "blocks m' (ino m j) (nblk (fsize m j)) = blocks m (ino m j) (nblk (fsize m j))" if j: "1 \<le> j" "j < ?i" for j
  proof -
    have f: "file_ok m (ino m j) (nblk (fsize m j))" using m j by (simp add: fs_ok_def)
    then have "\<forall>b \<in> set (used m (ino m j) (nblk (fsize m j))). img m' (unat b) = img m (unat b)"
      using w'(2) unfolding file_ok_def by fastforce
    from file_frame [OF f this] w'(4) show "used m' (ino m j) (nblk (fsize m j)) = used m (ino m j) (nblk (fsize m j))"
      "file_ok m' (ino m j) (nblk (fsize m j))" "blocks m' (ino m j) (nblk (fsize m j)) = blocks m (ino m j) (nblk (fsize m j))" by simp_all
  qed
  have own: "owned m' j = (if j = ?i then {} else owned m j)" if "1 \<le> j" "j \<le> ?i" for j
    using that new old fr(1) [of j] by (auto simp: owned_def used_def)
  have "fs_ok m'"
    unfolding fs_ok_def
  proof (intro conjI allI impI)
    show "image_ok m'" using ok(1) w' by (auto simp: image_ok_def)
    show "file_ok m' (ino m' j) (nblk (fsize m' j))" if "1 \<le> j \<and> j < unat (freeinode m')" for j
      using that fi new old fr(2) empty_file [OF d(1)] by (cases "j = ?i") auto
    show "owned m' j \<inter> owned m' k = {}"
      if "1 \<le> j \<and> j < unat (freeinode m') \<and> 1 \<le> k \<and> k < unat (freeinode m') \<and> j \<noteq> k" for j k
      using that own [of j] own [of k] fi m by (auto simp: fs_ok_def)
  qed (use ok(2,3) w'(4) fi n in auto)
  then show "keeps m m' {}" using old fr(3) fi w'(6) by (auto simp: keeps_def file_of_def content_def word_le_nat_alt)
qed

lemma copy_file_keeps:
  assumes "copy_file (of_nat i) bs m = Inr m'" "fs_ok m" "1 \<le> i" "i < unat (freeinode m)"
  shows "keeps m m' {i} \<and> file_of m' i = file_of m i @ bs \<and> freeinode m' = freeinode m"
  using assms
proof (induction "of_nat i :: uint" bs m rule: copy_file.induct)
  case (1 bs m)
  show ?case
  proof (cases "bs = []")
    case True
    then have "m' = m" using 1(2) by (simp add: copy_file.simps [of _ "[]"])
    then show ?thesis using 1(3) True by (simp add: keeps_def)
  next
    case False
    obtain m1 where a: "iappend (of_nat i) (take 512 bs) m = Inr m1"
      using 1(2) False by (cases "iappend (of_nat i) (take 512 bs) m") (auto simp: copy_file.simps [of _ bs])
    have c: "copy_file (of_nat i) (drop 512 bs) m1 = Inr m'" using 1(2) False a by (simp add: copy_file.simps [of _ bs])
    note k = iappend_keeps [OF 1(3-5) a]
    have "fs_ok m1" using k(1) by (simp add: keeps_def)
    then have "keeps m1 m' {i} \<and> file_of m' i = file_of m1 i @ drop 512 bs \<and> freeinode m' = freeinode m1"
      using 1(1) [OF False a c] 1(4,5) k(4) by simp
    then show ?thesis using keeps_trans [OF k(1), of m' "{i}"] k(2,4) by simp
  qed
qed

subsection \<open>The files of the image\<close>

definition strip :: "byte list \<Rightarrow> byte list" where
  "strip name = (case name of c # cs \<Rightarrow> if c = 0x5f then cs else name | [] \<Rightarrow> name)"

fun entries :: "nat \<Rightarrow> (byte list \<times> byte list) list \<Rightarrow> byte list" where
  "entries no [] = []"
| "entries no ((name, bs) # fs) = dirent_bytes (xshort (of_nat no)) (strip name) @ entries (no + 1) fs"

lemma length_dirent [simp]: "length (dirent_bytes no name) = 16"
  by (simp add: dirent_bytes_def)

lemma add_file_keeps:
  assumes m: "fs_ok m" "2 \<le> unat (freeinode m)" "unat (freeinode m) < 200" and e: "add_file (name, bs) m = Inr m'"
  shows "keeps m m' {1} \<and> file_of m' (unat (freeinode m)) = bs \<and> unat (freeinode m') = unat (freeinode m) + 1 \<and>
    file_of m' 1 = file_of m 1 @ dirent_bytes (xshort (of_nat (unat (freeinode m)))) (strip name) \<and> fsize m' 1 = fsize m 1 + 16"
proof -
  let ?i = "unat (freeinode m)"
  obtain no m1 m2 where a: "mkfs_ialloc T_FILE m = Inr (no, m1)"
    and b: "iappend ROOTINO (dirent_bytes (xshort (ucast no)) (strip name)) m1 = Inr m2" and c: "copy_file no bs m2 = Inr m'"
    using e by (auto simp: add_file_def strip_def Let_def res_simps split: if_splits)
  note k1 = ialloc_keeps [OF m(1,3) a]
  have i1: "unat (freeinode m1) = ?i + 1" "fs_ok m1" using k1(2,4) by (simp_all add: keeps_def)
  have b': "iappend (of_nat 1) (dirent_bytes (xshort (of_nat ?i)) (strip name)) m1 = Inr m2"
    using b by (simp add: k1(1) of_nat_unat)
  have r1: "1 \<le> (1 :: nat)" "(1 :: nat) < unat (freeinode m1)" using i1 m(2) by auto
  note k2 = iappend_keeps [OF i1(2) r1 b']
  have c': "copy_file (of_nat ?i) bs m2 = Inr m'" using c k1(1) by simp
  have "fs_ok m2" "1 \<le> ?i" "?i < unat (freeinode m2)" using k2(1,4) i1(1) m(2) by (auto simp: keeps_def)
  note k3 = copy_file_keeps [OF c' this]
  have "keeps m m' ({} \<union> {1} \<union> {?i})" using keeps_trans [OF keeps_trans [OF k1(2) k2(1)]] k3 by blast
  then have "keeps m m' {1}" by (auto simp: keeps_def)
  moreover have "file_of m2 ?i = file_of m1 ?i" using k2(1) i1 m(2) by (simp add: keeps_def)
  moreover have "file_of m' 1 = file_of m2 1 \<and> fsize m' 1 = fsize m2 1" using k3 k2(4) i1 m(2) by (simp add: keeps_def)
  moreover have "file_of m1 1 = file_of m 1 \<and> fsize m1 1 = fsize m 1" using k1(2) m(2) by (simp add: keeps_def)
  ultimately show ?thesis using k1 k2 k3 i1 by simp
qed

lemma add_files_keeps:
  assumes "add_files fs m = Inr m'" "fs_ok m" "2 \<le> unat (freeinode m)" "unat (freeinode m) + length fs \<le> 200"
  shows "keeps m m' {1} \<and> unat (freeinode m') = unat (freeinode m) + length fs \<and>
    (\<forall>j < length fs. file_of m' (unat (freeinode m) + j) = snd (fs ! j)) \<and>
    file_of m' 1 = file_of m 1 @ entries (unat (freeinode m)) fs \<and> fsize m' 1 = fsize m 1 + 16 * length fs"
  using assms
proof (induction fs arbitrary: m)
  case Nil
  then show ?case by (simp add: keeps_def)
next
  case (Cons f fs)
  obtain name bs where f: "f = (name, bs)" by fastforce
  obtain m1 where a: "add_file (name, bs) m = Inr m1" and r: "add_files fs m1 = Inr m'" using Cons.prems(1) by (auto simp: f res_simps)
  let ?i = "unat (freeinode m)"
  have k: "keeps m m1 {1}" "file_of m1 ?i = bs" "unat (freeinode m1) = ?i + 1"
      "file_of m1 1 = file_of m 1 @ dirent_bytes (xshort (of_nat ?i)) (strip name)" "fsize m1 1 = fsize m 1 + 16"
    using add_file_keeps [OF Cons.prems(2,3) _ a] Cons.prems(4) by auto
  have "fs_ok m1" using k(1) by (simp add: keeps_def)
  then have ih: "keeps m1 m' {1}" "unat (freeinode m') = ?i + 1 + length fs" "\<forall>j < length fs. file_of m' (?i + 1 + j) = snd (fs ! j)"
      "file_of m' 1 = file_of m1 1 @ entries (?i + 1) fs" "fsize m' 1 = fsize m1 1 + 16 * length fs"
    using Cons.IH [OF r] k(3) Cons.prems(3,4) by auto
  have "file_of m' ?i = bs" using ih(1) k(2,3) Cons.prems(3) by (simp add: keeps_def)
  then have "\<forall>j < length (f # fs). file_of m' (?i + j) = snd ((f # fs) ! j)"
    using ih(3) f by (auto simp: nth_Cons' gr0_conv_Suc)
  then show ?case using keeps_trans [OF k(1) ih(1)] ih k f by simp
qed

subsection \<open>The bitmap\<close>

lemma length_bitmap [simp]: "length (bitmap_loop n buf) = length buf"
  by (induction n) (simp_all add: Let_def)

lemma bitmap_bit:
  "n \<le> 4096 \<Longrightarrow> b < 4096 \<Longrightarrow> bit (bitmap_loop n (replicate 512 0) ! (b div 8)) (b mod 8) \<longleftrightarrow> b < n"
proof (induction n)
  case (Suc n)
  let ?l = "bitmap_loop n (replicate 512 0) :: byte list"
  have n: "n div 8 < 512" "b div 8 < 512" using Suc.prems by auto
  have "bit (bitmap_loop (Suc n) (replicate 512 0) ! (b div 8)) (b mod 8) \<longleftrightarrow>
      bit (?l ! (b div 8)) (b mod 8) \<or> b div 8 = n div 8 \<and> b mod 8 = n mod 8"
    using n by (auto simp: Let_def nth_list_update bit_simps)
  also have "(b div 8 = n div 8 \<and> b mod 8 = n mod 8) \<longleftrightarrow> b = n" by (metis div_mult_mod_eq)
  finally show ?case using Suc by auto
qed simp

subsection \<open>The image as a whole\<close>

lemma start_ok: "fs_ok image_start" "freeinode image_start = 1"
proof -
  have "length (splice 0 (superblock_bytes sb_image) (replicate 512 0)) = 512"
    by (simp add: splice_def superblock_bytes_def)
  then show "fs_ok image_start"
    by (auto simp: fs_ok_def image_ok_def image_start_def wsect_def sb_layout)
  show "freeinode image_start = 1" by (simp add: image_start_def wsect_def)
qed

lemma super_read: "get_superblock (splice 0 (superblock_bytes s) (replicate 512 0)) = s"
proof -
  let ?ws = "[sb_size s, nblocks s, ninodes s, nlog s, logstart s, inodestart s, bmapstart s]"
  define w where "w = concat (map le32 ?ws) @ replicate 484 (0 :: byte)"
  have e: "splice 0 (superblock_bytes s) (replicate 512 0) = w"
    by (simp add: splice_def superblock_bytes_def w_def)
  have "get32 w (4 * i) = ?ws ! i" if "i < 7" for i
  proof -
    have "get32 w (4 * i) = get32 (concat (map le32 ?ws)) (4 * i)" unfolding w_def using that by (intro get32_append) simp
    then show ?thesis using that get32_words [of i ?ws] by simp
  qed
  from this [of 0] this [of 1] this [of 2] this [of 3] this [of 4] this [of 5] this [of 6] show ?thesis
    unfolding e get_superblock_def by simp
qed

definition dots :: "byte list" where
  "dots = dirent_bytes (xshort 1) [0x2e] @ dirent_bytes (xshort 1) [0x2e, 0x2e]"

text \<open>The image before the last two writes.\<close>

lemma mkfs_files:
  assumes e: "mkfs files = Inr m" and n: "length files \<le> 198"
  shows "\<exists>m4 d m5. fs_ok m4 \<and> unat (freeinode m4) = length files + 2 \<and> img m4 1 = img image_start 1 \<and>
    (\<forall>j < length files. file_of m4 (j + 2) = snd (files ! j)) \<and> file_of m4 1 = dots @ entries 2 files \<and>
    fsize m4 1 = 16 * (length files + 2) \<and> d_addrs d = d_addrs (ino m4 1) \<and> winode (of_nat 1) d m4 = Inr m5 \<and>
    mkfs_balloc (unat (freeblock m5)) m5 = Inr m"
proof -
  obtain root m1 m2 m3 m4 d m5 where a: "mkfs_ialloc T_DIR image_start = Inr (root, m1)"
      "iappend root (dirent_bytes (xshort (ucast root)) [0x2e]) m1 = Inr m2"
      "iappend root (dirent_bytes (xshort (ucast root)) [0x2e, 0x2e]) m2 = Inr m3" "add_files files m3 = Inr m4"
      "rinode root m4 = Inr d" "winode root (d\<lparr>d_size := (d_size d div 512 + 1) * 512\<rparr>) m4 = Inr m5" "mkfs_balloc (unat (freeblock m5)) m5 = Inr m"
      and root: "root = 1"
    using e by (auto simp: mkfs_def res_simps Let_def split: if_splits)
  note k1 = ialloc_keeps [OF start_ok(1) _ a(1)]
  have s: "unat (freeinode image_start) < 200" using start_ok(2) by simp
  have i1: "fs_ok m1" "unat (freeinode m1) = 2" "img m1 1 = img image_start 1" "file_of m1 1 = []"
      "fsize m1 1 = 0"
    using k1(2-5) [OF s] root start_ok(2) by (simp_all add: keeps_def)
  have r1: "1 \<le> (1 :: nat)" "(1 :: nat) < unat (freeinode m1)" using i1(2) by auto
  note k2 = iappend_keeps [OF i1(1) r1, of "dirent_bytes (xshort 1) [0x2e]" m2]
  have b2: "keeps m1 m2 {1}" "file_of m2 1 = dirent_bytes (xshort 1) [0x2e]" "fsize m2 1 = 16" "freeinode m2 = freeinode m1"
    using k2 a(2) root i1(4,5) by simp_all
  have o2: "fs_ok m2" "(1 :: nat) < unat (freeinode m2)" "img m2 1 = img m1 1" using b2(1,4) r1 by (auto simp: keeps_def)
  note k3 = iappend_keeps [OF o2(1) r1(1) o2(2), of "dirent_bytes (xshort 1) [0x2e, 0x2e]" m3]
  have b3: "keeps m2 m3 {1}" "file_of m3 1 = dots" "fsize m3 1 = 32" "unat (freeinode m3) = 2"
    using k3 a(3) root b2 i1(2) by (simp_all add: dots_def)
  have o3: "fs_ok m3" "img m3 1 = img m2 1" using b3(1) by (auto simp: keeps_def)
  have k4: "keeps m3 m4 {1}" "unat (freeinode m4) = length files + 2" "\<forall>j < length files. file_of m4 (j + 2) = snd (files ! j)"
      "file_of m4 1 = dots @ entries 2 files" "fsize m4 1 = 32 + 16 * length files"
    using add_files_keeps [OF a(4) o3(1)] b3 n by (simp_all add: add.commute)
  have "d = ino m4 1" using a(5) root rinode_ino [of 1 m4] by simp
  then show ?thesis
    using k4 a(6,7) root i1(3) o2(3) o3(2)
    by (intro exI [of _ m4] exI [of _ "d\<lparr>d_size := (d_size d div 512 + 1) * 512\<rparr>"] exI [of _ m5]) (simp add: keeps_def)
qed

text \<open>The last two writes: the size of the root directory and the bitmap.\<close>

lemma mkfs_tail:
  assumes m4: "fs_ok m4" "2 \<le> unat (freeinode m4)" and d: "d_addrs d = d_addrs (ino m4 1)"
    and e: "winode (of_nat 1) d m4 = Inr m5" "mkfs_balloc (unat (freeblock m5)) m5 = Inr m"
  shows "\<forall>i < 208. d_addrs (ino m i) = d_addrs (ino m4 i) \<and> (i \<noteq> 1 \<longrightarrow> ino m i = ino m4 i)" "\<forall>b \<ge> 59. img m b = img m4 b"
    "img m 1 = img m4 1" "freeblock m = freeblock m4" "img m 58 = bitmap_loop (unat (freeblock m)) (replicate 512 0)"
proof -
  have len: "\<forall>b. length (img m4 b) = 512" "length (d_addrs d) = 13" using m4 d by (auto simp: fs_ok_def image_ok_def file_ok_def)
  obtain m' where "winode (of_nat 1) d m4 = Inr m'" "\<forall>j < 208. ino m' j = (if j = 1 then d else ino m4 j)"
      "\<forall>b. b < 32 \<or> 58 \<le> b \<longrightarrow> img m' b = img m4 b" "freeblock m' = freeblock m4"
    using winode_ino [OF len, of 1] by auto
  then have m5: "\<forall>j < 208. ino m5 j = (if j = 1 then d else ino m4 j)" "\<forall>b. b < 32 \<or> 58 \<le> b \<longrightarrow> img m5 b = img m4 b" "freeblock m5 = freeblock m4"
    using e(1) by auto
  have m: "m = m5\<lparr>img := (img m5)(58 := bitmap_loop (unat (freeblock m5)) (replicate 512 0))\<rparr>"
    using e(2) by (auto simp: mkfs_balloc_def wsect_def sb_layout split: if_splits)
  have "ino m i = ino m5 i" if "i < 208" for i using that by (auto simp: ino_def m)
  then show "\<forall>i < 208. d_addrs (ino m i) = d_addrs (ino m4 i) \<and> (i \<noteq> 1 \<longrightarrow> ino m i = ino m4 i)" using m5(1) d by simp
  show "\<forall>b \<ge> 59. img m b = img m4 b" "img m 1 = img m4 1" "freeblock m = freeblock m4" using m5 by (simp_all add: m)
  show "img m 58 = bitmap_loop (unat (freeblock m)) (replicate 512 0)" by (simp add: m)
qed

text \<open>The recorded size of a file; of the root directory, the size before it is rounded up.\<close>

definition file_len :: "nat \<Rightarrow> image \<Rightarrow> nat \<Rightarrow> nat" where
  "file_len n m i = (if i = 1 then 16 * (n + 2) else fsize m i)"

definition file_blocks :: "nat \<Rightarrow> image \<Rightarrow> nat \<Rightarrow> uint set" where
  "file_blocks n m i = set (used m (ino m i) (nblk (file_len n m i)))"


text \<open>Small files are appended without a failure.\<close>

lemma small_append:
  assumes m: "fs_ok m" and i: "1 \<le> i" "i < unat (freeinode m)" and p: "p \<noteq> []" "fsize m i + length p \<le> 512" and fb: "unat (freeblock m) < 1000"
  shows "\<exists>m'. iappend (of_nat i) p m = Inr m' \<and> unat (freeblock m') \<le> unat (freeblock m) + 1"
proof -
  let ?d = "ino m i" and ?n = "fsize m i"
  have ok: "image_ok m" "freeblock m \<le> FSSIZE" "file_ok m ?d (nblk ?n)" and i208: "i < 208" using m i by (auto simp: fs_ok_def)
  have n: "?n < 512" "?n div 512 = 0" using p by (cases p; simp)+
  have "\<exists>x d1 m1. file_block 0 ?d m = Inr (x, d1, m1) \<and> x < FSSIZE \<and> length (d_addrs d1) = 13 \<and> (\<forall>b. length (img m1 b) = 512) \<and>
      unat (freeblock m1) \<le> unat (freeblock m) + 1"
  proof (cases "?n = 0")
    case True
    then have "d_addrs ?d ! 0 = 0" "length (d_addrs ?d) = 13" using ok(3) by (auto simp: file_ok_def)
    then show ?thesis using fb ok(1) next_block [of "freeblock m"] by (auto simp: file_block_def image_ok_def word_less_nat_alt)
  next
    case False
    then have "0 < nblk ?n" by (simp add: nblk_def div_greater_zero_iff)
    then have "file_block 0 ?d m = Inr (blk m ?d 0, ?d, m)" "blk m ?d 0 < freeblock m"
      using file_block_there [OF ok(3) _ ok(1,2)] ok(3) used_in(1) [of 0 "nblk ?n" m ?d] by (auto simp: file_ok_def)
    then show ?thesis using ok by (auto simp: image_ok_def file_ok_def)
  qed
  then obtain x d1 m1 where b: "file_block 0 ?d m = Inr (x, d1, m1)" "x < FSSIZE" "length (d_addrs d1) = 13" "\<forall>b. length (img m1 b) = 512"
      "unat (freeblock m1) \<le> unat (freeblock m) + 1" by blast
  let ?m2 = "wsect x (splice ?n p (img m1 (unat x))) m1"
  have "min (length p) (512 - ?n) = length p" using p by simp
  then have l: "iappend_loop ?d ?n p m = Inr (d1, ?n + length p, ?m2)"
    using p(1) n b by (simp add: iappend_loop.simps [of ?d] iappend_loop.simps [of d1] rsect_def Let_def)
  have len: "\<forall>b. length (img ?m2 b) = 512" using b(4) p n by (auto simp: wsect_def)
  obtain m' where "winode (of_nat i) (d1\<lparr>d_size := of_nat (?n + length p)\<rparr>) ?m2 = Inr m'" "freeblock m' = freeblock ?m2"
    using winode_ino [OF len, of "d1\<lparr>d_size := of_nat (?n + length p)\<rparr>" i] b(3) i208 by auto
  then show ?thesis using l b(5) i208 by (auto simp: iappend_def rinode_ino fsize_def wsect_def)
qed

lemma ialloc_succeeds:
  assumes m: "fs_ok m" and n: "unat (freeinode m) < 200"
  shows "\<exists>m'. mkfs_ialloc t m = Inr (freeinode m, m') \<and> freeblock m' = freeblock m"
proof -
  let ?m = "m\<lparr>freeinode := freeinode m + 1\<rparr>"
  let ?d = "\<lparr>d_type = xshort t, d_major = 0, d_minor = 0, d_nlink = xshort 1, d_size = xint 0, d_addrs = replicate 13 0\<rparr>"
  have "\<forall>b. length (img ?m b) = 512" using m by (simp add: fs_ok_def image_ok_def)
  then obtain m' where "winode (of_nat (unat (freeinode m))) ?d ?m = Inr m'" "freeblock m' = freeblock m"
    using winode_ino [of ?m ?d "unat (freeinode m)"] n by auto
  then show ?thesis by (simp add: mkfs_ialloc_def Let_def)
qed

lemma add_small_file:
  assumes m: "fs_ok m" "2 \<le> unat (freeinode m)" "unat (freeinode m) < 200" and fb: "unat (freeblock m) < 998"
    and n: "0x2f \<notin> set name" "bs \<noteq> []" "length bs \<le> 512" "fsize m 1 \<le> 496"
  shows "\<exists>m'. add_file (name, bs) m = Inr m' \<and> unat (freeblock m') \<le> unat (freeblock m) + 2"
proof -
  let ?i = "unat (freeinode m)"
  obtain m1 where a: "mkfs_ialloc T_FILE m = Inr (freeinode m, m1)" "freeblock m1 = freeblock m" using ialloc_succeeds [OF m(1,3)] by blast
  note k1 = ialloc_keeps [OF m(1,3) a(1)]
  have i1: "fs_ok m1" "fsize m1 1 = fsize m 1" "unat (freeinode m1) = ?i + 1" "fsize m1 ?i = 0" using k1(2,4,5) m(2) by (simp_all add: keeps_def)
  have r1: "1 \<le> (1 :: nat)" "1 < unat (freeinode m1)" using i1(3) m(2) by auto
  define p where "p = dirent_bytes (xshort (ucast (freeinode m))) (strip name)"
  have p: "length p = 16" "p \<noteq> []" by (auto simp: p_def dirent_bytes_def le16_def)
  obtain m2 where b: "iappend (of_nat 1) p m1 = Inr m2" "unat (freeblock m2) \<le> unat (freeblock m1) + 1"
    using small_append [OF i1(1) r1 p(2)] p(1) n(4) i1(2) a(2) fb by auto
  note k2 = iappend_keeps [OF i1(1) r1 b(1)]
  have i2: "fs_ok m2" "fsize m2 ?i = 0" "?i < unat (freeinode m2)" "1 \<le> ?i" using k2(1,4) i1(3,4) m(2) by (simp_all add: keeps_def)
  obtain m3 where c: "iappend (of_nat ?i) bs m2 = Inr m3" "unat (freeblock m3) \<le> unat (freeblock m2) + 1"
    using small_append [OF i2(1,4,3) n(2)] n(3) i2(2) b(2) a(2) fb by auto
  have "copy_file (of_nat ?i) bs m2 = Inr m3" using c(1) n(2,3) by (simp add: copy_file.simps [of _ bs] copy_file.simps [of _ "[]"])
  then have "add_file (name, bs) m = Inr m3" using a(1) b(1) n(1) by (simp add: add_file_def strip_def [symmetric] p_def)
  then show ?thesis using c(2) b(2) a(2) by auto
qed

lemma example_image: "\<exists>m. mkfs [([0x5f, 0x61], [0x68, 0x69])] = Inr m"
proof -
  have s: "unat (freeinode image_start) < 200" "unat (freeblock image_start) = 59" using start_ok(2) by (simp_all add: image_start_def wsect_def sb_layout)
  obtain m1 where a: "mkfs_ialloc T_DIR image_start = Inr (1, m1)" "freeblock m1 = freeblock image_start"
    using ialloc_succeeds [OF start_ok(1) s(1)] start_ok(2) by auto
  note k1 = ialloc_keeps [OF start_ok(1) s(1) a(1)]
  have i1: "fs_ok m1" "unat (freeinode m1) = 2" "fsize m1 1 = 0" using k1(2,4,5) start_ok(2) by (simp_all add: keeps_def)
  have r1: "1 \<le> (1 :: nat)" "1 < unat (freeinode m1)" using i1(2) by auto
  define p q where "p = dirent_bytes (xshort 1) [0x2e]" and "q = dirent_bytes (xshort 1) [0x2e, 0x2e]"
  have p: "length p = 16" "p \<noteq> []" "length q = 16" "q \<noteq> []" by (auto simp: p_def q_def dirent_bytes_def le16_def)
  obtain m2 where b: "iappend (of_nat 1) p m1 = Inr m2" "unat (freeblock m2) \<le> 60"
    using small_append [OF i1(1) r1 p(2)] p(1) i1(3) a(2) s(2) by auto
  note k2 = iappend_keeps [OF i1(1) r1 b(1)]
  have i2: "fs_ok m2" "1 < unat (freeinode m2)" "fsize m2 1 = 16" using k2 i1 p(1) by (simp_all add: keeps_def)
  obtain m3 where c: "iappend (of_nat 1) q m2 = Inr m3" "unat (freeblock m3) \<le> 61"
    using small_append [OF i2(1) r1(1) i2(2) p(4)] p(3) i2(3) b(2) by force
  note k3 = iappend_keeps [OF i2(1) r1(1) i2(2) c(1)]
  have i3: "fs_ok m3" "unat (freeinode m3) = 2" "fsize m3 1 = 32" using k3 k2(4) i1(2) i2(3) p(3) by (simp_all add: keeps_def)
  obtain m4 where d: "add_file ([0x5f, 0x61], [0x68, 0x69]) m3 = Inr m4" "unat (freeblock m4) \<le> 63"
    using add_small_file [OF i3(1), of "[0x5f, 0x61]" "[0x68, 0x69]"] i3(2,3) c(2) by force
  have i4: "fs_ok m4" "unat (freeinode m4) = 3" using add_file_keeps [OF i3(1) _ _ d(1)] i3(2) by (auto simp: keeps_def)
  have len: "\<forall>b. length (img m4 b) = 512" "length (d_addrs (ino m4 1)) = 13" using i4 by (auto simp: fs_ok_def image_ok_def file_ok_def)
  obtain m5 where e: "winode (of_nat 1) ((ino m4 1)\<lparr>d_size := (d_size (ino m4 1) div 512 + 1) * 512\<rparr>) m4 = Inr m5" "freeblock m5 = freeblock m4"
    using winode_ino [OF len(1), of "(ino m4 1)\<lparr>d_size := (d_size (ino m4 1) div 512 + 1) * 512\<rparr>" 1] len(2) by auto
  have "rinode 1 m4 = Inr (ino m4 1)" using rinode_ino [of 1 m4] by simp
  moreover have "\<exists>m. mkfs_balloc (unat (freeblock m5)) m5 = Inr m" using e(2) d(2) by (simp add: mkfs_balloc_def)
  ultimately show ?thesis using a(1) b(1) c(1) d(1) e(1) by (simp add: mkfs_def p_def q_def Let_def)
qed


end
