(* ===== verification/Segments.thy ===== *)
theory Segments
  imports Prelude
begin

text \<open>
  Segments and gates: the descriptors of \<^verbatim>\<open>mmu.h\<close>, the segments of \<^verbatim>\<open>seginit\<close> (\<^verbatim>\<open>vm.c\<close>) and the
  interrupt table of \<^verbatim>\<open>tvinit\<close> (\<^verbatim>\<open>trap.c\<close>). A bit field is a word of its width; storing into it
  keeps the low bits. The entry points \<^verbatim>\<open>vectors\<close> come from generated assembly and are an argument.
\<close>

record segdesc =
  sg_lim_15_0 :: "16 word"
  sg_base_15_0 :: "16 word"
  sg_base_23_16 :: "8 word"
  sg_type :: "4 word"
  sg_s :: "1 word"
  sg_dpl :: "2 word"
  sg_p :: "1 word"
  sg_lim_19_16 :: "4 word"
  sg_avl :: "1 word"
  sg_rsv1 :: "1 word"
  sg_db :: "1 word"
  sg_g :: "1 word"
  sg_base_31_24 :: "8 word"

definition SEG :: "uint \<Rightarrow> uint \<Rightarrow> uint \<Rightarrow> uint \<Rightarrow> segdesc" where
  "SEG t base lim dpl = \<lparr>sg_lim_15_0 = ucast (drop_bit 12 lim AND 0xffff), sg_base_15_0 = ucast (base AND 0xffff),
     sg_base_23_16 = ucast (drop_bit 16 base AND 0xff), sg_type = ucast t, sg_s = 1, sg_dpl = ucast dpl, sg_p = 1,
     sg_lim_19_16 = ucast (drop_bit 28 lim), sg_avl = 0, sg_rsv1 = 0, sg_db = 1, sg_g = 1, sg_base_31_24 = ucast (drop_bit 24 base)\<rparr>"

definition SEG16 :: "uint \<Rightarrow> uint \<Rightarrow> uint \<Rightarrow> uint \<Rightarrow> segdesc" where
  "SEG16 t base lim dpl = \<lparr>sg_lim_15_0 = ucast (lim AND 0xffff), sg_base_15_0 = ucast (base AND 0xffff),
     sg_base_23_16 = ucast (drop_bit 16 base AND 0xff), sg_type = ucast t, sg_s = 1, sg_dpl = ucast dpl, sg_p = 1,
     sg_lim_19_16 = ucast (drop_bit 16 lim), sg_avl = 0, sg_rsv1 = 0, sg_db = 1, sg_g = 0, sg_base_31_24 = ucast (drop_bit 24 base)\<rparr>"

record gatedesc =
  gt_off_15_0 :: "16 word"
  gt_cs :: "16 word"
  gt_args :: "5 word"
  gt_rsv1 :: "3 word"
  gt_type :: "4 word"
  gt_s :: "1 word"
  gt_dpl :: "2 word"
  gt_p :: "1 word"
  gt_off_31_16 :: "16 word"

abbreviation (input) STA_X :: uint where "STA_X \<equiv> 0x8"
abbreviation (input) STA_W :: uint where "STA_W \<equiv> 0x2"
abbreviation (input) STA_R :: uint where "STA_R \<equiv> 0x2"
abbreviation (input) STS_IG32 :: uint where "STS_IG32 \<equiv> 0xE"
abbreviation (input) STS_TG32 :: uint where "STS_TG32 \<equiv> 0xF"
abbreviation (input) SEG_KCODE :: nat where "SEG_KCODE \<equiv> 1"
abbreviation (input) SEG_KDATA :: nat where "SEG_KDATA \<equiv> 2"
abbreviation (input) SEG_UCODE :: nat where "SEG_UCODE \<equiv> 3"
abbreviation (input) SEG_UDATA :: nat where "SEG_UDATA \<equiv> 4"
abbreviation (input) NSEGS :: nat where "NSEGS \<equiv> 6"
abbreviation (input) DPL_USER :: uint where "DPL_USER \<equiv> 3"
abbreviation (input) T_SYSCALL :: nat where "T_SYSCALL \<equiv> 64"

definition SETGATE :: "bool \<Rightarrow> uint \<Rightarrow> uint \<Rightarrow> uint \<Rightarrow> gatedesc" where
  "SETGATE istrap sel off d = \<lparr>gt_off_15_0 = ucast (off AND 0xffff), gt_cs = ucast sel, gt_args = 0, gt_rsv1 = 0,
     gt_type = ucast (if istrap then STS_TG32 else STS_IG32), gt_s = 0, gt_dpl = ucast d, gt_p = 1, gt_off_31_16 = ucast (drop_bit 16 off)\<rparr>"

definition seginit :: "segdesc list \<Rightarrow> segdesc list" where
  "seginit gdt = gdt[SEG_KCODE := SEG (STA_X OR STA_R) 0 0xffffffff 0, SEG_KDATA := SEG STA_W 0 0xffffffff 0,
     SEG_UCODE := SEG (STA_X OR STA_R) 0 0xffffffff DPL_USER, SEG_UDATA := SEG STA_W 0 0xffffffff DPL_USER]"

fun tvinit_loop :: "nat \<Rightarrow> (nat \<Rightarrow> uint) \<Rightarrow> gatedesc list \<Rightarrow> gatedesc list" where
  "tvinit_loop 0 vectors idt = idt"
| "tvinit_loop (Suc i) vectors idt = (tvinit_loop i vectors idt)[i := SETGATE False (push_bit 3 (of_nat SEG_KCODE)) (vectors i) 0]"

definition tvinit :: "(nat \<Rightarrow> uint) \<Rightarrow> gatedesc list \<Rightarrow> gatedesc list" where
  "tvinit vectors idt =
     (tvinit_loop 256 vectors idt)[T_SYSCALL := SETGATE True (push_bit 3 (of_nat SEG_KCODE)) (vectors T_SYSCALL) DPL_USER]"

subsection \<open>What the processor makes of them\<close>

text \<open>The base and the last byte of a segment, the handler of a gate, and the rule of the \<^verbatim>\<open>int\<close> instruction.\<close>

definition seg_base :: "segdesc \<Rightarrow> uint" where
  "seg_base d = push_bit 24 (ucast (sg_base_31_24 d)) OR push_bit 16 (ucast (sg_base_23_16 d)) OR ucast (sg_base_15_0 d)"

definition seg_limit :: "segdesc \<Rightarrow> uint" where
  "seg_limit d = (let l = push_bit 16 (ucast (sg_lim_19_16 d)) OR ucast (sg_lim_15_0 d)
     in if sg_g d = 1 then push_bit 12 l OR 0xfff else l)"

definition gate_off :: "gatedesc \<Rightarrow> uint" where
  "gate_off g = push_bit 16 (ucast (gt_off_31_16 g)) OR ucast (gt_off_15_0 g)"

definition int_allowed :: "2 word \<Rightarrow> gatedesc \<Rightarrow> bool" where
  "int_allowed cpl g \<longleftrightarrow> gt_p g = 1 \<and> cpl \<le> gt_dpl g"

text \<open>The privilege level a gate leads to: that of the code segment its selector names.\<close>

definition gate_level :: "segdesc list \<Rightarrow> gatedesc \<Rightarrow> 2 word" where
  "gate_level gdt g = sg_dpl (gdt ! unat (drop_bit 3 (gt_cs g)))"

lemma low_masks: "(0xffff :: uint) = mask 16" "(0xff :: uint) = mask 8" "(0xfff :: uint) = mask 12"
  by (simp_all add: mask_eq_exp_minus_1)

lemma gate_off_SETGATE: "gate_off (SETGATE istrap sel off d) = off"
  by (rule bit_eqI) (auto simp: gate_off_def SETGATE_def low_masks bit_simps)

lemma seg_base_SEG: "seg_base (SEG t base lim dpl) = base"
proof (rule bit_eqI)
  show "bit (seg_base (SEG t base lim dpl)) n = bit base n" if "possible_bit TYPE(32 word) n" for n
    using that by (cases "n < 24") (auto simp: seg_base_def SEG_def low_masks bit_simps)
qed

lemma seg_limit_SEG: "seg_limit (SEG t base lim dpl) = lim OR 0xfff"
proof (rule bit_eqI)
  show "bit (seg_limit (SEG t base lim dpl)) n = bit (lim OR 0xfff) n" if "possible_bit TYPE(32 word) n" for n
    using that by (cases "n < 28") (auto simp: seg_limit_def SEG_def low_masks bit_simps)
qed

lemma tvinit_loop_nth:
  "length idt = 256 \<Longrightarrow> n \<le> 256 \<Longrightarrow> length (tvinit_loop n vectors idt) = 256 \<and>
     (\<forall>i < n. tvinit_loop n vectors idt ! i = SETGATE False (push_bit 3 (of_nat SEG_KCODE)) (vectors i) 0)"
  by (induction n) (auto simp: nth_list_update)

text \<open>
  C40: after \<^verbatim>\<open>seginit\<close> and \<^verbatim>\<open>tvinit\<close> a user program enters the kernel by an \<^verbatim>\<open>int\<close> instruction only
  through the system call vector: the processor allows it for vector 64 and for no other. Every
  vector leads to its own handler, whose address survives being split over two bit fields, at kernel
  privilege, and interrupts stay enabled only in the gate of the system call. The user segments
  span the whole address space at user privilege, the kernel segments at kernel privilege.
\<close>

theorem only_syscall_gate:
  assumes "length gdt = NSEGS" "length idt = 256" "i < 256"
  shows "(int_allowed 3 (tvinit vectors idt ! i) \<longleftrightarrow> i = T_SYSCALL) \<and> gate_off (tvinit vectors idt ! i) = vectors i \<and>
    gate_level (seginit gdt) (tvinit vectors idt ! i) = 0 \<and> (gt_type (tvinit vectors idt ! i) = 0xF \<longleftrightarrow> i = T_SYSCALL) \<and>
    (\<forall>s \<in> {SEG_KCODE, SEG_KDATA, SEG_UCODE, SEG_UDATA}. seg_base (seginit gdt ! s) = 0 \<and> seg_limit (seginit gdt ! s) = 0xffffffff \<and>
       sg_dpl (seginit gdt ! s) = (if s \<in> {SEG_UCODE, SEG_UDATA} then 3 else 0))"
proof -
  let ?g = "tvinit vectors idt ! i"
  have g: "?g = (if i = 64 then SETGATE True 8 (vectors 64) 3 else SETGATE False 8 (vectors i) 0)"
    using tvinit_loop_nth [OF assms(2), of 256 vectors] assms(3) by (simp add: tvinit_def nth_list_update push_bit_eq_mult)
  have s: "seginit gdt ! 1 = SEG 10 0 0xffffffff 0" "seginit gdt ! 2 = SEG 2 0 0xffffffff 0"
      "seginit gdt ! 3 = SEG 10 0 0xffffffff 3" "seginit gdt ! 4 = SEG 2 0 0xffffffff 3"
    using assms(1) by (simp_all add: seginit_def nth_list_update)
  have d: "sg_dpl (SEG t b l p) = ucast p" "gt_dpl (SETGATE tr sel off p) = ucast p" "gt_cs (SETGATE tr sel off p) = ucast sel"
      "gt_p (SETGATE tr sel off p) = 1" "gt_type (SETGATE tr sel off p) = ucast (if tr then 0xF else 0xE :: uint)" for t b l p tr sel off
    by (simp_all add: SEG_def SETGATE_def)
  have "gate_level (seginit gdt) ?g = 0" using s(1) by (simp add: gate_level_def g d drop_bit_eq_div)
  moreover have "int_allowed 3 ?g \<longleftrightarrow> i = 64" by (simp add: int_allowed_def g d)
  moreover have "gate_off ?g = vectors i" by (simp add: g gate_off_SETGATE)
  moreover have "gt_type ?g = 0xF \<longleftrightarrow> i = 64" by (simp add: g d)
  moreover have "\<forall>s \<in> {1, 2, 3, 4}. seg_base (seginit gdt ! s) = 0 \<and> seg_limit (seginit gdt ! s) = 0xffffffff \<and>
      sg_dpl (seginit gdt ! s) = (if s \<in> {3, 4 :: nat} then 3 else 0)"
    by (simp add: s [simplified] s seg_base_SEG seg_limit_SEG d)
  ultimately show ?thesis by simp
qed

theorem only_syscall_gate_witness:
  "\<not> int_allowed 3 (tvinit (\<lambda>i. of_nat i) (replicate 256 (SETGATE False 0 0 0)) ! 14) \<and>
   gate_off (tvinit (\<lambda>i. of_nat i) (replicate 256 (SETGATE False 0 0 0)) ! 14) = 14"
  using only_syscall_gate [of "replicate 6 (SEG 0 0 0 0)" "replicate 256 (SETGATE False 0 0 0)" 14 "\<lambda>i. of_nat i"] by simp

end
