(* ===== verification/Mp.thy ===== *)
theory Mp
  imports Memory
begin

text \<open>
  Detection of the processors (\<^verbatim>\<open>mp.c\<close>, \<^verbatim>\<open>mp.h\<close>): the search for the floating pointer structure and
  the configuration table in memory, and the walk over the table. The walk may not end and is a
  partial function. The writes to ports are returned as a list; what port \<open>0x23\<close> reads is an argument.
\<close>

abbreviation (input) NCPU :: nat where "NCPU \<equiv> 8"

record mpst =
  lapic :: uint
  apicids :: "byte list"
  ioapicid :: byte

fun sum_loop :: "nat \<Rightarrow> uint \<Rightarrow> cint \<Rightarrow> mem \<Rightarrow> cint" where
  "sum_loop 0 a s m = s"
| "sum_loop (Suc n) a s m = sum_loop n (a + 1) (s + ucast (m a)) m"

definition mp_sum :: "uint \<Rightarrow> nat \<Rightarrow> mem \<Rightarrow> byte" where
  "mp_sum a len m = ucast (sum_loop len a 0 m)"

definition has_signature :: "uint \<Rightarrow> byte list \<Rightarrow> mem \<Rightarrow> bool" where
  "has_signature a sig m \<longleftrightarrow> map (\<lambda>i. m (a + of_nat i)) [0..<4] = sig"

definition half :: "uint \<Rightarrow> mem \<Rightarrow> ushort" where
  "half a m = ucast (m a) OR push_bit 8 (ucast (m (a + 1)))"

fun mpsearch1_loop :: "nat \<Rightarrow> uint \<Rightarrow> mem \<Rightarrow> uint" where
  "mpsearch1_loop 0 p m = 0"
| "mpsearch1_loop (Suc n) p m =
     (if has_signature p [0x5f, 0x4d, 0x50, 0x5f] m \<and> mp_sum p 16 m = 0 then p else mpsearch1_loop n (p + 16) m)"

text \<open>Every caller passes a multiple of the size of the structure.\<close>

definition mpsearch1 :: "uint \<Rightarrow> nat \<Rightarrow> mem \<Rightarrow> uint" where
  "mpsearch1 a len m = mpsearch1_loop (len div 16) (P2V a) m"

definition mpsearch :: "mem \<Rightarrow> uint" where
  "mpsearch m =
     (let bda = P2V 0x400; b = (\<lambda>i. ucast (m (bda + i)) :: uint); p = push_bit 4 (push_bit 8 (b 0x0F) OR b 0x0E)
      in if p \<noteq> 0
         then let mp = mpsearch1 p 1024 m in if mp \<noteq> 0 then mp else mpsearch1 0xF0000 0x10000 m
         else let p = (push_bit 8 (b 0x14) OR b 0x13) * 1024; mp = mpsearch1 (p - 1024) 1024 m
              in if mp \<noteq> 0 then mp else mpsearch1 0xF0000 0x10000 m)"

text \<open>The structure and the table, or nothing.\<close>

definition mpconfig :: "mem \<Rightarrow> (uint \<times> uint) option" where
  "mpconfig m =
     (let mp = mpsearch m
      in if mp = 0 \<or> load32 m (mp + 4) = 0 then None
         else let conf = P2V (load32 m (mp + 4))
              in if \<not> has_signature conf [0x50, 0x43, 0x4d, 0x50] m then None
                 else if m (conf + 6) \<noteq> 1 \<and> m (conf + 6) \<noteq> 4 then None
                 else if mp_sum conf (unat (half (conf + 4) m)) m \<noteq> 0 then None
                 else Some (mp, conf))"

definition add_cpu :: "byte \<Rightarrow> mpst \<Rightarrow> mpst" where
  "add_cpu a s = (if length (apicids s) < NCPU then s\<lparr>apicids := apicids s @ [a]\<rparr> else s)"

text \<open>The loop over the entries; the \<^verbatim>\<open>break\<close> of the default case leaves the \<^verbatim>\<open>switch\<close> only.\<close>

partial_function (option) mpinit_loop :: "bool \<Rightarrow> uint \<Rightarrow> uint \<Rightarrow> mpst \<Rightarrow> mem \<Rightarrow> (bool \<times> mpst) option" where
  "mpinit_loop ismp p e s m =
     (if p < e
      then if m p = 0 then mpinit_loop ismp (p + 20) e (add_cpu (m (p + 1)) s) m
           else if m p = 2 then mpinit_loop ismp (p + 8) e (s\<lparr>ioapicid := m (p + 1)\<rparr>) m
           else if m p \<in> {1, 3, 4} then mpinit_loop ismp (p + 8) e s m
           else mpinit_loop False p e s m
      else Some (ismp, s))"

definition mpinit :: "byte \<Rightarrow> mpst \<Rightarrow> mem \<Rightarrow> (mpst \<times> (ushort \<times> byte) list) res option" where
  "mpinit in23 s m =
     (case mpconfig m of
        None \<Rightarrow> Some (panic ''Expect to run on an SMP'')
      | Some (mp, conf) \<Rightarrow>
          map_option (\<lambda>(ismp, s1).
            if \<not> ismp then panic ''Didn't find a suitable machine''
            else Inr (s1, if m (mp + 12) \<noteq> 0 then [(0x22, 0x70), (0x23, in23 OR 1)] else []))
            (mpinit_loop True (conf + 44) (conf + ucast (half (conf + 4) m)) (s\<lparr>lapic := load32 m (conf + 36)\<rparr>) m))"

subsection \<open>The walk over the table\<close>

datatype mp_entry = Processor byte | IoApic byte | Ignored

inductive table :: "mem \<Rightarrow> uint \<Rightarrow> uint \<Rightarrow> mp_entry list \<Rightarrow> bool" for m where
  "\<not> p < e \<Longrightarrow> table m p e []"
| "p < e \<Longrightarrow> m p = 0 \<Longrightarrow> table m (p + 20) e es \<Longrightarrow> table m p e (Processor (m (p + 1)) # es)"
| "p < e \<Longrightarrow> m p = 2 \<Longrightarrow> table m (p + 8) e es \<Longrightarrow> table m p e (IoApic (m (p + 1)) # es)"
| "p < e \<Longrightarrow> m p \<in> {1, 3, 4} \<Longrightarrow> table m (p + 8) e es \<Longrightarrow> table m p e (Ignored # es)"

text \<open>The walk meets an entry of a type that is not known.\<close>

inductive unknown :: "mem \<Rightarrow> uint \<Rightarrow> uint \<Rightarrow> bool" for m where
  "p < e \<Longrightarrow> 4 < m p \<Longrightarrow> unknown m p e"
| "p < e \<Longrightarrow> m p = 0 \<Longrightarrow> unknown m (p + 20) e \<Longrightarrow> unknown m p e"
| "p < e \<Longrightarrow> m p \<in> {1, 2, 3, 4} \<Longrightarrow> unknown m (p + 8) e \<Longrightarrow> unknown m p e"

inductive_simps unknown_simps: "unknown m p e"

fun processors :: "mp_entry list \<Rightarrow> byte list" where
  "processors [] = []"
| "processors (Processor a # es) = a # processors es"
| "processors (IoApic a # es) = processors es"
| "processors (Ignored # es) = processors es"

lemma table_walk:
  assumes "table m p e es"
  shows "length (apicids s) \<le> NCPU \<Longrightarrow>
    \<exists>s'. mpinit_loop ismp p e s m = Some (ismp, s') \<and> apicids s' = take NCPU (apicids s @ processors es) \<and> lapic s' = lapic s"
  using assms
proof (induction p e es arbitrary: s rule: table.induct)
  case (1 p e)
  then show ?case by (subst mpinit_loop.simps) simp
next
  case (2 p e es)
  have "length (apicids (add_cpu (m (p + 1)) s)) \<le> NCPU" using 2(5) by (simp add: add_cpu_def)
  from 2(4) [OF this] show ?case
    using 2(1,2,5) by (subst mpinit_loop.simps) (auto simp: add_cpu_def take_Cons')
next
  case (3 p e es)
  from 3(4) [of "s\<lparr>ioapicid := m (p + 1)\<rparr>"] 3(5) show ?case using 3(1,2) by (subst mpinit_loop.simps) simp
next
  case (4 p e es)
  from 4(4) [OF 4(5)] show ?case using 4(1,2) by (subst mpinit_loop.simps) auto
qed

lemma byte_types: "(b :: byte) = 0 \<or> b = 2 \<or> b \<in> {1, 3, 4} \<or> 4 < b"
proof -
  have "b \<in> {0, 1, 2, 3, 4}" if "\<not> 4 < b"
  proof -
    have "unat b \<le> 4" using that by (simp add: word_less_nat_alt not_less)
    then have "unat b \<in> {0, 1, 2, 3, 4}" by auto
    then show ?thesis by (auto simp: word_unat_eq_iff)
  qed
  then show ?thesis by auto
qed

lemma unknown_stuck:
  assumes "mpinit_loop ismp p e s m = Some r"
  shows "\<not> unknown m p e \<and> fst r = ismp"
proof (rule mpinit_loop.raw_induct [where P = "\<lambda>ismp p e s m r. \<not> unknown m p e \<and> fst r = ismp", OF _ assms])
  fix loop ismp p e s m r
  assume ih: "\<And>ismp p e s m y. loop ismp p e s m = Some y \<Longrightarrow> \<not> unknown m p e \<and> fst y = ismp"
    and r: "(if p < e
      then if m p = 0 then loop ismp (p + 20) e (add_cpu (m (p + 1)) s) m
           else if m p = 2 then loop ismp (p + 8) e (s\<lparr>ioapicid := m (p + 1)\<rparr>) m
           else if m p \<in> {1, 3, 4} then loop ismp (p + 8) e s m
           else loop False p e s m
      else Some (ismp, s)) = Some r"
  consider "\<not> p < e" | "p < e" "m p = 0" | "p < e" "m p \<in> {1, 2, 3, 4}" | "p < e" "4 < m p"
    using byte_types [of "m p"] by auto
  then show "\<not> unknown m p e \<and> fst r = ismp"
  proof cases
    case 1
    then show ?thesis using r by (subst unknown_simps) auto
  next
    case 2
    then show ?thesis using r ih [of ismp "p + 20" e "add_cpu (m (p + 1)) s" m r] by (subst unknown_simps) auto
  next
    case 3
    then have "loop ismp (p + 8) e (if m p = 2 then s\<lparr>ioapicid := m (p + 1)\<rparr> else s) m = Some r" using r by auto
    then show ?thesis using 3 ih by (subst unknown_simps) auto
  next
    case 4
    then have "m p \<notin> {0, 1, 2, 3, 4}" by (auto simp: word_less_nat_alt)
    then have "loop False p e s m = Some r" using r 4(1) by auto
    then have "\<not> unknown m p e" using ih by blast
    then show ?thesis using 4 unknown.intros(1) by blast
  qed
qed

text \<open>
  C39: when the table of the machine holds only entries of the five known types, \<^verbatim>\<open>mpinit\<close> returns and
  records the identifiers of its first eight processors in the order of the table. When the walk
  meets an entry of another type, \<^verbatim>\<open>mpinit\<close> never returns: the \<^verbatim>\<open>break\<close> that is meant to end the
  walk leaves the \<^verbatim>\<open>switch\<close> only, and the same entry is looked at for ever. The panic about an
  unsuitable machine is therefore never reached.
\<close>

theorem mpinit_walk:
  assumes "mpconfig m = Some (mp, conf)" "apicids s = []"
  shows "(table m (conf + 44) (conf + ucast (half (conf + 4) m)) es \<longrightarrow>
      (\<exists>s' out. mpinit in23 s m = Some (Inr (s', out)) \<and> apicids s' = take NCPU (processors es) \<and> lapic s' = load32 m (conf + 36))) \<and>
    (unknown m (conf + 44) (conf + ucast (half (conf + 4) m)) \<longrightarrow> mpinit in23 s m = None) \<and>
    mpinit in23 s m \<noteq> Some (panic ''Didn't find a suitable machine'')"
proof -
  let ?p = "conf + 44" and ?e = "conf + ucast (half (conf + 4) m) :: uint" and ?s = "s\<lparr>lapic := load32 m (conf + 36)\<rparr>"
  have "\<exists>s' out. mpinit in23 s m = Some (Inr (s', out)) \<and> apicids s' = take NCPU (processors es) \<and> lapic s' = load32 m (conf + 36)"
    if "table m ?p ?e es"
    using table_walk [OF that, of ?s True] assms by (auto simp: mpinit_def)
  moreover have "mpinit in23 s m = None" if "unknown m ?p ?e"
    using unknown_stuck [of True ?p ?e ?s m] that assms(1) by (cases "mpinit_loop True ?p ?e ?s m") (auto simp: mpinit_def)
  moreover have "mpinit in23 s m \<noteq> Some (panic ''Didn't find a suitable machine'')"
    using unknown_stuck [of True ?p ?e ?s m] assms(1) by (cases "mpinit_loop True ?p ?e ?s m") (auto simp: mpinit_def split: if_splits)
  ultimately show ?thesis by blast
qed

text \<open>A memory with a table of one entry of type \<open>t\<close>; \<open>c\<close> makes the checksum right.\<close>

definition mem_mp :: "byte \<Rightarrow> byte \<Rightarrow> mem" where
  "mem_mp t c = (\<lambda>_. 0)(0x80000400 := 0x5f, 0x80000401 := 0x4d, 0x80000402 := 0x50, 0x80000403 := 0x5f, 0x80000405 := 5, 0x80000408 := 1,
     0x80000409 := 4, 0x8000040a := 0x5b, 0x8000040e := 0x40, 0x80000500 := 0x50, 0x80000501 := 0x43, 0x80000502 := 0x4d,
     0x80000503 := 0x50, 0x80000504 := 64, 0x80000506 := 4, 0x80000507 := c, 0x80000526 := 0xe0, 0x80000527 := 0xfe,
     0x8000052c := t, 0x8000052d := 7)"

lemma mem_mp_config: "mpconfig (mem_mp 0 0xa7) = Some (0x80000400, 0x80000500)" "mpconfig (mem_mp 9 0x9e) = Some (0x80000400, 0x80000500)"
  by code_simp+

theorem mpinit_walk_witness:
  "(\<exists>s' out. mpinit 0 \<lparr>lapic = 0, apicids = [], ioapicid = 0\<rparr> (mem_mp 0 0xa7) = Some (Inr (s', out)) \<and> apicids s' = [7] \<and> lapic s' = 0xfee00000) \<and>
   mpinit 0 \<lparr>lapic = 0, apicids = [], ioapicid = 0\<rparr> (mem_mp 9 0x9e) = None"
proof -
  have e: "0x80000500 + ucast (half (0x80000500 + 4) (mem_mp t c)) = (0x80000540 :: uint)" for t c
    by (simp add: half_def mem_mp_def)
  have "table (mem_mp 0 0xa7) (0x80000500 + 44) 0x80000540 [Processor (mem_mp 0 0xa7 (0x80000500 + 44 + 1))]"
    by (rule table.intros) (auto simp: mem_mp_def intro: table.intros)
  moreover have "load32 (mem_mp 0 0xa7) (0x80000500 + 36) = 0xfee00000" by (simp add: load32_def mem_mp_def)
  moreover have "mem_mp 0 0xa7 (0x80000500 + 44 + 1) = 7" by (simp add: mem_mp_def)
  moreover have "unknown (mem_mp 9 0x9e) (0x80000500 + 44) 0x80000540" by (rule unknown.intros(1)) (simp_all add: mem_mp_def)
  ultimately show ?thesis
    using mpinit_walk [OF mem_mp_config(1), of "\<lparr>lapic = 0, apicids = [], ioapicid = 0\<rparr>" "[Processor 7]" 0, unfolded e]
      mpinit_walk [OF mem_mp_config(2), of "\<lparr>lapic = 0, apicids = [], ioapicid = 0\<rparr>" "[]" 0, unfolded e] by simp
qed

end
