(* ===== verification/Devices.thy ===== *)
theory Devices
  imports Bio Console
begin

text \<open>
  Programming of the interrupt controllers, the clock, the serial port and the disk at boot
  (\<^verbatim>\<open>lapic.c\<close>, \<^verbatim>\<open>ioapic.c\<close>, \<^verbatim>\<open>picirq.c\<close>, \<^verbatim>\<open>uart.c\<close>, \<^verbatim>\<open>ide.c\<close>). What the code writes to a device is a list
  of registers or ports and values, in the order of the code; what it reads is a function of the number of
  reads before it. A loop that waits for a device that never becomes ready does not return: its value is None.
\<close>

type_synonym port_writes = "(ushort \<times> byte) list"
type_synonym reg_writes = "(nat \<times> uint) list"

subsection \<open>The interrupt controllers\<close>

definition picinit :: port_writes where
  "picinit = [(0x20 + 1, 0xFF), (0xA0 + 1, 0xFF)]"

abbreviation (input) INT_DISABLED :: uint where "INT_DISABLED \<equiv> 0x00010000"
abbreviation (input) REG_TABLE :: nat where "REG_TABLE \<equiv> 0x10"
abbreviation (input) IRQ0 :: uint where "IRQ0 \<equiv> 32"

definition ioapicwrite :: "nat \<Rightarrow> uint \<Rightarrow> reg_writes" where
  "ioapicwrite reg v = [(reg, v)]"

fun ioapic_mask :: "nat \<Rightarrow> nat \<Rightarrow> reg_writes" where
  "ioapic_mask 0 i = []"
| "ioapic_mask (Suc n) i =
     ioapicwrite (REG_TABLE + 2 * i) (INT_DISABLED OR (IRQ0 + of_nat i)) @ ioapicwrite (REG_TABLE + 2 * i + 1) 0 @ ioapic_mask n (i + 1)"

text \<open>The writes, and the message when the identifier is not the one of the tables of the machine.\<close>

definition ioapicinit :: "(nat \<Rightarrow> uint) \<Rightarrow> byte \<Rightarrow> reg_writes \<times> string" where
  "ioapicinit regs ioapicid =
     (let maxintr = drop_bit 16 (regs 1) AND 0xFF; id = drop_bit 24 (regs 0)
      in (ioapic_mask (unat maxintr + 1) 0,
          if id \<noteq> ucast ioapicid then ''ioapicinit: id isn't equal to ioapicid; not a MP'' @ [CHR 0x0A] else []))"

definition ioapicenable :: "nat \<Rightarrow> uint \<Rightarrow> reg_writes" where
  "ioapicenable irq cpunum =
     ioapicwrite (REG_TABLE + 2 * irq) (IRQ0 + of_nat irq) @ ioapicwrite (REG_TABLE + 2 * irq + 1) (push_bit 24 cpunum)"

definition lapicw :: "nat \<Rightarrow> uint \<Rightarrow> reg_writes" where
  "lapicw index val = [(index, val)]"

text \<open>The loop over the delivery status, from read number \<open>k\<close>.\<close>

partial_function (option) icr_wait :: "(nat \<Rightarrow> uint) \<Rightarrow> nat \<Rightarrow> nat option" where
  "icr_wait icr k = (if icr k AND 0x1000 \<noteq> 0 then icr_wait icr (k + 1) else Some (k + 1))"

definition lapicinit :: "uint \<Rightarrow> uint \<Rightarrow> (nat \<Rightarrow> uint) \<Rightarrow> reg_writes option" where
  "lapicinit lapic ver icr =
     (if lapic = 0 then Some []
      else let ws = lapicw 60 (0x100 OR (IRQ0 + 31)) @ lapicw 248 0xB @ lapicw 200 (0x20000 OR IRQ0) @ lapicw 224 10000000 @
                    lapicw 212 0x10000 @ lapicw 216 0x10000 @
                    (if drop_bit 16 ver AND 0xFF \<ge> 4 then lapicw 208 0x10000 else []) @
                    lapicw 220 (IRQ0 + 19) @ lapicw 160 0 @ lapicw 160 0 @ lapicw 44 0 @ lapicw 196 0 @
                    lapicw 192 (0x80000 OR 0x500 OR 0x8000)
           in map_option (\<lambda>_. ws @ lapicw 32 0) (icr_wait icr 0))"

definition lapicid :: "uint \<Rightarrow> uint \<Rightarrow> uint" where
  "lapicid lapic idreg = (if lapic = 0 then 0 else drop_bit 24 idreg)"

definition lapiceoi :: "uint \<Rightarrow> reg_writes" where
  "lapiceoi lapic = (if lapic \<noteq> 0 then lapicw 44 0 else [])"

text \<open>The ports, the warm reset vector at its address, and the commands to the other processor.\<close>

definition lapicstartap :: "byte \<Rightarrow> uint \<Rightarrow> port_writes \<times> (uint \<times> ushort) list \<times> reg_writes" where
  "lapicstartap apicid addr =
     (let wrv = P2V (push_bit 4 0x40 OR 0x67); start = lapicw 196 (push_bit 24 (ucast apicid)) @ lapicw 192 (0x600 OR drop_bit 12 addr)
      in ([(0x70, 0xF), (0x71, 0x0A)], [(wrv, 0), (wrv + 2, ucast (drop_bit 4 addr))],
          lapicw 196 (push_bit 24 (ucast apicid)) @ lapicw 192 (0x500 OR 0x8000 OR 0x4000) @ lapicw 192 (0x500 OR 0x8000) @ start @ start))"

subsection \<open>The clock\<close>

record rtcdate =
  second :: uint
  minute :: uint
  hour :: uint
  day :: uint
  month :: uint
  year :: uint

text \<open>The clock gives the value of a register at each read; \<open>k\<close> counts the reads.\<close>

definition cmos_read :: "(nat \<Rightarrow> byte \<Rightarrow> byte) \<Rightarrow> byte \<Rightarrow> nat \<Rightarrow> uint \<times> nat" where
  "cmos_read clock reg k = (ucast (clock k reg), k + 1)"

definition fill_rtcdate :: "(nat \<Rightarrow> byte \<Rightarrow> byte) \<Rightarrow> nat \<Rightarrow> rtcdate \<times> nat" where
  "fill_rtcdate clock k =
     (let (s, k1) = cmos_read clock 0x00 k; (mi, k2) = cmos_read clock 0x02 k1; (h, k3) = cmos_read clock 0x04 k2;
          (d, k4) = cmos_read clock 0x07 k3; (mo, k5) = cmos_read clock 0x08 k4; (y, k6) = cmos_read clock 0x09 k5
      in (\<lparr>second = s, minute = mi, hour = h, day = d, month = mo, year = y\<rparr>, k6))"

partial_function (option) cmostime_loop :: "(nat \<Rightarrow> byte \<Rightarrow> byte) \<Rightarrow> nat \<Rightarrow> rtcdate option" where
  "cmostime_loop clock k =
     (let (t1, k1) = fill_rtcdate clock k; (a, k2) = cmos_read clock 0x0a k1
      in if a AND push_bit 7 1 \<noteq> 0 then cmostime_loop clock k2
         else let (t2, k3) = fill_rtcdate clock k2 in if t1 = t2 then Some t1 else cmostime_loop clock k3)"

definition CONV :: "uint \<Rightarrow> uint" where
  "CONV x = drop_bit 4 x * 10 + (x AND 0xf)"

definition cmostime :: "(nat \<Rightarrow> byte \<Rightarrow> byte) \<Rightarrow> rtcdate option" where
  "cmostime clock =
     (let (sb, k) = cmos_read clock 0x0b 0; bcd = (sb AND push_bit 2 1 = 0)
      in map_option
           (\<lambda>t1. let t1 = (if bcd
                           then \<lparr>second = CONV (second t1), minute = CONV (minute t1), hour = CONV (hour t1), day = CONV (day t1),
                                 month = CONV (month t1), year = CONV (year t1)\<rparr> else t1)
                 in t1\<lparr>year := year t1 + 2000\<rparr>)
           (cmostime_loop clock k))"

subsection \<open>The serial port and the disk\<close>

definition uartinit :: "byte \<Rightarrow> console \<Rightarrow> port_writes \<times> reg_writes \<times> console" where
  "uartinit status s =
     (let ws = [(0x3f8 + 2, 0), (0x3f8 + 3, 0x80), (0x3f8, 115200 div 9600), (0x3f8 + 1, 0), (0x3f8 + 3, 0x03), (0x3f8 + 4, 0), (0x3f8 + 1, 0x01)]
      in if status = 0xFF then (ws, [], s)
         else (ws, ioapicenable 4 0, fold uartputc (map (\<lambda>c. of_nat (of_char c)) (''xv6...'' @ [CHR 0x0A])) (s\<lparr>uart := True\<rparr>)))"

text \<open>The result, and the number of the next read of the status.\<close>

partial_function (option) idewait :: "bool \<Rightarrow> (nat \<Rightarrow> byte) \<Rightarrow> nat \<Rightarrow> (int \<times> nat) option" where
  "idewait checkerr status k =
     (let r = status k
      in if r AND (0x80 OR 0x40) \<noteq> 0x40 then idewait checkerr status (k + 1)
         else Some (if checkerr \<and> r AND (0x20 OR 0x01) \<noteq> 0 then -1 else 0, k + 1))"

fun disk1_loop :: "nat \<Rightarrow> (nat \<Rightarrow> byte) \<Rightarrow> nat \<Rightarrow> bool" where
  "disk1_loop 0 status k = False"
| "disk1_loop (Suc n) status k = (if status k \<noteq> 0 then True else disk1_loop n status (k + 1))"

definition ideinit :: "uint \<Rightarrow> (nat \<Rightarrow> byte) \<Rightarrow> (reg_writes \<times> port_writes \<times> bool) option" where
  "ideinit ncpu status =
     map_option (\<lambda>(_, k). (ioapicenable 14 (ncpu - 1), [(0x1f6, 0xe0 OR push_bit 4 1), (0x1f6, 0xe0 OR push_bit 4 0)], disk1_loop 1000 status k))
       (idewait False status 0)"

subsection \<open>What the registers hold\<close>

definition written :: "reg_writes \<Rightarrow> (nat \<Rightarrow> uint) \<Rightarrow> nat \<Rightarrow> uint" where
  "written ws regs = fold (\<lambda>(i, v) r. r(i := v)) ws regs"

lemma written_Nil [simp]: "written [] regs = regs"
  by (simp add: written_def)

lemma written_append [simp]: "written (xs @ ys) regs = written ys (written xs regs)"
  by (simp add: written_def)

lemma written_ioapicwrite [simp]: "written (ioapicwrite r v) regs = regs(r := v)"
  by (simp add: written_def ioapicwrite_def)

lemma ioapic_mask_other: "r < REG_TABLE + 2 * i \<Longrightarrow> written (ioapic_mask n i) regs r = regs r"
  by (induction n arbitrary: i regs) auto

lemma ioapic_mask_entry:
  "i \<le> k \<Longrightarrow> k < i + n \<Longrightarrow> written (ioapic_mask n i) regs (REG_TABLE + 2 * k) = INT_DISABLED OR (IRQ0 + of_nat k)"
proof (induction n arbitrary: i regs)
  case (Suc n)
  then show ?case by (cases "k = i") (simp_all add: ioapic_mask_other)
qed simp

text \<open>
  After the initialisation every interrupt the controller has is masked, and enabling one of them
  unmasks that one, with the vector the trap handler expects, and no other.
\<close>

lemma ioapic_enable_one:
  assumes "k \<le> unat (drop_bit 16 (regs 1) AND 0xFF)"
  shows "written (fst (ioapicinit regs apic) @ ioapicenable irq cpunum) regs (REG_TABLE + 2 * k) =
    (if k = irq then IRQ0 + of_nat irq else INT_DISABLED OR (IRQ0 + of_nat k))"
proof -
  have "REG_TABLE + 2 * k \<noteq> REG_TABLE + 2 * irq + 1" by presburger
  then show ?thesis
    using assms by (simp add: ioapicinit_def ioapicenable_def ioapic_mask_entry Let_def del: ioapic_mask.simps)
qed

text \<open>
  The loops that wait for a device end as soon as it becomes ready.
\<close>

lemma idewait_ends:
  assumes "status n AND (0x80 OR 0x40) = 0x40" "\<And>i. i < n \<Longrightarrow> status i AND (0x80 OR 0x40) \<noteq> 0x40"
  shows "k \<le> n \<Longrightarrow> idewait checkerr status k = Some (if checkerr \<and> status n AND (0x20 OR 0x01) \<noteq> 0 then -1 else 0, n + 1)"
proof (induction "n - k" arbitrary: k)
  case 0
  then have "k = n" by simp
  then show ?case using assms(1) by (subst idewait.simps) (simp add: Let_def)
next
  case (Suc d)
  then have "k < n" "d = n - (k + 1)" by simp_all
  then show ?case using Suc(1) [of "k + 1"] assms(2) [of k] by (subst idewait.simps) (simp add: Let_def)
qed

lemma icr_wait_ends:
  assumes "icr n AND 0x1000 = 0" "\<And>i. i < n \<Longrightarrow> icr i AND 0x1000 \<noteq> 0"
  shows "k \<le> n \<Longrightarrow> icr_wait icr k = Some (n + 1)"
proof (induction "n - k" arbitrary: k)
  case 0
  then have "k = n" by simp
  then show ?case using assms(1) by (subst icr_wait.simps) simp
next
  case (Suc d)
  then have "k < n" "d = n - (k + 1)" by simp_all
  then show ?case using Suc(1) [of "k + 1"] assms(2) [of k] by (subst icr_wait.simps) simp
qed

text \<open>
  A local controller that delivers its interrupts has both interrupt lines masked after the
  initialisation, the timer periodic on its vector, and accepts interrupts of every priority.
\<close>

lemma lapicinit_registers:
  assumes "lapic \<noteq> 0" "icr n AND 0x1000 = 0" "\<And>i. i < n \<Longrightarrow> icr i AND 0x1000 \<noteq> 0"
  obtains ws where "lapicinit lapic ver icr = Some ws" "written ws regs 212 = 0x10000" "written ws regs 216 = 0x10000"
    "written ws regs 200 = 0x20000 OR IRQ0" "written ws regs 32 = 0"
  using assms(1) icr_wait_ends [of icr n 0, OF assms(2,3)]
  by (simp add: lapicinit_def lapicw_def Let_def written_def)

text \<open>
  A date of the century that the clock shows as binary coded decimals, with no update in progress, is the
  date the code returns.
\<close>

definition bcd :: "nat \<Rightarrow> byte" where
  "bcd n = of_nat (16 * (n div 10) + n mod 10)"

lemma CONV_digits:
  assumes "q < 10" "r < 10"
  shows "CONV (of_nat (16 * q + r)) = of_nat (q * 10 + r)"
proof -
  have "unat (of_nat (16 * q + r) :: uint) = 16 * q + r"
    using assms by (simp add: unat_of_nat del: of_nat_add of_nat_mult)
  then have "unat (drop_bit 4 (of_nat (16 * q + r) :: uint)) = q"
    using assms by (simp only: unat_drop_bit_eq) (simp add: drop_bit_eq_div)
  then have high: "drop_bit 4 (of_nat (16 * q + r) :: uint) = of_nat q"
    by (metis of_nat_unat ucast_id)
  have "(of_nat (16 * q + r) :: uint) AND mask 4 = of_nat (take_bit 4 (16 * q + r))"
    by (simp only: take_bit_eq_mask [symmetric] take_bit_of_nat)
  also have "take_bit 4 (16 * q + r) = r" using assms by (simp add: take_bit_eq_mod)
  finally have "(of_nat (16 * q + r) :: uint) AND 0xf = of_nat r" by (simp add: mask_eq_exp_minus_1)
  then show ?thesis unfolding CONV_def high by simp
qed

lemma CONV_bcd:
  assumes "n < 100"
  shows "CONV (ucast (bcd n)) = of_nat n"
proof -
  have d: "n div 10 < 10" "n mod 10 < 10" using assms by simp_all
  have "unat (bcd n) = 16 * (n div 10) + n mod 10"
    unfolding bcd_def using d by (simp add: unat_of_nat del: of_nat_add of_nat_mult)
  then have "ucast (bcd n) = (of_nat (16 * (n div 10) + n mod 10) :: uint)"
    by (metis of_nat_unat)
  then show ?thesis using CONV_digits [OF d] by (simp only: div_mult_mod_eq)
qed

lemma ucast_test: "(ucast (w :: byte) AND ucast (m :: byte) = (0 :: uint)) = (w AND m = 0)"
proof -
  have "ucast w AND ucast m = (ucast (w AND m) :: uint)" by (simp add: unsigned_and_eq)
  moreover have "ucast (ucast (w AND m) :: uint) = w AND m" by (simp add: ucast_down_ucast_id is_down)
  ultimately show ?thesis by (metis unsigned_0)
qed

lemma cmostime_steady:
  assumes "\<And>k r. clock k r = regs r" "regs 0x0a AND 0x80 = 0" "regs 0x0b AND 0x04 = 0"
    and "s < 100" "mi < 100" "h < 100" "d < 100" "mo < 100" "y < 100"
    and "regs 0x00 = bcd s" "regs 0x02 = bcd mi" "regs 0x04 = bcd h" "regs 0x07 = bcd d" "regs 0x08 = bcd mo" "regs 0x09 = bcd y"
  shows "cmostime clock =
    Some \<lparr>second = of_nat s, minute = of_nat mi, hour = of_nat h, day = of_nat d, month = of_nat mo, year = of_nat y + 2000\<rparr>"
proof -
  have a: "ucast (regs 0x0a) AND (128 :: uint) = 0" and b: "ucast (regs 0x0b) AND (4 :: uint) = 0"
    using assms(2,3) ucast_test [where w = "regs 0x0a" and m = "0x80"] ucast_test [where w = "regs 0x0b" and m = "0x04"] by simp_all
  let ?t = "\<lparr>second = ucast (bcd s), minute = ucast (bcd mi), hour = ucast (bcd h), day = ucast (bcd d), month = ucast (bcd mo), year = ucast (bcd y)\<rparr>"
  have fill: "fill_rtcdate clock k = (?t, k + 6)" for k
    by (simp add: fill_rtcdate_def cmos_read_def assms)
  have "cmostime_loop clock 1 = Some ?t"
    by (subst cmostime_loop.simps) (simp add: fill cmos_read_def assms(1) a)
  then show ?thesis
    using b by (simp add: cmostime_def cmos_read_def assms(1,4-9) CONV_bcd)
qed

text \<open>
  The loop of \<^verbatim>\<open>cmostime\<close> returns a date that two whole readings agree on, with no update in progress between them.
\<close>

lemma fill_reads: "snd (fill_rtcdate clock k) = k + 6"
  by (simp add: fill_rtcdate_def cmos_read_def)

definition agreed :: "(nat \<Rightarrow> byte \<Rightarrow> byte) \<Rightarrow> rtcdate \<Rightarrow> bool" where
  "agreed clock t \<longleftrightarrow>
     (\<exists>n. fst (fill_rtcdate clock n) = t \<and> fst (fill_rtcdate clock (n + 7)) = t \<and> clock (n + 6) 0x0a AND 0x80 = 0)"

lemma cmostime_loop_agrees:
  assumes "cmostime_loop clock k = Some t"
  shows "agreed clock t"
proof (rule cmostime_loop.raw_induct [where P = "\<lambda>clock k t. agreed clock t", OF _ assms])
  fix loop k t and clock :: "nat \<Rightarrow> byte \<Rightarrow> byte"
  assume IH: "\<And>clock k t. loop clock k = Some t \<Longrightarrow> agreed clock t"
    and eq: "(let (t1, k1) = fill_rtcdate clock k; (a, k2) = cmos_read clock 0x0a k1
      in if a AND push_bit 7 1 \<noteq> 0 then loop clock k2
         else let (t2, k3) = fill_rtcdate clock k2 in if t1 = t2 then Some t1 else loop clock k3) = Some t"
  have uip: "(ucast (clock (k + 6) 0x0a) AND push_bit 7 (1 :: uint) = 0) = (clock (k + 6) 0x0a AND 0x80 = 0)"
    using ucast_test [where w = "clock (k + 6) 0x0a" and m = "0x80"] by simp
  have k: "k + 6 + 1 = k + 7" by simp
  show "agreed clock t"
    using eq unfolding Let_def case_prod_beta cmos_read_def fill_reads fst_conv snd_conv uip k
    by (metis IH agreed_def option.inject)
qed

end
