(* ===== verification/Spec2Isabelle.thy ===== *)
theory Spec2Isabelle
  imports Lifecycle Dealloc Spinlock Grep Ulib Shell_Run Umalloc Mkfs_Image Segments Mp Devices
begin

text \<open>
  Verification of the xv6 kernel with memory mapping, of its shell, user library and image builder
  (\<^verbatim>\<open>src/xv6-public\<close>).

  \<^bold>\<open>The program.\<close> A trap enters the kernel (\<^verbatim>\<open>trap.c\<close>) and dispatches a system call (\<^verbatim>\<open>syscall.c\<close>,
  \<^verbatim>\<open>sysproc.c\<close>, \<^verbatim>\<open>sysfile.c\<close>), a device interrupt or a page fault. Calls on files go through open files and
  pipes (\<^verbatim>\<open>file.c\<close>, \<^verbatim>\<open>pipe.c\<close>) to the file system (\<^verbatim>\<open>fs.c\<close>), which reads and writes blocks by way of the log
  (\<^verbatim>\<open>log.c\<close>), the buffer cache (\<^verbatim>\<open>bio.c\<close>) and the disk driver (\<^verbatim>\<open>ide.c\<close>). Calls on processes and memory use
  the process table (\<^verbatim>\<open>proc.c\<close>), the mappings (\<^verbatim>\<open>wmap.c\<close>), page tables (\<^verbatim>\<open>vm.c\<close>) and the page allocator
  (\<^verbatim>\<open>kalloc.c\<close>). The page fault handler of \<^verbatim>\<open>wmap.c\<close> loads the pages of a mapping on first use.

  \<^bold>\<open>Conventions.\<close> C integers are machine words of their width (theory \<open>Prelude\<close>), so every overflow is
  the one of the code. Memory is a function from addresses to bytes; page tables, the free list and
  the disk blocks are read and written through it or through maps of blocks. An operation that can panic
  returns a sum: \<open>Inl\<close> is the panic with its message, or \<open>stuck\<close> where the code would sleep for ever or
  dereference a null pointer, \<open>Inr\<close> the result and the new state. The records of the
  state extend each other as the layers do: buffer cache, log, file system, open files, kernel.

  \<^bold>\<open>Theories and sources.\<close>
  \<^item> \<open>Prelude\<close>, \<open>Memory\<close>: \<^verbatim>\<open>types.h\<close>, \<^verbatim>\<open>string.c\<close>, the string instructions of \<^verbatim>\<open>x86.h\<close>. Lemmas: \<^verbatim>\<open>memset\<close> and
    \<^verbatim>\<open>memmove\<close> write exactly their range, also when source and destination overlap.
  \<^item> \<open>Kalloc\<close>: \<^verbatim>\<open>kalloc.c\<close>. The locale \<open>page_allocator\<close> is what clients rely on and is interpreted on
    \<^verbatim>\<open>kalloc\<close> and \<^verbatim>\<open>kfree\<close>; a page that is handed out is fresh, and freeing it twice hands it out twice.
  \<^item> \<open>Vm\<close>, \<open>Vm_Spec\<close>, \<open>Vm_Map\<close>, \<open>Vm_User\<close>, \<open>Dealloc\<close>: \<^verbatim>\<open>vm.c\<close>, \<^verbatim>\<open>mmu.h\<close>. The address space as a map from pages to
    entries, and what mapping and unmapping a range does to it; shrinking frees exactly the pages
    given back, and the skipping loop agrees with the page-by-page one.
  \<^item> \<open>Segments\<close>: the descriptors of \<^verbatim>\<open>mmu.h\<close>, \<^verbatim>\<open>seginit\<close>, \<^verbatim>\<open>tvinit\<close>. User code can raise the system call only.
  \<^item> \<open>Spinlock\<close>: \<^verbatim>\<open>spinlock.c\<close>. Steps of any number of processors; mutual exclusion by rule induction.
  \<^item> \<open>Bio\<close>, \<open>Bio_Spec\<close>: \<^verbatim>\<open>sleeplock.c\<close>, \<^verbatim>\<open>ide.c\<close>, \<^verbatim>\<open>memide.c\<close>, \<^verbatim>\<open>bio.c\<close>. The linked list is a ring of distinct
    buffers, and the cache shows one view of the disk.
  \<^item> \<open>Log\<close>, \<open>Log_Spec\<close>: \<^verbatim>\<open>log.c\<close>. A crash between any two disk writes of a commit keeps the transaction whole.
  \<^item> \<open>Console\<close>: \<^verbatim>\<open>console.c\<close>, \<^verbatim>\<open>kbd.c\<close>, \<^verbatim>\<open>kbd.h\<close>, \<^verbatim>\<open>uart.c\<close>. \<open>Fs\<close>: \<^verbatim>\<open>fs.c\<close>, \<^verbatim>\<open>fs.h\<close>. \<open>Pipe\<close>, \<open>File\<close>: \<^verbatim>\<open>pipe.c\<close>,
    \<^verbatim>\<open>file.c\<close>; the locale \<open>bounded_queue\<close> is interpreted on the ring of a pipe, which is a queue.
  \<^item> \<open>Kernel\<close>, \<open>Proc\<close>, \<open>Proc_Spec\<close>: \<^verbatim>\<open>proc.h\<close>, \<^verbatim>\<open>proc.c\<close>. Unique process numbers, scheduling, sleep and wakeup,
    and what \<^verbatim>\<open>exit\<close> and \<^verbatim>\<open>kill\<close> leave behind.
  \<^item> \<open>Wmap\<close>, \<open>Wmap_Spec\<close>: \<^verbatim>\<open>wmap.c\<close>, \<^verbatim>\<open>wmap.h\<close>. The table of mappings stays sorted and disjoint; unmapping frees
    the frames that were loaded; a fault loads one page. \<open>Sample\<close> is a concrete state for the examples.
  \<^item> \<open>Syscall\<close>, \<open>Exec\<close>, \<open>Sysproc\<close>, \<open>Sysfile\<close>, \<open>Trap\<close>: \<^verbatim>\<open>syscall.c\<close>, \<^verbatim>\<open>exec.c\<close>, \<^verbatim>\<open>elf.h\<close>, \<^verbatim>\<open>sysproc.c\<close>, \<^verbatim>\<open>sysfile.c\<close>,
    \<^verbatim>\<open>trap.c\<close>. \<open>Lifecycle\<close> spans them: every trap and every round of the scheduler is a step of the
    abstract life of processes, and the scheduler does not panic.
  \<^item> \<open>Mp\<close>, \<open>Devices\<close>: \<^verbatim>\<open>mp.c\<close>, \<^verbatim>\<open>lapic.c\<close>, \<^verbatim>\<open>ioapic.c\<close>, \<^verbatim>\<open>picirq.c\<close>, \<^verbatim>\<open>uartinit\<close>, \<^verbatim>\<open>ideinit\<close>. The walk over the
    processor table, the registers after the initialisation, and the date the clock shows.
  \<^item> \<open>Ulib\<close>, \<open>Umalloc\<close>, \<open>Grep\<close>: \<^verbatim>\<open>ulib.c\<close>, \<^verbatim>\<open>printf.c\<close>, \<^verbatim>\<open>umalloc.c\<close>, \<^verbatim>\<open>grep.c\<close>. Numbers round trip, the regions of
    \<^verbatim>\<open>malloc\<close> are disjoint, the matcher decides the meaning of its pattern.
  \<^item> \<open>Shell\<close>, \<open>Shell_Spec\<close>, \<open>Shell_Run\<close>: \<^verbatim>\<open>sh.c\<close>. The parser ends and cuts the line into its words; a pipeline is
    wired as written.
  \<^item> \<open>Mkfs\<close>, \<open>Mkfs_Spec\<close>, \<open>Mkfs_Image\<close>: \<^verbatim>\<open>mkfs.c\<close>. The image is well formed and holds the files.

  \<^bold>\<open>Bounds and fuel.\<close> A loop over pages has the fuel \<open>page_fuel\<close>, one more than the number of pages of
  a 32-bit address space. The parser of the shell has four times the length of its line, and
  theory \<open>Shell_Spec\<close> shows that it is enough. The wait of \<^verbatim>\<open>iderw\<close> has the length of the request
  queue, since each interrupt finishes one request. Loops that wait for a device, and the walk over
  the processor table, are partial functions, with separate lemmas about when they return.

  \<^bold>\<open>Not modelled.\<close> Assembly (\<^verbatim>\<open>entry.S\<close>, \<^verbatim>\<open>entryother.S\<close>, \<^verbatim>\<open>swtch.S\<close>, \<^verbatim>\<open>trapasm.S\<close>, \<^verbatim>\<open>bootasm.S\<close>, \<^verbatim>\<open>initcode.S\<close>, \<^verbatim>\<open>usys.S\<close>)
  and the generated vectors: they are not C, and the context switch is the change of the process whose
  state is current. The boot loader \<^verbatim>\<open>bootmain.c\<close> and \<^verbatim>\<open>main.c\<close>: port reads, jumps and the order of the
  initialisers. \<^verbatim>\<open>procdump\<close>, which prints, the messages of \<^verbatim>\<open>allocuvm\<close> and the task segment that \<^verbatim>\<open>switchuvm\<close> fills in. The prompt of the shell and the
  small programs \<^verbatim>\<open>cat\<close>, \<^verbatim>\<open>echo\<close>, \<^verbatim>\<open>init\<close>, \<^verbatim>\<open>kill\<close>, \<^verbatim>\<open>ln\<close>, \<^verbatim>\<open>ls\<close>, \<^verbatim>\<open>mkdir\<close>, \<^verbatim>\<open>rm\<close>, \<^verbatim>\<open>wc\<close>, \<^verbatim>\<open>zombie\<close>, which
  are loops over system calls. The tests \<^verbatim>\<open>usertests.c\<close>, \<^verbatim>\<open>forktest.c\<close> and \<^verbatim>\<open>stressfs.c\<close>. Interleaving of kernel
  threads is modelled for spin locks, pipes and the scheduler; elsewhere an operation runs
  with its locks held, from one sleep to the next.
\<close>

end
